(* ===== verification/Vsr_Prelude.thy ===== *)
theory Vsr_Prelude
  imports Main "HOL-Library.Word" "HOL-Library.Signed_Division"
begin

text \<open>
  Shared vocabulary of the development: the fixed-width types of the C++ code, the
  little-endian memory image of an unsigned integer (what \<open>memcpy\<close> of a scalar reads and
  writes on the little-endian hosts the program runs on), \<open>std::map\<close> as a strictly sorted
  association list, \<open>std::string\<close> against \<open>std::vector<byte>\<close>, and whitespace-delimited
  extraction from a \<open>std::stringstream\<close>. The interfaces that several components rely on are
  stated as locales and interpreted here on these definitions.
\<close>

named_theorems codec_simps \<open>sizes and round trips of byte images\<close>
named_theorems omap_simps \<open>lookup and update of ordered maps\<close>

type_synonym byte = "8 word"
type_synonym u32 = "32 word"
type_synonym u64 = "64 word"

section \<open>Little-endian memory images\<close>

primrec le_bytes :: "nat \<Rightarrow> nat \<Rightarrow> byte list" where
  "le_bytes 0 k = []"
| "le_bytes (Suc n) k = of_nat (k mod 256) # le_bytes n (k div 256)"

primrec le_val :: "byte list \<Rightarrow> nat" where
  "le_val [] = 0"
| "le_val (b # bs) = unat b + 256 * le_val bs"

definition enc_word :: "'a::len word \<Rightarrow> byte list" where
  "enc_word w = le_bytes (LENGTH('a) div 8) (unat w)"

definition dec_word :: "byte list \<Rightarrow> 'a::len word" where
  "dec_word bs = of_nat (le_val bs)"

text \<open>
  \<open>read_pod\<close> reads the memory image of one object from the bytes between \<open>ptr\<close> and
  \<open>end\<close>, and advances \<open>ptr\<close>; \<open>None\<close> is the early return \<open>false\<close>.
\<close>

definition read_pod :: "nat \<Rightarrow> (byte list \<Rightarrow> 'a) \<Rightarrow> byte list \<Rightarrow> ('a \<times> byte list) option" where
  "read_pod n dec bs = (if length bs < n then None else Some (dec (take n bs), drop n bs))"

section \<open>Ordered maps\<close>

text \<open>
  A \<open>std::map\<close> is the list of its elements in iteration order. \<open>om_assign\<close> is
  \<open>m[k] = v\<close>, \<open>om_erase\<close> is \<open>m.erase(k)\<close>, \<open>om_find\<close> is \<open>m.find(k)\<close> and
  \<open>om_index d m k\<close> the value that \<open>m[k]\<close> refers to, where a missing key has been given the
  default-constructed value \<open>d\<close>.
\<close>

type_synonym ('k, 'v) omap = "('k \<times> 'v) list"

fun om_assign :: "'k::linorder \<Rightarrow> 'v \<Rightarrow> ('k, 'v) omap \<Rightarrow> ('k, 'v) omap" where
  "om_assign k v [] = [(k, v)]"
| "om_assign k v ((k', v') # m) =
     (if k = k' then (k, v) # m
      else if k' < k then (k', v') # om_assign k v m
      else (k, v) # (k', v') # m)"

definition om_erase :: "'k \<Rightarrow> ('k, 'v) omap \<Rightarrow> ('k, 'v) omap" where
  "om_erase k m = filter (\<lambda>e. fst e \<noteq> k) m"

definition om_find :: "('k, 'v) omap \<Rightarrow> 'k \<Rightarrow> 'v option" where
  "om_find m k = map_of m k"

definition om_index :: "'v \<Rightarrow> ('k, 'v) omap \<Rightarrow> 'k \<Rightarrow> 'v" where
  "om_index d m k = (case om_find m k of None \<Rightarrow> d | Some v \<Rightarrow> v)"

definition om_keys :: "('k, 'v) omap \<Rightarrow> 'k set" where
  "om_keys m = fst ` set m"

definition om_ok :: "('k::linorder, 'v) omap \<Rightarrow> bool" where
  "om_ok m \<longleftrightarrow> sorted_wrt (<) (map fst m)"

section \<open>Strings and whitespace-delimited words\<close>

text \<open>
  \<open>std::string(v.begin(), v.end())\<close> on a vector of bytes and the reverse \<open>assign\<close>: both
  keep every byte.
\<close>

definition string_of_bytes :: "byte list \<Rightarrow> string" where
  "string_of_bytes bs = map (\<lambda>b. char_of (unat b)) bs"

definition bytes_of_string :: "string \<Rightarrow> byte list" where
  "bytes_of_string s = map (\<lambda>c. of_nat (of_char c)) s"

text \<open>\<open>isspace\<close> of the classic locale, which \<open>operator>>\<close> uses to skip and to stop.\<close>

definition is_space :: "char \<Rightarrow> bool" where
  "is_space c \<longleftrightarrow> of_char c \<in> {9, 10, 11, 12, 13, 32::nat}"

text \<open>
  \<open>ss >> word\<close> on a freshly declared \<open>word\<close>: leading whitespace is skipped and characters
  are taken up to the next whitespace. At end of input nothing is extracted and the
  (empty) string stays as it was, which is the same value. The stream is the text that is
  left.
\<close>

definition extract_word :: "string \<Rightarrow> string \<times> string" where
  "extract_word s =
     (let t = dropWhile is_space s
      in (takeWhile (\<lambda>c. \<not> is_space c) t, dropWhile (\<lambda>c. \<not> is_space c) t))"

text \<open>A word that \<open>operator>>\<close> reads back whole: not empty and free of whitespace.\<close>

definition is_word :: "string \<Rightarrow> bool" where
  "is_word w \<longleftrightarrow> w \<noteq> [] \<and> list_all (\<lambda>c. \<not> is_space c) w"

section \<open>Selecting the best of several candidates\<close>

text \<open>
  Both the view change and recovery walk through candidates and keep the best so far, by a
  first number and, where that ties, by a second.
\<close>

definition lex_less :: "'a::linorder \<times> 'b::linorder \<Rightarrow> 'a \<times> 'b \<Rightarrow> bool" where
  "lex_less p q \<longleftrightarrow> fst p < fst q \<or> (fst p = fst q \<and> snd p < snd q)"

definition lex_le :: "'a::linorder \<times> 'b::linorder \<Rightarrow> 'a \<times> 'b \<Rightarrow> bool" where
  "lex_le p q \<longleftrightarrow> fst p < fst q \<or> (fst p = fst q \<and> snd p \<le> snd q)"

section \<open>Lemmas on memory images\<close>

lemma length_le_bytes [simp]: "length (le_bytes n k) = n"
  by (induction n arbitrary: k) simp_all

lemma le_val_le_bytes: "le_val (le_bytes n k) = k mod 256 ^ n"
proof (induction n arbitrary: k)
  case 0
  then show ?case by simp
next
  case (Suc n)
  have "unat (of_nat (k mod 256) :: byte) = k mod 256"
    by (simp add: unat_of_nat)
  then show ?case
    using Suc by (simp add: mod_mult2_eq)
qed

lemma unat_less_power: "unat (w :: 'a::len word) < 2 ^ LENGTH('a)"
  by (rule unsigned_less)

lemma unat_of_nat_small: "n < 2 ^ LENGTH('a) \<Longrightarrow> unat (of_nat n :: 'a::len word) = n"
  by (simp add: unat_of_nat)

lemma of_nat_eq_small:
  "i < 2 ^ LENGTH('a) \<Longrightarrow> j < 2 ^ LENGTH('a) \<Longrightarrow> (of_nat i :: 'a::len word) = of_nat j \<longleftrightarrow> i = j"
  by (metis unat_of_nat_small)

lemma unat_Suc_less: "(x :: 'a::len word) < y \<Longrightarrow> unat (x + 1) = Suc (unat x)"
proof -
  assume "x < y"
  then have "Suc (unat x) < 2 ^ LENGTH('a)"
    by (metis Suc_leI le_less_trans unat_less_power word_less_nat_alt)
  then show ?thesis
    by (simp add: unat_word_ariths)
qed

lemma unat_byte_less: "unat (b :: byte) < 256"
  using unat_less_power [of b] by simp

lemma le_bytes_le_val: "le_bytes (length bs) (le_val bs) = bs"
  by (induction bs) (simp_all add: unat_byte_less)

lemma le_val_less: "le_val bs < 256 ^ length bs"
proof (induction bs)
  case Nil
  then show ?case by simp
next
  case (Cons b bs)
  then show ?case using unat_byte_less [of b] by simp
qed

lemma length_enc_word [simp]:
  "length (enc_word (w :: 'a::len word)) = LENGTH('a) div 8"
  by (simp add: enc_word_def)

lemma dec_enc_word:
  fixes w :: "'a::len word"
  assumes "LENGTH('a) = 8 * n"
  shows "dec_word (enc_word w) = w"
proof -
  have "(256 :: nat) ^ n = 2 ^ LENGTH('a)"
    using power_mult [of "2::nat" 8 n] by (simp add: assms)
  then have "le_val (enc_word w) = unat w"
    using unat_less_power [of w] by (simp add: enc_word_def le_val_le_bytes assms)
  then show ?thesis
    by (simp add: dec_word_def)
qed

lemma enc_dec_word:
  assumes "LENGTH('a::len) = 8 * n" and "length bs = n"
  shows "enc_word (dec_word bs :: 'a word) = bs"
proof -
  have "(256 :: nat) ^ n = 2 ^ LENGTH('a)"
    using power_mult [of "2::nat" 8 n] by (simp add: assms(1))
  then have "unat (dec_word bs :: 'a word) = le_val bs"
    using le_val_less [of bs] by (simp add: dec_word_def unat_of_nat assms(2))
  then show ?thesis
    using le_bytes_le_val [of bs] by (simp add: enc_word_def assms)
qed

section \<open>The contract of a plain-old-data type\<close>

text \<open>
  What \<open>write_pod\<close> and \<open>read_pod\<close> rely on for a type \<open>T\<close>: every value has an image of
  \<open>sizeof(T)\<close> bytes and, for the values the code stores (\<open>ok\<close>), copying the image back
  gives the value. \<open>pod_image\<close> adds that every byte string of that size is the image of a
  value, which is so for a packed struct of integers.
\<close>

locale pod_codec =
  fixes enc :: "'a \<Rightarrow> byte list"
    and dec :: "byte list \<Rightarrow> 'a"
    and width :: nat
    and ok :: "'a \<Rightarrow> bool"
  assumes enc_length: "length (enc x) = width"
    and dec_enc: "ok x \<Longrightarrow> dec (enc x) = x"
begin

lemma read_written: "ok x \<Longrightarrow> read_pod width dec (enc x @ rest) = Some (x, rest)"
  by (simp add: read_pod_def enc_length dec_enc)

lemma enc_inject: "ok x \<Longrightarrow> ok y \<Longrightarrow> enc x @ r = enc y @ r' \<Longrightarrow> x = y \<and> r = r'"
  by (metis option.inject prod.inject read_written)

end

locale pod_image = pod_codec +
  assumes enc_dec: "length bs = width \<Longrightarrow> enc (dec bs) = bs"
    and ok_dec: "ok (dec bs)"
begin

lemma read_inverse:
  "read_pod width dec bs = Some (x, rest) \<Longrightarrow> bs = enc x @ rest \<and> ok x"
  by (auto simp: read_pod_def enc_dec ok_dec split: if_splits)

end

interpretation pod_u8: pod_image "enc_word :: byte \<Rightarrow> _" dec_word 1 "\<lambda>_. True"
  by unfold_locales (simp_all add: dec_enc_word [of 1] enc_dec_word [of 1])

interpretation pod_u32: pod_image "enc_word :: u32 \<Rightarrow> _" dec_word 4 "\<lambda>_. True"
  by unfold_locales (simp_all add: dec_enc_word [of 4] enc_dec_word [of 4])

interpretation pod_u64: pod_image "enc_word :: u64 \<Rightarrow> _" dec_word 8 "\<lambda>_. True"
  by unfold_locales (simp_all add: dec_enc_word [of 8] enc_dec_word [of 8])

lemmas pod_word_simps [codec_simps] =
  pod_u8.dec_enc pod_u32.dec_enc pod_u64.dec_enc
  pod_u8.read_written [simplified] pod_u32.read_written [simplified] pod_u64.read_written [simplified]

section \<open>Lemmas on ordered maps\<close>

lemma om_find_Nil [simp, omap_simps]: "om_find [] = Map.empty"
  by (simp add: om_find_def fun_eq_iff)

lemma om_find_assign [simp, omap_simps]: "om_find (om_assign k v m) = (om_find m)(k \<mapsto> v)"
  by (induction k v m rule: om_assign.induct) (auto simp: om_find_def fun_eq_iff)

lemma om_find_erase [simp, omap_simps]: "om_find (om_erase k m) = (om_find m)(k := None)"
  by (induction m) (auto simp: om_find_def om_erase_def fun_eq_iff)

lemma om_keys_dom: "om_keys m = dom (om_find m)"
  using dom_map_of_conv_image_fst [of m] by (simp add: om_keys_def om_find_def fun_eq_iff dom_def)

lemma om_keys_assign [simp, omap_simps]: "om_keys (om_assign k v m) = insert k (om_keys m)"
  by (simp add: om_keys_dom)

lemma om_keys_erase [simp, omap_simps]: "om_keys (om_erase k m) = om_keys m - {k}"
  by (simp add: om_keys_dom)

lemma om_ok_Nil [simp, omap_simps]: "om_ok []"
  by (simp add: om_ok_def)

lemma om_ok_Cons: "om_ok ((k, v) # m) \<longleftrightarrow> (\<forall>k' \<in> om_keys m. k < k') \<and> om_ok m"
  by (simp add: om_ok_def om_keys_def)

lemma om_ok_assign [simp, omap_simps]: "om_ok m \<Longrightarrow> om_ok (om_assign k v m)"
  by (induction k v m rule: om_assign.induct) (auto simp: om_ok_Cons, auto simp: om_keys_def)

lemma om_ok_erase [simp, omap_simps]: "om_ok m \<Longrightarrow> om_ok (om_erase k m)"
  by (simp add: om_ok_def om_erase_def sorted_wrt_map sorted_wrt_filter)

lemma om_assign_last: "\<forall>k' \<in> om_keys m. k' < k \<Longrightarrow> om_assign k v m = m @ [(k, v)]"
  by (induction k v m rule: om_assign.induct) (auto simp: om_keys_def)

lemma om_find_mem: "om_ok m \<Longrightarrow> (k, v) \<in> set m \<longleftrightarrow> om_find m k = Some v"
  by (simp add: om_find_def om_ok_def strict_sorted_iff)

lemma om_find_in: "om_find m k = Some v \<Longrightarrow> (k, v) \<in> set m"
  by (simp add: om_find_def map_of_SomeD)

lemma om_set_assign: "set (om_assign k v m) \<subseteq> insert (k, v) (set m)"
  by (induction k v m rule: om_assign.induct) auto

text \<open>A sorted map is determined by its lookups, so map equality is extensional.\<close>

lemma om_ok_rebuild: "om_ok m \<Longrightarrow> map (\<lambda>k. (k, the (om_find m k))) (map fst m) = m"
  by (simp add: map_idI om_find_mem [symmetric] split: prod.splits)
    (metis (no_types, lifting) map_idI o_apply om_find_mem option.sel prod.collapse)

lemma om_ext:
  assumes "om_ok m" and "om_ok m'" and "om_find m = om_find m'"
  shows "m = m'"
proof -
  have "set (map fst m) = set (map fst m')"
    using assms(3) om_keys_dom [of m] om_keys_dom [of m'] by (simp add: om_keys_def)
  then have "map fst m = map fst m'"
    using strict_sorted_equal [of "map fst m'" "map fst m"] assms(1,2) by (simp add: om_ok_def)
  then show ?thesis
    using om_ok_rebuild [OF assms(1)] om_ok_rebuild [OF assms(2)] assms(3) by simp
qed

lemma om_assign_same: "om_ok m \<Longrightarrow> om_find m k = Some v \<Longrightarrow> om_assign k v m = m"
  by (rule om_ext) (simp_all add: fun_upd_idem)

text \<open>
  The contract of \<open>std::map\<close> that the components rely on, and its consequence for the loops
  that load a map one element at a time.
\<close>

locale std_map =
  fixes empty :: 'm
    and find :: "'m \<Rightarrow> 'k \<Rightarrow> 'v option"
    and assign :: "'k \<Rightarrow> 'v \<Rightarrow> 'm \<Rightarrow> 'm"
    and erase :: "'k \<Rightarrow> 'm \<Rightarrow> 'm"
    and elems :: "'m \<Rightarrow> ('k \<times> 'v) list"
    and invar :: "'m \<Rightarrow> bool"
  assumes find_empty: "find empty = Map.empty"
    and find_assign: "invar m \<Longrightarrow> find (assign k v m) = (find m)(k \<mapsto> v)"
    and find_erase: "invar m \<Longrightarrow> find (erase k m) = (find m)(k := None)"
    and invar_empty: "invar empty"
    and invar_assign: "invar m \<Longrightarrow> invar (assign k v m)"
    and invar_erase: "invar m \<Longrightarrow> invar (erase k m)"
    and elems_find: "invar m \<Longrightarrow> map_of (elems m) = find m"
    and elems_distinct: "invar m \<Longrightarrow> distinct (map fst (elems m))"
    and find_ext: "invar m \<Longrightarrow> invar m' \<Longrightarrow> find m = find m' \<Longrightarrow> m = m'"
begin

lemma load_invar: "invar m \<Longrightarrow> invar (fold (\<lambda>(k, v). assign k v) kvs m)"
  by (induction kvs arbitrary: m) (auto simp: invar_assign)

lemma load_find:
  "invar m \<Longrightarrow> find (fold (\<lambda>(k, v). assign k v) kvs m) = find m ++ map_of (rev kvs)"
  by (induction kvs arbitrary: m) (auto simp: invar_assign find_assign map_add_def fun_eq_iff
      split: option.splits)

lemma reload: "invar m \<Longrightarrow> fold (\<lambda>(k, v). assign k v) (elems m) empty = m"
proof -
  assume m: "invar m"
  have "map_of (rev (elems m)) = map_of (elems m)"
    using elems_distinct [OF m] by (intro map_of_inject_set [THEN iffD2]) (simp_all add: rev_map [symmetric])
  then have "find (fold (\<lambda>(k, v). assign k v) (elems m) empty) = find m"
    using m by (simp add: load_find invar_empty find_empty elems_find)
  then show ?thesis
    using m by (intro find_ext load_invar invar_empty)
qed

end

interpretation om: std_map "[]" om_find om_assign om_erase "\<lambda>m. m" om_ok
proof unfold_locales
  fix m :: "('a, 'b) omap"
  assume "om_ok m"
  then show "map_of m = om_find m" and "distinct (map fst m)"
    by (simp_all add: om_find_def fun_eq_iff om_ok_def strict_sorted_iff)
qed (auto intro: om_ext)

section \<open>The contract of a selection loop\<close>

lemma lex_le_refl [simp]: "lex_le p p"
  by (simp add: lex_le_def)

lemma lex_le_trans: "lex_le p q \<Longrightarrow> lex_le q r \<Longrightarrow> lex_le p r"
  by (auto simp: lex_le_def)

lemma not_lex_less [simp]: "\<not> lex_less p q \<longleftrightarrow> lex_le q p"
  by (auto simp: lex_le_def lex_less_def)

lemma lex_less_imp_le: "lex_less p q \<Longrightarrow> lex_le p q"
  by (auto simp: lex_le_def lex_less_def)

locale selector =
  fixes key :: "'m \<Rightarrow> 'a::linorder \<times> 'b::linorder"
    and pick :: "'m \<Rightarrow> 'm \<Rightarrow> 'm"
  assumes pick_eq: "pick m best = (if lex_less (key best) (key m) then m else best)"
begin

lemma fold_pick_mem: "fold pick ms m \<in> set (m # ms)"
  by (induction ms arbitrary: m) (auto simp: pick_eq split: if_splits)

lemma fold_pick_ge: "lex_le (key m) (key (fold pick ms m))"
proof (induction ms arbitrary: m)
  case (Cons x ms)
  have "lex_le (key m) (key (pick x m))"
    by (simp add: pick_eq lex_less_imp_le)
  then show ?case
    using Cons [of "pick x m"] by (auto intro: lex_le_trans)
qed simp

lemma fold_pick_best: "m' \<in> set (m # ms) \<Longrightarrow> lex_le (key m') (key (fold pick ms m))"
proof (induction ms arbitrary: m)
  case (Cons x ms)
  have "lex_le (key x) (key (pick x m))"
    by (simp add: pick_eq)
  moreover have "lex_le (key m) (key (pick x m))"
    by (simp add: pick_eq lex_less_imp_le)
  ultimately show ?case
    using Cons fold_pick_ge [of "pick x m" ms] by (auto intro: lex_le_trans)
qed simp

end

section \<open>Lemmas on strings\<close>

lemma string_of_bytes_of_string [simp]: "string_of_bytes (bytes_of_string s) = s"
proof -
  have "char_of (unat (of_nat (of_char c) :: byte)) = c" for c
    by (simp add: unat_of_nat)
  then show ?thesis
    by (simp add: string_of_bytes_def bytes_of_string_def map_idI)
qed

lemma bytes_of_string_of_bytes [simp]: "bytes_of_string (string_of_bytes bs) = bs"
  by (simp add: string_of_bytes_def bytes_of_string_def map_idI unat_byte_less)

lemma length_bytes_of_string [simp]: "length (bytes_of_string s) = length s"
  by (simp add: bytes_of_string_def)

lemma is_space_blank [simp]: "is_space CHR '' ''"
  by (simp add: is_space_def)

lemma extract_word_first:
  assumes "is_word w" and "rest = [] \<or> is_space (hd rest)"
  shows "extract_word (w @ rest) = (w, rest)"
proof -
  have drop: "dropWhile is_space (w @ rest) = w @ rest"
    using assms(1) by (cases w) (auto simp: is_word_def)
  have all: "\<forall>c \<in> set w. \<not> is_space c"
    using assms(1) by (simp add: is_word_def list_all_iff)
  have "takeWhile (\<lambda>c. \<not> is_space c) rest = []" "dropWhile (\<lambda>c. \<not> is_space c) rest = rest"
    using assms(2) by (cases rest; simp)+
  then show ?thesis
    using drop all by (simp add: extract_word_def takeWhile_append dropWhile_append)
qed

lemma extract_word_blank: "is_space c \<Longrightarrow> extract_word (c # s) = extract_word s"
  by (simp add: extract_word_def)

end
