(* ===== verification/Utilities.thy ===== *)
theory Utilities
  imports Vsr_Prelude
begin

text \<open>
  \<open>src/common/utilities\<close> and \<open>src/common/checksum\<close>: the 128-bit identifier with its
  comparison operators, the recovery nonce, and the 128-bit checksum cut from a BLAKE3 digest.
  BLAKE3 is third-party code; it is the argument \<open>blake3\<close> of every definition that hashes.
\<close>

unbundle bit_operations_syntax

section \<open>128-bit identifiers\<close>

datatype uint128_t = UInt128 (u_high: u64) (u_low: u64)

text \<open>The order is the one \<open>operator<\<close> computes: first the high half, then the low half.\<close>

instantiation uint128_t :: linorder
begin

definition less_uint128_t :: "uint128_t \<Rightarrow> uint128_t \<Rightarrow> bool" where
  "less_uint128_t a b \<longleftrightarrow>
     (if u_high a < u_high b then True
      else if u_high a > u_high b then False
      else u_low a < u_low b)"

definition less_eq_uint128_t :: "uint128_t \<Rightarrow> uint128_t \<Rightarrow> bool" where
  "less_eq_uint128_t a b \<longleftrightarrow> a < b \<or> a = b"

instance
  by standard
    (auto simp: less_uint128_t_def less_eq_uint128_t_def split: if_splits,
      metis linorder_less_linear uint128_t.expand)

end

definition uint128_zero :: uint128_t where
  "uint128_zero = UInt128 0 0"

text \<open>The memory image of the struct: the high word comes first.\<close>

definition enc_uint128 :: "uint128_t \<Rightarrow> byte list" where
  "enc_uint128 u = enc_word (u_high u) @ enc_word (u_low u)"

definition dec_uint128 :: "byte list \<Rightarrow> uint128_t" where
  "dec_uint128 bs = UInt128 (dec_word (take 8 bs)) (dec_word (take 8 (drop 8 bs)))"

interpretation pod_uint128: pod_image enc_uint128 dec_uint128 16 "\<lambda>_. True"
proof unfold_locales
  fix bs :: "byte list"
  assume "length bs = 16"
  then show "enc_uint128 (dec_uint128 bs) = bs"
    by (simp add: enc_uint128_def dec_uint128_def pod_u64.enc_dec)
qed (simp_all add: enc_uint128_def dec_uint128_def pod_u64.dec_enc)

lemmas pod_uint128_simps [codec_simps] =
  pod_uint128.enc_length pod_uint128.dec_enc pod_uint128.read_written [simplified]

section \<open>Recovery nonces\<close>

text \<open>
  The clock reading (seconds and nanoseconds of \<open>CLOCK_MONOTONIC_RAW\<close>) and the value of the
  process-wide atomic counter are arguments; the result carries the incremented counter.
\<close>

definition generate_nonce :: "int \<Rightarrow> int \<Rightarrow> u32 \<Rightarrow> int \<Rightarrow> uint128_t \<times> u32" where
  "generate_nonce tv_sec tv_nsec counter replica_id =
     (let high = word_of_int tv_sec * 1000000000 + word_of_int tv_nsec;
          low = push_bit 32 (word_of_int replica_id) OR ucast counter
      in (UInt128 high low, counter + 1))"

section \<open>Checksums\<close>

definition calculate_checksum_128 :: "(byte list \<Rightarrow> byte list) \<Rightarrow> byte list \<Rightarrow> uint128_t" where
  "calculate_checksum_128 blake3 data = dec_uint128 (take 16 (blake3 data))"

section \<open>The parts of a nonce\<close>

lemma nonce_low_counter:
  "ucast (push_bit 32 x OR ucast c :: u64) = (c :: u32)"
  by (rule bit_word_eqI) (auto simp: bit_simps)

lemma nonce_low_id:
  "drop_bit 32 (push_bit 32 x OR ucast (c :: u32) :: u64) = take_bit 32 x"
proof (rule bit_word_eqI)
  fix n
  assume "n < LENGTH(64)"
  have "\<not> bit c (n + 32)"
    using bit_imp_le_length [of c "n + 32"] by auto
  then show "bit (drop_bit 32 (push_bit 32 x OR ucast c :: u64)) n = bit (take_bit 32 x) n"
    by (auto simp: bit_simps dest: bit_imp_le_length)
qed

text \<open>
  Recovery nonces do not collide. Two nonces made by different replicas (ids that fit 31 bits),
  or by one replica at different values of its counter, are different, whatever the clocks say;
  and each call moves the counter on by one.
\<close>
theorem nonces_distinct:
  assumes "0 \<le> i" "i < 2 ^ 31" "0 \<le> j" "j < 2 ^ 31" and "i \<noteq> j \<or> c \<noteq> d"
  shows "fst (generate_nonce sec nsec c i) \<noteq> fst (generate_nonce sec' nsec' d j) \<and>
     snd (generate_nonce sec nsec c i) = c + 1"
proof -
  have "i = j \<and> c = d" if eq: "push_bit 32 (word_of_int i) OR ucast c = (push_bit 32 (word_of_int j) OR ucast d :: u64)"
  proof
    from arg_cong [OF eq, of "ucast :: u64 \<Rightarrow> u32"] show "c = d"
      by (simp add: nonce_low_counter)
    from arg_cong [OF eq, of "drop_bit 32"] have "take_bit 32 (word_of_int i :: u64) = take_bit 32 (word_of_int j)"
      by (simp only: nonce_low_id)
    then have "uint (take_bit 32 (word_of_int i :: u64)) = uint (take_bit 32 (word_of_int j :: u64))"
      by simp
    moreover have "uint (take_bit 32 (word_of_int k :: u64)) = k" if "0 \<le> k" "k < 2 ^ 31" for k
    proof -
      have "uint (take_bit 32 (word_of_int k :: u64)) = take_bit 32 (take_bit 64 k)"
        by (simp add: unsigned_take_bit_eq uint_word_of_int_eq)
      also have "\<dots> = k"
        using that by (simp add: take_bit_int_eq_self)
      finally show ?thesis .
    qed
    ultimately show "i = j"
      using assms(1-4) by metis
  qed
  with assms(5) show ?thesis
    by (auto simp: generate_nonce_def Let_def)
qed

theorem nonces_distinct_witness:
  "fst (generate_nonce 1 2 0 1) \<noteq> fst (generate_nonce 1 2 0 2)"
  using nonces_distinct [of 1 2 0 0 1 2 1 2] by simp

end
