(* ===== verification/Vsr_Message.thy ===== *)
theory Vsr_Message
  imports Utilities
begin

text \<open>
  \<open>src/common/vsr_message\<close>: the enums, the packed 128-byte header with its memory layout, the
  message with its two checksums, \<open>serialize\<close> and \<open>deserialize\<close>.
\<close>

section \<open>Enumerations\<close>

text \<open>
  Both enums have \<open>byte\<close> as underlying type and are filled by \<open>memcpy\<close> from the network, so a
  variable may hold a value that is none of the enumerators; \<open>command_invalid\<close> and
  \<open>operation_invalid\<close> carry those.
\<close>

datatype command =
    command_reserved
  | command_ping
  | command_pong
  | command_request
  | command_prepare
  | command_prepare_ok
  | command_reply
  | command_commit
  | command_start_view_change
  | command_do_view_change
  | command_start_view
  | command_recovery
  | command_recovery_response
  | command_invalid byte

datatype operation =
    operation_reserved
  | operation_set
  | operation_update
  | operation_get
  | operation_invalid byte

fun byte_of_command :: "command \<Rightarrow> byte" where
  "byte_of_command command_reserved = 0"
| "byte_of_command command_ping = 1"
| "byte_of_command command_pong = 2"
| "byte_of_command command_request = 3"
| "byte_of_command command_prepare = 4"
| "byte_of_command command_prepare_ok = 5"
| "byte_of_command command_reply = 6"
| "byte_of_command command_commit = 7"
| "byte_of_command command_start_view_change = 8"
| "byte_of_command command_do_view_change = 9"
| "byte_of_command command_start_view = 10"
| "byte_of_command command_recovery = 11"
| "byte_of_command command_recovery_response = 12"
| "byte_of_command (command_invalid b) = b"

definition command_of_byte :: "byte \<Rightarrow> command" where
  "command_of_byte b =
     (if b = 0 then command_reserved
      else if b = 1 then command_ping
      else if b = 2 then command_pong
      else if b = 3 then command_request
      else if b = 4 then command_prepare
      else if b = 5 then command_prepare_ok
      else if b = 6 then command_reply
      else if b = 7 then command_commit
      else if b = 8 then command_start_view_change
      else if b = 9 then command_do_view_change
      else if b = 10 then command_start_view
      else if b = 11 then command_recovery
      else if b = 12 then command_recovery_response
      else command_invalid b)"

fun byte_of_operation :: "operation \<Rightarrow> byte" where
  "byte_of_operation operation_reserved = 0"
| "byte_of_operation operation_set = 1"
| "byte_of_operation operation_update = 2"
| "byte_of_operation operation_get = 3"
| "byte_of_operation (operation_invalid b) = b"

definition operation_of_byte :: "byte \<Rightarrow> operation" where
  "operation_of_byte b =
     (if b = 0 then operation_reserved
      else if b = 1 then operation_set
      else if b = 2 then operation_update
      else if b = 3 then operation_get
      else operation_invalid b)"

text \<open>The invalid constructors stand for bytes beyond the last enumerator.\<close>

fun wf_command :: "command \<Rightarrow> bool" where
  "wf_command (command_invalid b) \<longleftrightarrow> b > 12"
| "wf_command _ \<longleftrightarrow> True"

fun wf_operation :: "operation \<Rightarrow> bool" where
  "wf_operation (operation_invalid b) \<longleftrightarrow> b > 3"
| "wf_operation _ \<longleftrightarrow> True"

definition enc_command :: "command \<Rightarrow> byte list" where
  "enc_command c = enc_word (byte_of_command c)"

definition dec_command :: "byte list \<Rightarrow> command" where
  "dec_command bs = command_of_byte (dec_word bs)"

definition enc_operation :: "operation \<Rightarrow> byte list" where
  "enc_operation c = enc_word (byte_of_operation c)"

definition dec_operation :: "byte list \<Rightarrow> operation" where
  "dec_operation bs = operation_of_byte (dec_word bs)"

section \<open>The header\<close>

record vsr_header =
  h_checksum :: uint128_t
  h_checksum_body :: uint128_t
  h_parent :: uint128_t
  h_client :: uint128_t
  h_context :: uint128_t
  h_size :: u32
  h_request :: u32
  h_cluster :: u32
  h_epoch :: u32
  h_view :: u32
  h_op :: u64
  h_commit :: u64
  h_offset :: u64
  h_replica :: byte
  h_command :: command
  h_operation :: operation
  h_version :: byte

definition sizeof_vsr_header :: nat where
  "sizeof_vsr_header = 128"

definition zero_header :: vsr_header where
  "zero_header =
     \<lparr>h_checksum = uint128_zero, h_checksum_body = uint128_zero, h_parent = uint128_zero,
      h_client = uint128_zero, h_context = uint128_zero, h_size = 0, h_request = 0,
      h_cluster = 0, h_epoch = 0, h_view = 0, h_op = 0, h_commit = 0, h_offset = 0,
      h_replica = 0, h_command = command_reserved, h_operation = operation_reserved,
      h_version = 0\<rparr>"

text \<open>The struct is packed, so the image is the images of the fields one after the other.\<close>

definition enc_header :: "vsr_header \<Rightarrow> byte list" where
  "enc_header h =
     enc_uint128 (h_checksum h) @ enc_uint128 (h_checksum_body h) @ enc_uint128 (h_parent h) @
     enc_uint128 (h_client h) @ enc_uint128 (h_context h) @
     enc_word (h_size h) @ enc_word (h_request h) @ enc_word (h_cluster h) @
     enc_word (h_epoch h) @ enc_word (h_view h) @
     enc_word (h_op h) @ enc_word (h_commit h) @ enc_word (h_offset h) @
     enc_word (h_replica h) @ enc_command (h_command h) @ enc_operation (h_operation h) @
     enc_word (h_version h)"

definition field :: "nat \<Rightarrow> nat \<Rightarrow> byte list \<Rightarrow> byte list" where
  "field off n bs = take n (drop off bs)"

definition dec_header :: "byte list \<Rightarrow> vsr_header" where
  "dec_header bs =
     \<lparr>h_checksum = dec_uint128 (field 0 16 bs),
      h_checksum_body = dec_uint128 (field 16 16 bs),
      h_parent = dec_uint128 (field 32 16 bs),
      h_client = dec_uint128 (field 48 16 bs),
      h_context = dec_uint128 (field 64 16 bs),
      h_size = dec_word (field 80 4 bs),
      h_request = dec_word (field 84 4 bs),
      h_cluster = dec_word (field 88 4 bs),
      h_epoch = dec_word (field 92 4 bs),
      h_view = dec_word (field 96 4 bs),
      h_op = dec_word (field 100 8 bs),
      h_commit = dec_word (field 108 8 bs),
      h_offset = dec_word (field 116 8 bs),
      h_replica = dec_word (field 124 1 bs),
      h_command = dec_command (field 125 1 bs),
      h_operation = dec_operation (field 126 1 bs),
      h_version = dec_word (field 127 1 bs)\<rparr>"

definition wf_header :: "vsr_header \<Rightarrow> bool" where
  "wf_header h \<longleftrightarrow> wf_command (h_command h) \<and> wf_operation (h_operation h)"

section \<open>The message\<close>

record vsr_message =
  msg_header :: vsr_header
  msg_payload :: "byte list"

definition new_message :: vsr_message where
  "new_message = \<lparr>msg_header = zero_header, msg_payload = []\<rparr>"

definition wf_message :: "vsr_message \<Rightarrow> bool" where
  "wf_message m \<longleftrightarrow> wf_header (msg_header m)"

definition calculate_and_set_body_checksum ::
    "(byte list \<Rightarrow> byte list) \<Rightarrow> vsr_message \<Rightarrow> vsr_message" where
  "calculate_and_set_body_checksum blake3 m =
     (if msg_payload m = []
      then m\<lparr>msg_header := (msg_header m)\<lparr>h_checksum_body := uint128_zero\<rparr>\<rparr>
      else m\<lparr>msg_header := (msg_header m)\<lparr>h_checksum_body :=
               calculate_checksum_128 blake3 (msg_payload m)\<rparr>\<rparr>)"

definition calculate_and_set_header_checksum ::
    "(byte list \<Rightarrow> byte list) \<Rightarrow> vsr_message \<Rightarrow> vsr_message" where
  "calculate_and_set_header_checksum blake3 m =
     (let h = (msg_header m)\<lparr>h_checksum := uint128_zero\<rparr>
      in m\<lparr>msg_header := h\<lparr>h_checksum := calculate_checksum_128 blake3 (enc_header h)\<rparr>\<rparr>)"

definition verify_body_checksum :: "(byte list \<Rightarrow> byte list) \<Rightarrow> vsr_message \<Rightarrow> bool" where
  "verify_body_checksum blake3 m =
     (if msg_payload m = []
      then u_high (h_checksum_body (msg_header m)) = 0 \<and> u_low (h_checksum_body (msg_header m)) = 0
      else calculate_checksum_128 blake3 (msg_payload m) = h_checksum_body (msg_header m))"

definition verify_header_checksum :: "(byte list \<Rightarrow> byte list) \<Rightarrow> vsr_message \<Rightarrow> bool" where
  "verify_header_checksum blake3 m =
     (let header_copy = (msg_header m)\<lparr>h_checksum := uint128_zero\<rparr>
      in calculate_checksum_128 blake3 (enc_header header_copy) = h_checksum (msg_header m))"

text \<open>
  The copy that \<open>serialize\<close> prepares: body checksum, then size (truncated to 32 bits), then
  header checksum.
\<close>

definition prepared_message :: "(byte list \<Rightarrow> byte list) \<Rightarrow> vsr_message \<Rightarrow> vsr_message" where
  "prepared_message blake3 m =
     (let m1 = calculate_and_set_body_checksum blake3 m;
          m2 = m1\<lparr>msg_header := (msg_header m1)\<lparr>h_size :=
                 of_nat (sizeof_vsr_header + length (msg_payload m1))\<rparr>\<rparr>
      in calculate_and_set_header_checksum blake3 m2)"

text \<open>
  The buffer has \<open>header.size\<close> bytes. Where the 32-bit size has wrapped, the two \<open>memcpy\<close>s run
  past its end, which is undefined behaviour: \<open>None\<close>.
\<close>

definition serialize :: "(byte list \<Rightarrow> byte list) \<Rightarrow> vsr_message \<Rightarrow> byte list option" where
  "serialize blake3 m =
     (let p = prepared_message blake3 m
      in if unat (h_size (msg_header p)) < sizeof_vsr_header + length (msg_payload p) then None
         else Some (enc_header (msg_header p) @ msg_payload p))"

text \<open>
  \<open>deserialize\<close> returns its verdict and the message object it has filled, which keeps what was
  copied before a failing check.
\<close>

definition deserialize ::
    "(byte list \<Rightarrow> byte list) \<Rightarrow> byte list \<Rightarrow> vsr_message \<Rightarrow> bool \<times> vsr_message" where
  "deserialize blake3 data msg =
     (if length data < sizeof_vsr_header then (False, msg)
      else
        let m1 = msg\<lparr>msg_header := dec_header (take sizeof_vsr_header data)\<rparr>
        in if unat (h_size (msg_header m1)) \<noteq> length data then (False, m1)
           else
             let payload_size = unat (h_size (msg_header m1)) - sizeof_vsr_header;
                 m2 = (if payload_size > 0 then m1\<lparr>msg_payload := drop sizeof_vsr_header data\<rparr>
                       else m1)
             in if \<not> verify_header_checksum blake3 m2 then (False, m2)
                else if \<not> verify_body_checksum blake3 m2 then (False, m2)
                else (True, m2))"

section \<open>Codec laws of the enums and the header\<close>

lemma command_of_byte_of_command: "wf_command c \<Longrightarrow> command_of_byte (byte_of_command c) = c"
proof (cases c)
  case (command_invalid b)
  assume "wf_command c"
  with command_invalid have "b > 12" by simp
  then have "b \<notin> {0,1,2,3,4,5,6,7,8,9,10,11,12}" by auto
  with command_invalid show ?thesis by (simp add: command_of_byte_def)
qed (simp_all add: command_of_byte_def)

lemma byte_of_command_of_byte: "byte_of_command (command_of_byte b) = b"
  by (simp add: command_of_byte_def)

lemma wf_command_of_byte: "wf_command (command_of_byte b)"
  by (simp add: command_of_byte_def) (simp add: word_unat_eq_iff word_less_nat_alt, arith)

lemma operation_of_byte_of_operation:
  "wf_operation c \<Longrightarrow> operation_of_byte (byte_of_operation c) = c"
proof (cases c)
  case (operation_invalid b)
  assume "wf_operation c"
  with operation_invalid have "b > 3" by simp
  then have "b \<notin> {0,1,2,3}" by auto
  with operation_invalid show ?thesis by (simp add: operation_of_byte_def)
qed (simp_all add: operation_of_byte_def)

lemma byte_of_operation_of_byte: "byte_of_operation (operation_of_byte b) = b"
  by (simp add: operation_of_byte_def)

lemma wf_operation_of_byte: "wf_operation (operation_of_byte b)"
  by (simp add: operation_of_byte_def) (simp add: word_unat_eq_iff word_less_nat_alt)

interpretation pod_command: pod_image enc_command dec_command 1 wf_command
  by unfold_locales
    (simp_all add: enc_command_def dec_command_def pod_u8.dec_enc pod_u8.enc_dec
      command_of_byte_of_command byte_of_command_of_byte wf_command_of_byte)

interpretation pod_operation: pod_image enc_operation dec_operation 1 wf_operation
  by unfold_locales
    (simp_all add: enc_operation_def dec_operation_def pod_u8.dec_enc pod_u8.enc_dec
      operation_of_byte_of_operation byte_of_operation_of_byte wf_operation_of_byte)

lemmas pod_enum_simps [codec_simps] =
  pod_command.enc_length pod_command.dec_enc pod_operation.enc_length pod_operation.dec_enc
  pod_operation.read_written [simplified]

lemma length_field [simp]: "off + n \<le> length bs \<Longrightarrow> length (field off n bs) = n"
  by (simp add: field_def)

lemma field_0_append: "length a = n \<Longrightarrow> field 0 n (a @ b) = a"
  by (simp add: field_def)

lemma field_skip_append: "length a = k \<Longrightarrow> k \<le> off \<Longrightarrow> field off n (a @ b) = field (off - k) n b"
  by (simp add: field_def)

lemma field_0_all: "length a = n \<Longrightarrow> field 0 n a = a"
  by (simp add: field_def)

lemma field_drop: "j = i + n \<Longrightarrow> field i n bs @ drop j bs = drop i bs"
  using append_take_drop_id [of n "drop i bs"] by (simp add: field_def add.commute)

lemma field_last: "length bs = i + n \<Longrightarrow> field i n bs = drop i bs"
  by (simp add: field_def)

lemma length_enc_header [simp]: "length (enc_header h) = 128"
  by (simp add: enc_header_def codec_simps)

interpretation pod_header: pod_image enc_header dec_header 128 wf_header
proof unfold_locales
  fix h :: vsr_header
  show "length (enc_header h) = 128" by simp
  assume "wf_header h"
  then show "dec_header (enc_header h) = h"
    by (simp add: dec_header_def enc_header_def wf_header_def codec_simps
        field_0_append field_skip_append field_0_all)
next
  fix bs :: "byte list"
  show "wf_header (dec_header bs)"
    by (simp add: wf_header_def dec_header_def pod_command.ok_dec pod_operation.ok_dec)
  assume len: "length bs = 128"
  have "enc_header (dec_header bs) = field 0 16 bs @ drop 16 bs"
    using len
    by (simp add: enc_header_def dec_header_def pod_uint128.enc_dec pod_u32.enc_dec
        pod_u64.enc_dec pod_u8.enc_dec pod_command.enc_dec pod_operation.enc_dec
        field_last [of _ 127 "Suc 0"] field_drop)
  then show "enc_header (dec_header bs) = bs"
    by (simp add: field_drop)
qed

section \<open>Sealing a message\<close>

lemma sizeof_vsr_header_eq [simp]: "sizeof_vsr_header = 128"
  by (simp add: sizeof_vsr_header_def)

lemma prepared_payload [simp]: "msg_payload (prepared_message blake3 m) = msg_payload m"
  by (simp add: prepared_message_def calculate_and_set_header_checksum_def
      calculate_and_set_body_checksum_def Let_def)

lemma prepared_fields [simp]:
  "h_command (msg_header (prepared_message blake3 m)) = h_command (msg_header m)"
  "h_operation (msg_header (prepared_message blake3 m)) = h_operation (msg_header m)"
  "h_client (msg_header (prepared_message blake3 m)) = h_client (msg_header m)"
  "h_request (msg_header (prepared_message blake3 m)) = h_request (msg_header m)"
  "h_view (msg_header (prepared_message blake3 m)) = h_view (msg_header m)"
  "h_op (msg_header (prepared_message blake3 m)) = h_op (msg_header m)"
  "h_commit (msg_header (prepared_message blake3 m)) = h_commit (msg_header m)"
  "h_replica (msg_header (prepared_message blake3 m)) = h_replica (msg_header m)"
  by (simp_all add: prepared_message_def calculate_and_set_header_checksum_def
      calculate_and_set_body_checksum_def Let_def)

lemma prepared_size [simp]:
  "h_size (msg_header (prepared_message blake3 m)) = of_nat (128 + length (msg_payload m))"
  by (simp add: prepared_message_def calculate_and_set_header_checksum_def
      calculate_and_set_body_checksum_def Let_def)

text \<open>Only the three derived fields change.\<close>

lemma prepared_header:
  "\<exists>ck cb sz. msg_header (prepared_message blake3 m) =
     (msg_header m)\<lparr>h_checksum := ck, h_checksum_body := cb, h_size := sz\<rparr>"
  by (intro exI [of _ "h_checksum (msg_header (prepared_message blake3 m))"]
      exI [of _ "h_checksum_body (msg_header (prepared_message blake3 m))"]
      exI [of _ "h_size (msg_header (prepared_message blake3 m))"])
    (simp add: prepared_message_def calculate_and_set_header_checksum_def
      calculate_and_set_body_checksum_def Let_def)

lemma prepared_wf [simp]: "wf_message (prepared_message blake3 m) = wf_message m"
  using prepared_header [of blake3 m] by (auto simp: wf_message_def wf_header_def)

lemma prepared_verifies:
  "verify_header_checksum blake3 (prepared_message blake3 m)"
  "verify_body_checksum blake3 (prepared_message blake3 m)"
  by (simp_all add: verify_header_checksum_def verify_body_checksum_def prepared_message_def
      calculate_and_set_header_checksum_def calculate_and_set_body_checksum_def Let_def
      uint128_zero_def)

lemma serialize_ok:
  assumes "128 + length (msg_payload m) < 2 ^ 32"
  shows "serialize blake3 m =
     Some (enc_header (msg_header (prepared_message blake3 m)) @ msg_payload m)"
proof -
  have "unat (of_nat (128 + length (msg_payload m)) :: u32) = 128 + length (msg_payload m)"
    using assms by (intro unat_of_nat_small) simp
  then show ?thesis
    by (simp add: serialize_def Let_def)
qed

lemma deserialize_prepared:
  assumes "wf_message m" and "128 + length (msg_payload m) < 2 ^ 32"
  shows "deserialize blake3 (enc_header (msg_header (prepared_message blake3 m)) @ msg_payload m)
     new_message = (True, prepared_message blake3 m)"
proof -
  let ?p = "prepared_message blake3 m"
  have size: "unat (h_size (msg_header ?p)) = 128 + length (msg_payload m)"
    using assms(2) unat_of_nat_small [where 'a = 32, of "128 + length (msg_payload m)"] by simp
  have hdr: "dec_header (enc_header (msg_header ?p)) = msg_header ?p"
    using assms(1) prepared_wf [of blake3 m] by (simp add: pod_header.dec_enc wf_message_def)
  have whole: "\<lparr>msg_header = msg_header ?p, msg_payload = msg_payload m\<rparr> = ?p"
    by (simp add: prepared_message_def calculate_and_set_header_checksum_def
        calculate_and_set_body_checksum_def Let_def)
  have "verify_header_checksum blake3 \<lparr>msg_header = msg_header ?p, msg_payload = msg_payload m\<rparr>"
    "verify_body_checksum blake3 \<lparr>msg_header = msg_header ?p, msg_payload = msg_payload m\<rparr>"
    by (simp_all only: whole prepared_verifies)
  then show ?thesis
    using size hdr
    by (cases "msg_payload m = []") (simp_all add: deserialize_def new_message_def Let_def)
qed

lemma deserialize_accepts:
  "deserialize blake3 data new_message = (True, m) \<longleftrightarrow>
     128 \<le> length data \<and> m = \<lparr>msg_header = dec_header (take 128 data), msg_payload = drop 128 data\<rparr> \<and>
     unat (h_size (msg_header m)) = length data \<and>
     verify_header_checksum blake3 m \<and> verify_body_checksum blake3 m"
  by (auto simp: deserialize_def new_message_def Let_def not_less split: if_splits)

lemma deserialize_wf: "deserialize blake3 data new_message = (True, m) \<Longrightarrow> wf_message m"
  by (simp add: deserialize_accepts wf_message_def pod_header.ok_dec)

text \<open>A message whose checksums verify and whose size field is right is its own sealed copy.\<close>

lemma prepared_fixpoint:
  assumes "unat (h_size (msg_header m)) = 128 + length (msg_payload m)"
    and "verify_header_checksum blake3 m" and "verify_body_checksum blake3 m"
  shows "prepared_message blake3 m = m"
proof -
  have size: "of_nat (128 + length (msg_payload m)) = h_size (msg_header m)"
    using arg_cong [OF assms(1), of "of_nat :: nat \<Rightarrow> u32"] by simp
  have body: "calculate_and_set_body_checksum blake3 m = m"
    using assms(3)
    by (auto simp: calculate_and_set_body_checksum_def verify_body_checksum_def uint128_zero_def
        intro!: vsr_message.equality vsr_header.equality uint128_t.expand split: if_splits)
  have "m\<lparr>msg_header := (msg_header m)\<lparr>h_size := h_size (msg_header m)\<rparr>\<rparr> = m"
    by simp
  then show ?thesis
    using assms(2) body size
    by (simp add: prepared_message_def calculate_and_set_header_checksum_def
        verify_header_checksum_def Let_def)
qed

section \<open>Properties of the message layer\<close>

text \<open>
  C25: a well-formed message whose size fits the 32-bit size field survives the wire:
  \<open>serialize\<close> produces header and payload, and \<open>deserialize\<close> accepts those bytes and
  returns the same payload and the same header but for the three derived fields (the two
  checksums and the size). The digest function is arbitrary.
\<close>
theorem message_wire_roundtrip:
  assumes "wf_message m" and "128 + length (msg_payload m) < 2 ^ 32"
  shows "\<exists>bs p. serialize blake3 m = Some bs \<and> length bs = 128 + length (msg_payload m) \<and>
     deserialize blake3 bs new_message = (True, p) \<and> msg_payload p = msg_payload m \<and>
     (\<exists>ck cb. msg_header p = (msg_header m)\<lparr>h_checksum := ck, h_checksum_body := cb,
        h_size := of_nat (length bs)\<rparr>)"
proof -
  obtain ck cb sz where p: "msg_header (prepared_message blake3 m) =
      (msg_header m)\<lparr>h_checksum := ck, h_checksum_body := cb, h_size := sz\<rparr>"
    using prepared_header by blast
  then have "sz = of_nat (128 + length (msg_payload m))"
    using prepared_size [of blake3 m] by simp
  then have hdr: "\<exists>ck cb. msg_header (prepared_message blake3 m) =
      (msg_header m)\<lparr>h_checksum := ck, h_checksum_body := cb,
        h_size := of_nat (128 + length (msg_payload m))\<rparr>"
    using p by blast
  show ?thesis
    by (rule exI [of _ "enc_header (msg_header (prepared_message blake3 m)) @ msg_payload m"],
        rule exI [of _ "prepared_message blake3 m"])
      (use hdr in \<open>simp add: serialize_ok [OF assms(2)] deserialize_prepared [OF assms]\<close>)
qed

theorem message_wire_roundtrip_witness:
  "\<exists>bs p. serialize (\<lambda>_. replicate 32 7) (new_message\<lparr>msg_payload := [1, 2, 3]\<rparr>) = Some bs \<and>
     length bs = 131 \<and>
     deserialize (\<lambda>_. replicate 32 7) bs new_message = (True, p) \<and> msg_payload p = [1, 2, 3]"
  using message_wire_roundtrip [of "new_message\<lparr>msg_payload := [1, 2, 3]\<rparr>" "\<lambda>_. replicate 32 7"]
  by (auto simp: new_message_def zero_header_def wf_message_def wf_header_def)

text \<open>
  The wire format is canonical: any byte string that \<open>deserialize\<close> accepts is exactly what
  \<open>serialize\<close> produces for the message read from it, so no two byte strings carry the same
  message.
\<close>
theorem accepted_bytes_canonical:
  assumes "deserialize blake3 data new_message = (True, m)"
  shows "serialize blake3 m = Some data"
proof -
  from assms have len: "128 \<le> length data" and size: "unat (h_size (msg_header m)) = length data"
    and m: "msg_header m = dec_header (take 128 data)" "msg_payload m = drop 128 data"
    and ok: "verify_header_checksum blake3 m" "verify_body_checksum blake3 m"
    by (auto simp: deserialize_accepts)
  from len m size have full: "unat (h_size (msg_header m)) = 128 + length (msg_payload m)"
    by simp
  have "128 + length (msg_payload m) < 2 ^ 32"
    using unat_less_power [of "h_size (msg_header m)"] full by simp
  then have "serialize blake3 m = Some (enc_header (msg_header m) @ msg_payload m)"
    using prepared_fixpoint [OF full ok] by (simp add: serialize_ok)
  also have "enc_header (msg_header m) @ msg_payload m = data"
    using len m by (simp add: pod_header.enc_dec)
  finally show ?thesis .
qed

theorem accepted_bytes_canonical_witness:
  "serialize (\<lambda>_. replicate 32 7) (prepared_message (\<lambda>_. replicate 32 7) (new_message\<lparr>msg_payload := [1, 2]\<rparr>)) =
     Some (enc_header (msg_header (prepared_message (\<lambda>_. replicate 32 7) (new_message\<lparr>msg_payload := [1, 2]\<rparr>))) @ [1, 2])"
  using accepted_bytes_canonical [OF deserialize_prepared [of "new_message\<lparr>msg_payload := [1, 2]\<rparr>"
      "\<lambda>_. replicate 32 7"]]
  by (simp add: new_message_def zero_header_def wf_message_def wf_header_def)

end
