(* ===== verification/Log_Serialization.thy ===== *)
theory Log_Serialization
  imports Vsr_Message "HOL-Library.Monad_Syntax"
begin

text \<open>
  \<open>src/server/replica_types.hpp\<close>, \<open>serialization\<close>, \<open>view_change_messages\<close> and
  \<open>recovery_messages\<close>: log entries, the byte format of a log, and the payloads of the
  DoViewChange, StartView, Recovery and RecoveryResponse messages.

  A reader works on the bytes between \<open>ptr\<close> and \<open>end\<close>. The result of reading a log is the
  advanced pointer (\<open>None\<close> where the code returns \<open>false\<close>) together with the log object it was
  given, which keeps the entries read before a failure.
\<close>

section \<open>Log entries\<close>

record log_entry =
  le_view :: u32
  le_op_type :: operation
  le_client_id :: uint128_t
  le_request_num :: u32
  le_payload :: "byte list"
  le_prepare_ok_acks :: "int set"

record client_table_entry =
  ct_request_number :: u32
  ct_executed :: bool
  ct_result :: "byte list"

definition new_client_table_entry :: client_table_entry where
  "new_client_table_entry = \<lparr>ct_request_number = 0, ct_executed = False, ct_result = []\<rparr>"

type_synonym vsr_log = "(u64, log_entry) omap"

section \<open>Writing and reading a log\<close>

definition write_pod :: "('a \<Rightarrow> byte list) \<Rightarrow> byte list \<Rightarrow> 'a \<Rightarrow> byte list" where
  "write_pod enc buffer v = buffer @ enc v"

definition write_log_entry :: "u64 \<times> log_entry \<Rightarrow> byte list \<Rightarrow> byte list" where
  "write_log_entry = (\<lambda>(op_num, entry) buffer.
     let b1 = write_pod enc_word buffer op_num;
         b2 = write_pod enc_word b1 (le_view entry);
         b3 = write_pod enc_operation b2 (le_op_type entry);
         b4 = write_pod enc_uint128 b3 (le_client_id entry);
         b5 = write_pod enc_word b4 (le_request_num entry);
         b6 = write_pod enc_word b5 (of_nat (length (le_payload entry)) :: u64)
     in b6 @ le_payload entry)"

definition write_log_to_buffer :: "byte list \<Rightarrow> vsr_log \<Rightarrow> byte list" where
  "write_log_to_buffer buffer log =
     fold write_log_entry log (write_pod enc_word buffer (of_nat (length log) :: u64))"

definition read_log_entry :: "byte list \<Rightarrow> ((u64 \<times> log_entry) \<times> byte list) option" where
  "read_log_entry p0 = do {
     (op_num, p1) \<leftarrow> read_pod 8 dec_word p0;
     (view, p2) \<leftarrow> read_pod 4 dec_word p1;
     (op_type, p3) \<leftarrow> read_pod 1 dec_operation p2;
     (client_id, p4) \<leftarrow> read_pod 16 dec_uint128 p3;
     (request_num, p5) \<leftarrow> read_pod 4 dec_word p4;
     (payload_size, p6) \<leftarrow> read_pod 8 (dec_word :: _ \<Rightarrow> u64) p5;
     if unat payload_size > length p6 then None
     else Some ((op_num, \<lparr>le_view = view, le_op_type = op_type, le_client_id = client_id,
                  le_request_num = request_num, le_payload = take (unat payload_size) p6,
                  le_prepare_ok_acks = {}\<rparr>),
                drop (unat payload_size) p6)
   }"

primrec read_log_entries :: "nat \<Rightarrow> byte list \<Rightarrow> vsr_log \<Rightarrow> byte list option \<times> vsr_log" where
  "read_log_entries 0 ptr log = (Some ptr, log)"
| "read_log_entries (Suc n) ptr log =
     (case read_log_entry ptr of
        None \<Rightarrow> (None, log)
      | Some ((op_num, entry), ptr') \<Rightarrow> read_log_entries n ptr' (om_assign op_num entry log))"

definition read_log_from_buffer :: "byte list \<Rightarrow> vsr_log \<Rightarrow> byte list option \<times> vsr_log" where
  "read_log_from_buffer ptr log =
     (case read_pod 8 (dec_word :: _ \<Rightarrow> u64) ptr of
        None \<Rightarrow> (None, log)
      | Some (log_size, ptr') \<Rightarrow> read_log_entries (unat log_size) ptr' log)"

text \<open>
  The bounds check on an entry's payload as the machine computes it, on 64-bit addresses.
\<close>

definition payload_out_of_bounds :: "u64 \<Rightarrow> u64 \<Rightarrow> u64 \<Rightarrow> bool" where
  "payload_out_of_bounds ptr end_ptr payload_size \<longleftrightarrow> ptr + payload_size > end_ptr"

section \<open>Message payloads\<close>

record do_view_change_payload =
  dvc_last_normal_view :: u32
  dvc_log :: vsr_log

record start_view_payload =
  sv_log :: vsr_log

record recovery_request_payload =
  rq_nonce :: uint128_t

record recovery_response_payload =
  rs_nonce :: uint128_t
  rs_log :: vsr_log

definition do_view_change_serialize :: "do_view_change_payload \<Rightarrow> byte list" where
  "do_view_change_serialize p =
     write_log_to_buffer (write_pod enc_word [] (dvc_last_normal_view p)) (dvc_log p)"

definition do_view_change_deserialize ::
    "byte list \<Rightarrow> do_view_change_payload \<Rightarrow> bool \<times> do_view_change_payload" where
  "do_view_change_deserialize data msg =
     (case read_pod 4 dec_word data of
        None \<Rightarrow> (False, msg)
      | Some (v, ptr) \<Rightarrow>
          let (res, log) = read_log_from_buffer ptr (dvc_log msg)
          in (res \<noteq> None, msg\<lparr>dvc_last_normal_view := v, dvc_log := log\<rparr>))"

definition start_view_serialize :: "start_view_payload \<Rightarrow> byte list" where
  "start_view_serialize p = write_log_to_buffer [] (sv_log p)"

definition start_view_deserialize ::
    "byte list \<Rightarrow> start_view_payload \<Rightarrow> bool \<times> start_view_payload" where
  "start_view_deserialize data msg =
     (let (res, log) = read_log_from_buffer data (sv_log msg)
      in (res \<noteq> None, msg\<lparr>sv_log := log\<rparr>))"

definition recovery_request_serialize :: "recovery_request_payload \<Rightarrow> byte list" where
  "recovery_request_serialize p = write_pod enc_uint128 [] (rq_nonce p)"

definition recovery_request_deserialize ::
    "byte list \<Rightarrow> recovery_request_payload \<Rightarrow> bool \<times> recovery_request_payload" where
  "recovery_request_deserialize data msg =
     (case read_pod 16 dec_uint128 data of
        None \<Rightarrow> (False, msg)
      | Some (n, ptr) \<Rightarrow> (True, msg\<lparr>rq_nonce := n\<rparr>))"

definition recovery_response_serialize :: "recovery_response_payload \<Rightarrow> byte list" where
  "recovery_response_serialize p =
     write_log_to_buffer (write_pod enc_uint128 [] (rs_nonce p)) (rs_log p)"

definition recovery_response_deserialize ::
    "byte list \<Rightarrow> recovery_response_payload \<Rightarrow> bool \<times> recovery_response_payload" where
  "recovery_response_deserialize data msg =
     (case read_pod 16 dec_uint128 data of
        None \<Rightarrow> (False, msg)
      | Some (n, ptr) \<Rightarrow>
          let (res, log) = read_log_from_buffer ptr (rs_log msg)
          in (res \<noteq> None, msg\<lparr>rs_nonce := n, rs_log := log\<rparr>))"

section \<open>Well-formed logs\<close>

text \<open>
  What a log in memory satisfies: sorted keys, operation bytes that are enum values, and sizes
  that fit the 64-bit counts. The acknowledgement sets are not part of the byte format.
\<close>

definition wf_entry :: "log_entry \<Rightarrow> bool" where
  "wf_entry e \<longleftrightarrow> wf_operation (le_op_type e) \<and> length (le_payload e) < 2 ^ 64"

definition wf_log :: "vsr_log \<Rightarrow> bool" where
  "wf_log log \<longleftrightarrow> om_ok log \<and> list_all (\<lambda>ke. wf_entry (snd ke)) log \<and> length log < 2 ^ 64"

definition strip_acks :: "log_entry \<Rightarrow> log_entry" where
  "strip_acks e = e\<lparr>le_prepare_ok_acks := {}\<rparr>"

definition strip_log :: "vsr_log \<Rightarrow> vsr_log" where
  "strip_log log = map (\<lambda>(k, e). (k, strip_acks e)) log"

definition entry_image :: "u64 \<times> log_entry \<Rightarrow> byte list" where
  "entry_image ke = write_log_entry ke []"

section \<open>Round trip of a log\<close>

lemma write_log_entry_append: "write_log_entry ke buffer = buffer @ entry_image ke"
  by (simp add: write_log_entry_def entry_image_def write_pod_def Let_def split: prod.splits)

lemma write_log_to_buffer_eq:
  "write_log_to_buffer buffer log =
     buffer @ enc_word (of_nat (length log) :: u64) @ concat (map entry_image log)"
proof -
  have "fold write_log_entry es b = b @ concat (map entry_image es)" for es b
    by (induction es arbitrary: b) (simp_all add: write_log_entry_append)
  then show ?thesis
    by (simp add: write_log_to_buffer_def write_pod_def)
qed

lemma read_log_entry_image:
  assumes "wf_entry e"
  shows "read_log_entry (entry_image (k, e) @ rest) = Some ((k, strip_acks e), rest)"
proof -
  have "unat (of_nat (length (le_payload e)) :: u64) = length (le_payload e)"
    using assms by (intro unat_of_nat_small) (simp add: wf_entry_def)
  then show ?thesis
    using assms
    by (simp add: read_log_entry_def entry_image_def write_log_entry_def write_pod_def Let_def
        wf_entry_def strip_acks_def codec_simps)
qed

lemma read_log_entries_images:
  "list_all (\<lambda>ke. wf_entry (snd ke)) log \<Longrightarrow>
     read_log_entries (length log) (concat (map entry_image log) @ rest) acc =
       (Some rest, fold (\<lambda>(k, v). om_assign k v) (strip_log log) acc)"
  by (induction log arbitrary: acc)
    (auto simp: strip_log_def read_log_entry_image split: prod.splits)

lemma om_ok_strip_log [simp]: "om_ok (strip_log log) = om_ok log"
  by (simp add: om_ok_def strip_log_def case_prod_beta comp_def)

lemma read_log_written:
  assumes "wf_log log"
  shows "read_log_from_buffer (write_log_to_buffer [] log @ rest) [] = (Some rest, strip_log log)"
proof -
  have "unat (of_nat (length log) :: u64) = length log"
    using assms by (intro unat_of_nat_small) (simp add: wf_log_def)
  moreover have "fold (\<lambda>(k, v). om_assign k v) (strip_log log) [] = strip_log log"
    using assms om.reload [of "strip_log log"] by (simp add: wf_log_def)
  ultimately show ?thesis
    using assms
    by (simp add: read_log_from_buffer_def write_log_to_buffer_eq codec_simps
        read_log_entries_images wf_log_def)
qed

section \<open>Reading arbitrary bytes\<close>

text \<open>
  A successful read depends only on the bytes it consumes: more bytes behind them change
  nothing but the rest. So a truncated image cannot be read.
\<close>

definition extensible :: "(byte list \<Rightarrow> ('a \<times> byte list) option) \<Rightarrow> bool" where
  "extensible f \<longleftrightarrow> (\<forall>bs x r ext. f bs = Some (x, r) \<longrightarrow> f (bs @ ext) = Some (x, r @ ext))"

lemma extensibleD: "extensible f \<Longrightarrow> f bs = Some (x, r) \<Longrightarrow> f (bs @ ext) = Some (x, r @ ext)"
  by (simp add: extensible_def)

lemma extensible_read_pod: "extensible (read_pod n dec)"
  by (auto simp: extensible_def read_pod_def split: if_splits)

lemma extensible_read_bytes:
  "extensible (\<lambda>p. if unat n > length p then None else Some (h (take (unat n) p), drop (unat n) p))"
  by (auto simp: extensible_def split: if_splits)

lemma extensible_bind:
  assumes "extensible f" and "\<And>x. extensible (g x)"
  shows "extensible (\<lambda>bs. f bs \<bind> (\<lambda>(x, r). g x r))"
  using assms by (fastforce simp: extensible_def bind_eq_Some_conv)

lemma extensible_read_log_entry: "extensible read_log_entry"
  unfolding read_log_entry_def [abs_def]
  by (intro extensible_bind extensible_read_pod extensible_read_bytes)

lemma read_log_entry_extend:
  "read_log_entry bs = Some (ke, r) \<Longrightarrow> read_log_entry (bs @ ext) = Some (ke, r @ ext)"
  by (rule extensibleD [OF extensible_read_log_entry])

lemma read_log_entries_extend:
  "read_log_entries n bs acc = (Some r, log) \<Longrightarrow>
     read_log_entries n (bs @ ext) acc = (Some (r @ ext), log)"
  by (induction n arbitrary: bs acc)
    (auto dest: read_log_entry_extend [where ext = ext] split: option.splits)

lemma read_log_extend:
  assumes "read_log_from_buffer bs acc = (Some r, log)"
  shows "read_log_from_buffer (bs @ ext) acc = (Some (r @ ext), log)"
proof -
  obtain n :: u64 and p where n: "read_pod 8 dec_word bs = Some (n, p)"
    using assms by (auto simp: read_log_from_buffer_def split: option.splits)
  then have "read_pod 8 dec_word (bs @ ext) = Some (n, p @ ext)"
    by (rule extensibleD [OF extensible_read_pod])
  with n assms show ?thesis
    by (simp add: read_log_from_buffer_def read_log_entries_extend)
qed

lemma read_log_truncated:
  assumes "wf_log log" and "write_log_to_buffer [] log = bs @ ext" and "ext \<noteq> []"
  shows "fst (read_log_from_buffer bs []) = None"
proof (rule ccontr)
  assume "fst (read_log_from_buffer bs []) \<noteq> None"
  then obtain r l where "read_log_from_buffer bs [] = (Some r, l)"
    by (metis not_None_eq prod.collapse)
  then have "read_log_from_buffer (bs @ ext) [] = (Some (r @ ext), l)"
    by (rule read_log_extend)
  then show False
    using read_log_written [OF assms(1), of "[]"] assms(2,3) by simp
qed

text \<open>Whatever the bytes are, the log object stays sorted and holds proper entries.\<close>

lemma read_log_entry_wf: "read_log_entry bs = Some ((k, e), r) \<Longrightarrow>
    wf_entry e \<and> le_prepare_ok_acks e = {} \<and> length r < length bs"
  using unat_less_power [where 'a = 64]
  by (auto simp: read_log_entry_def bind_eq_Some_conv wf_entry_def pod_operation.ok_dec
      read_pod_def intro: le_less_trans split: if_splits)

lemma read_log_entries_wf:
  "read_log_entries n bs acc = (r, log) \<Longrightarrow> om_ok acc \<Longrightarrow>
     list_all (\<lambda>ke. wf_entry (snd ke) \<and> le_prepare_ok_acks (snd ke) = {}) acc \<Longrightarrow>
     om_ok log \<and> list_all (\<lambda>ke. wf_entry (snd ke) \<and> le_prepare_ok_acks (snd ke) = {}) log"
proof (induction n arbitrary: bs acc)
  case 0
  then show ?case by simp
next
  case (Suc n)
  show ?case
  proof (cases "read_log_entry bs")
    case None
    with Suc.prems show ?thesis by simp
  next
    case (Some x)
    obtain k e p where x: "x = ((k, e), p)" by (metis prod.exhaust)
    have "list_all (\<lambda>ke. wf_entry (snd ke) \<and> le_prepare_ok_acks (snd ke) = {}) (om_assign k e acc)"
      using Suc.prems(3) om_set_assign [of k e acc] read_log_entry_wf [of bs k e p] Some x
      unfolding list_all_iff by fastforce
    with Suc Some x show ?thesis by simp
  qed
qed

lemma read_log_wf:
  "read_log_from_buffer bs [] = (r, log) \<Longrightarrow>
     om_ok log \<and> list_all (\<lambda>ke. wf_entry (snd ke) \<and> le_prepare_ok_acks (snd ke) = {}) log"
  by (auto simp: read_log_from_buffer_def dest: read_log_entries_wf split: option.splits)

section \<open>Round trips of the payloads\<close>

lemma write_log_shift: "write_log_to_buffer b log = b @ write_log_to_buffer [] log"
  by (simp add: write_log_to_buffer_eq)

lemma do_view_change_roundtrip:
  assumes "wf_log (dvc_log p)" and "dvc_log p0 = []"
  shows "do_view_change_deserialize (do_view_change_serialize p) p0 =
     (True, p0\<lparr>dvc_last_normal_view := dvc_last_normal_view p, dvc_log := strip_log (dvc_log p)\<rparr>)"
  using assms read_log_written [OF assms(1), of "[]"]
  by (simp add: do_view_change_deserialize_def do_view_change_serialize_def write_pod_def
      write_log_shift [of "enc_word _"] codec_simps)

lemma start_view_roundtrip:
  assumes "wf_log (sv_log p)" and "sv_log p0 = []"
  shows "start_view_deserialize (start_view_serialize p) p0 =
     (True, p0\<lparr>sv_log := strip_log (sv_log p)\<rparr>)"
  using assms read_log_written [OF assms(1), of "[]"]
  by (simp add: start_view_deserialize_def start_view_serialize_def)

lemma recovery_request_roundtrip:
  "recovery_request_deserialize (recovery_request_serialize p) p0 =
     (True, p0\<lparr>rq_nonce := rq_nonce p\<rparr>)"
  by (simp add: recovery_request_deserialize_def recovery_request_serialize_def write_pod_def
      read_pod_def pod_uint128.enc_length pod_uint128.dec_enc)

lemma recovery_response_roundtrip:
  assumes "wf_log (rs_log p)" and "rs_log p0 = []"
  shows "recovery_response_deserialize (recovery_response_serialize p) p0 =
     (True, p0\<lparr>rs_nonce := rs_nonce p, rs_log := strip_log (rs_log p)\<rparr>)"
  using assms read_log_written [OF assms(1), of "[]"]
  by (simp add: recovery_response_deserialize_def recovery_response_serialize_def write_pod_def
      write_log_shift [of "enc_uint128 _"] codec_simps)

section \<open>Properties of the payload formats\<close>

definition sample_entry :: log_entry where
  "sample_entry = \<lparr>le_view = 1, le_op_type = operation_set, le_client_id = UInt128 3 4,
     le_request_num = 2, le_payload = [107, 32, 118], le_prepare_ok_acks = {0, 1}\<rparr>"

lemma wf_sample_log: "wf_log [(1, sample_entry), (2, sample_entry)]"
  by (simp add: wf_log_def wf_entry_def sample_entry_def om_ok_def)

text \<open>
  The payload of a DoViewChange message carries the last normal view and the whole log:
  reading back what \<open>serialize\<close> wrote succeeds and yields every entry under its op number;
  only the acknowledgement sets, which are not written, come back empty.
\<close>
theorem do_view_change_payload_roundtrip:
  assumes "wf_log log"
  shows "do_view_change_deserialize
       (do_view_change_serialize \<lparr>dvc_last_normal_view = v, dvc_log = log\<rparr>)
       \<lparr>dvc_last_normal_view = junk, dvc_log = []\<rparr> =
     (True, \<lparr>dvc_last_normal_view = v, dvc_log = map (\<lambda>(k, e). (k, e\<lparr>le_prepare_ok_acks := {}\<rparr>)) log\<rparr>)"
  using assms by (simp add: do_view_change_roundtrip strip_log_def strip_acks_def)

theorem do_view_change_payload_roundtrip_witness:
  "do_view_change_deserialize
       (do_view_change_serialize
         \<lparr>dvc_last_normal_view = 7, dvc_log = [(1, sample_entry), (2, sample_entry)]\<rparr>)
       \<lparr>dvc_last_normal_view = 0, dvc_log = []\<rparr> =
     (True, \<lparr>dvc_last_normal_view = 7,
        dvc_log = [(1, sample_entry\<lparr>le_prepare_ok_acks := {}\<rparr>), (2, sample_entry\<lparr>le_prepare_ok_acks := {}\<rparr>)]\<rparr>)"
  using do_view_change_payload_roundtrip [OF wf_sample_log, of 7 0] by simp

text \<open>
  C26: a log image cut short anywhere is rejected: reading any proper prefix of the bytes that
  \<open>write_log_to_buffer\<close> produces returns \<open>false\<close>.
\<close>
theorem truncated_log_rejected:
  assumes "wf_log log" and "n < length (write_log_to_buffer [] log)"
  shows "fst (read_log_from_buffer (take n (write_log_to_buffer [] log)) []) = None"
  by (rule read_log_truncated [OF assms(1), of _ "drop n (write_log_to_buffer [] log)"])
    (use assms(2) in simp_all)

theorem truncated_log_rejected_witness:
  "fst (read_log_from_buffer
     (take 30 (write_log_to_buffer [] [(1, sample_entry), (2, sample_entry)])) []) = None"
proof -
  have "30 < length (write_log_to_buffer [] [(1, sample_entry), (2, sample_entry)])"
    by (simp add: write_log_to_buffer_eq entry_image_def write_log_entry_def write_pod_def Let_def
        codec_simps sample_entry_def)
  then show ?thesis
    by (rule truncated_log_rejected [OF wf_sample_log])
qed

text \<open>
  The bounds check on an entry's payload is computed on 64-bit addresses. It agrees with
  the comparison of the payload size against the bytes that are left exactly where the
  address sum does not wrap; where it wraps, the check lets a payload through that is larger
  than everything left in the buffer.
\<close>
theorem payload_check_exact_without_wrap:
  assumes "ptr \<le> end_ptr"
  shows "(payload_out_of_bounds ptr end_ptr n \<longleftrightarrow> unat n > unat end_ptr - unat ptr) \<longleftrightarrow>
     unat ptr + unat n < 2 ^ 64"
proof (cases "unat ptr + unat n < 2 ^ 64")
  case True
  then have "unat (ptr + n) = unat ptr + unat n"
    by (simp add: unat_word_ariths)
  with True assms show ?thesis
    by (auto simp: payload_out_of_bounds_def word_less_nat_alt word_le_nat_alt)
next
  case False
  have lt: "unat ptr < 2 ^ 64" "unat n < 2 ^ 64" "unat end_ptr < 2 ^ 64"
    using unat_less_power [of ptr] unat_less_power [of n] unat_less_power [of end_ptr] by simp_all
  have "unat (ptr + n) = unat ptr + unat n - 2 ^ 64"
    using False lt by (simp add: unat_word_ariths mod_nat_eqI)
  with False lt assms show ?thesis
    by (auto simp: payload_out_of_bounds_def word_less_nat_alt word_le_nat_alt)
qed

theorem payload_check_exact_without_wrap_witness:
  "\<not> payload_out_of_bounds 4096 8192 18446744073709551615 \<and> unat (18446744073709551615 :: u64) > unat (8192 :: u64) - unat (4096 :: u64)"
  using payload_check_exact_without_wrap [of 4096 8192 18446744073709551615]
  by (simp add: payload_out_of_bounds_def)

end
