(* ===== verification/Replica_State.thy ===== *)
theory Replica_State
  imports Log_Serialization
begin

text \<open>
  \<open>src/server/replica_state.hpp\<close>: the protocol state of one replica, its construction from
  the cluster configuration, who is primary of a view, and entering a view change.

  An \<open>int\<close> of the code is a HOL \<open>int\<close>; every conversion to or from an unsigned type is
  written out (\<open>word_of_int\<close>, \<open>uint\<close>, \<open>sint\<close>).
\<close>

datatype ReplicaStatus = NORMAL | VIEW_CHANGE | RECOVERY

record peer_config =
  pc_id :: int
  pc_host :: string
  pc_port :: int

record ReplicaState =
  st_id :: int
  st_f :: int
  st_cluster_config :: "(int, peer_config) omap"
  st_status :: ReplicaStatus
  st_view :: u32
  st_op :: u64
  st_commit :: u64
  st_last_executed_op :: u64
  st_log :: vsr_log
  st_client_table :: "(uint128_t, client_table_entry) omap"
  st_state_machine :: "string \<rightharpoonup> string"
  st_recovery_nonce :: uint128_t
  st_recovery_responses :: "vsr_message list"
  st_last_normal_view :: u32
  st_start_view_change_received :: "int set"
  st_do_view_change_received :: "vsr_message list"

text \<open>
  \<open>(config.size() - 1) / 2\<close> is computed in \<open>size_t\<close> and converted to \<open>int\<close>.
\<close>

definition fault_tolerance :: "nat \<Rightarrow> int" where
  "fault_tolerance n = sint (ucast ((of_nat n - 1 :: u64) div 2) :: u32)"

definition new_ReplicaState :: "int \<Rightarrow> peer_config list \<Rightarrow> ReplicaState" where
  "new_ReplicaState self_id config =
     \<lparr>st_id = self_id,
      st_f = fault_tolerance (length config),
      st_cluster_config = fold (\<lambda>peer m. om_assign (pc_id peer) peer m) config [],
      st_status = NORMAL, st_view = 0, st_op = 0, st_commit = 0, st_last_executed_op = 0,
      st_log = [], st_client_table = [], st_state_machine = Map.empty,
      st_recovery_nonce = uint128_zero, st_recovery_responses = [],
      st_last_normal_view = 0, st_start_view_change_received = {},
      st_do_view_change_received = []\<rparr>"

definition get_primary_id :: "ReplicaState \<Rightarrow> int" where
  "get_primary_id s = sint (st_view s mod word_of_int (2 * st_f s + 1))"

definition is_primary :: "ReplicaState \<Rightarrow> bool" where
  "is_primary s \<longleftrightarrow> st_id s = get_primary_id s"

definition enter_new_view :: "u32 \<Rightarrow> ReplicaState \<Rightarrow> ReplicaState" where
  "enter_new_view new_view s =
     (let s1 = (if st_status s = NORMAL then s\<lparr>st_last_normal_view := st_view s\<rparr> else s)
      in s1\<lparr>st_view := new_view,
            st_status := VIEW_CHANGE,
            st_do_view_change_received := [],
            st_start_view_change_received := {st_id s}\<rparr>)"

definition get_primary_id_for_view :: "u32 \<Rightarrow> ReplicaState \<Rightarrow> int" where
  "get_primary_id_for_view view_num s =
     (let cluster_size = length (st_cluster_config s)
      in if cluster_size = 0 then - 1
         else sint (ucast (ucast view_num mod of_nat cluster_size :: u64) :: u32))"

text \<open>
  The quorum size \<open>fault_tolerance_f_ + 1\<close>, compared with a \<open>size_t\<close> everywhere it is used and
  therefore converted to one.
\<close>

definition quorum :: "ReplicaState \<Rightarrow> nat" where
  "quorum s = unat (word_of_int (st_f s + 1) :: u64)"

section \<open>Arithmetic of views and quorums\<close>

lemma sint_small: "unat (w :: u32) < 2 ^ 31 \<Longrightarrow> sint w = int (unat w)"
proof -
  assume "unat w < 2 ^ 31"
  then have "int (unat w) < int (2 ^ 31)" by (simp only: of_nat_less_iff)
  moreover have "- (2 ^ 31) \<le> uint w"
    by (rule order_trans [OF _ unsigned_greater_eq]) simp
  ultimately show ?thesis
    using signed_take_bit_int_eq_self [of 31 "uint w"] by (simp add: sint_uint)
qed

lemma unat_word_of_int_small:
  "0 \<le> k \<Longrightarrow> k < 2 ^ LENGTH('a) \<Longrightarrow> unat (word_of_int k :: 'a::len word) = nat k"
  by (simp add: unat_eq_nat_uint uint_word_of_int)

lemma fault_tolerance_eq:
  assumes "0 < n" and "n < 2 ^ 31"
  shows "fault_tolerance n = int ((n - 1) div 2)"
proof -
  have "of_nat n - 1 = (of_nat (n - 1) :: u64)"
    using assms(1) by (simp add: of_nat_diff)
  then have "unat ((of_nat n - 1 :: u64) div 2) = (n - 1) div 2"
    using assms by (simp add: unat_div unat_of_nat_small del: of_nat_diff)
  then have "unat (ucast ((of_nat n - 1 :: u64) div 2) :: u32) = (n - 1) div 2"
    using assms by (simp add: unsigned_ucast_eq take_bit_nat_eq_self_iff)
  then show ?thesis
    using assms sint_small [of "ucast ((of_nat n - 1 :: u64) div 2)"]
    by (simp add: fault_tolerance_def)
qed

lemma quorum_eq: "0 \<le> st_f s \<Longrightarrow> st_f s < 2 ^ 31 \<Longrightarrow> quorum s = nat (st_f s) + 1"
  by (simp add: quorum_def unat_word_of_int_small nat_add_distrib del: of_int_add)

lemma get_primary_id_eq:
  assumes "0 \<le> st_f s" and "st_f s < 2 ^ 30"
  shows "get_primary_id s = int (unat (st_view s) mod (2 * nat (st_f s) + 1))"
proof -
  have n: "unat (word_of_int (2 * st_f s + 1) :: u32) = 2 * nat (st_f s) + 1"
    using assms by (subst unat_word_of_int_small) (simp_all add: nat_add_distrib nat_mult_distrib)
  then have "unat (st_view s mod word_of_int (2 * st_f s + 1)) = unat (st_view s) mod (2 * nat (st_f s) + 1)"
    by (simp add: unat_mod)
  moreover have "unat (st_view s) mod (2 * nat (st_f s) + 1) < 2 ^ 31"
    using assms by (intro less_le_trans [OF mod_less_divisor]) auto
  ultimately show ?thesis
    using sint_small [of "st_view s mod word_of_int (2 * st_f s + 1)"]
    by (simp add: get_primary_id_def)
qed

lemma get_primary_id_for_view_eq:
  assumes "0 < length (st_cluster_config s)" and "length (st_cluster_config s) < 2 ^ 31"
  shows "get_primary_id_for_view v s = int (unat v mod length (st_cluster_config s))"
proof -
  let ?n = "length (st_cluster_config s)"
  have v: "unat (ucast v :: u64) = unat v"
    using unat_less_power [of v] by (simp add: unsigned_ucast_eq take_bit_nat_eq_self_iff)
  have m: "unat (ucast v mod of_nat ?n :: u64) = unat v mod ?n"
    using assms by (simp add: unat_mod v unat_of_nat_small)
  have lt: "unat v mod ?n < 2 ^ 31"
    using assms by (meson less_trans mod_less_divisor)
  have "unat (ucast (ucast v mod of_nat ?n :: u64) :: u32) = unat v mod ?n"
    using m lt by (simp add: unsigned_ucast_eq take_bit_nat_eq_self_iff)
  then show ?thesis
    using assms lt sint_small [of "ucast (ucast v mod of_nat ?n :: u64)"]
    by (simp add: get_primary_id_for_view_def)
qed

section \<open>Quorum systems\<close>

text \<open>
  The contract the protocol needs of its quorums: any two of them share a replica. It holds
  whenever two quorums together outnumber the members.
\<close>

locale quorum_system =
  fixes members :: "'a set"
    and size_q :: nat
  assumes finite_members: "finite members"
    and majority: "card members < 2 * size_q"
begin

lemma quorums_intersect:
  assumes "A \<subseteq> members" and "B \<subseteq> members" and "size_q \<le> card A" and "size_q \<le> card B"
  shows "A \<inter> B \<noteq> {}"
proof
  assume "A \<inter> B = {}"
  then have "card (A \<union> B) = card A + card B"
    using assms(1,2) finite_members by (meson card_Un_disjoint finite_subset)
  moreover have "card (A \<union> B) \<le> card members"
    using assms(1,2) finite_members by (simp add: card_mono)
  ultimately show False
    using assms(3,4) majority by linarith
qed

lemma quorum_nonempty: "A \<subseteq> members \<Longrightarrow> size_q \<le> card A \<Longrightarrow> A \<noteq> {}"
  using quorums_intersect by blast

end

text \<open>
  A replica state built for a cluster: the configuration is a proper map of at least one and
  fewer than \<open>2 ^ 30\<close> members, and the fault tolerance is the one computed from its size.
\<close>

definition cluster_wf :: "ReplicaState \<Rightarrow> bool" where
  "cluster_wf s \<longleftrightarrow> om_ok (st_cluster_config s) \<and> 0 < length (st_cluster_config s) \<and>
     length (st_cluster_config s) < 2 ^ 30 \<and>
     st_f s = fault_tolerance (length (st_cluster_config s))"

lemma card_om_keys: "om_ok m \<Longrightarrow> card (om_keys m) = length m"
proof -
  assume "om_ok m"
  then have "distinct (map fst m)"
    by (rule om.elems_distinct)
  then have "card (set (map fst m)) = length (map fst m)"
    by (rule distinct_card)
  then show ?thesis
    by (simp add: om_keys_def)
qed

lemma finite_om_keys [simp]: "finite (om_keys m)"
  by (simp add: om_keys_def)

lemma cluster_wf_f:
  "cluster_wf s \<Longrightarrow> st_f s = int ((length (st_cluster_config s) - 1) div 2)"
  by (simp add: cluster_wf_def fault_tolerance_eq)

lemma cluster_wf_quorum:
  assumes "cluster_wf s"
  shows "quorum s = (length (st_cluster_config s) - 1) div 2 + 1"
  using assms by (subst quorum_eq) (auto simp: cluster_wf_f [OF assms] cluster_wf_def)

lemma cluster_wf_quorum_system:
  assumes "cluster_wf s" and "odd (length (st_cluster_config s))"
  shows "quorum_system (om_keys (st_cluster_config s)) (quorum s)"
proof
  show "finite (om_keys (st_cluster_config s))" by simp
  show "card (om_keys (st_cluster_config s)) < 2 * quorum s"
    using assms by (auto simp: cluster_wf_quorum cluster_wf_def card_om_keys elim!: oddE)
qed

text \<open>The three-replica cluster that \<open>server_main.cpp\<close> configures.\<close>

definition server_cluster_config :: "peer_config list" where
  "server_cluster_config =
     [\<lparr>pc_id = 0, pc_host = ''localhost'', pc_port = 8080\<rparr>,
      \<lparr>pc_id = 1, pc_host = ''localhost'', pc_port = 8081\<rparr>,
      \<lparr>pc_id = 2, pc_host = ''localhost'', pc_port = 8082\<rparr>]"

lemma server_cluster_wf: "cluster_wf (new_ReplicaState i server_cluster_config)"
  by (simp add: cluster_wf_def new_ReplicaState_def server_cluster_config_def om_ok_def)

lemma server_cluster_length:
  "length (st_cluster_config (new_ReplicaState i server_cluster_config)) = 3"
  by (simp add: new_ReplicaState_def server_cluster_config_def)

interpretation server_quorums: quorum_system
  "om_keys (st_cluster_config (new_ReplicaState i server_cluster_config))"
  "quorum (new_ReplicaState i server_cluster_config)"
  for i
  by (rule cluster_wf_quorum_system [OF server_cluster_wf]) (simp add: server_cluster_length)

section \<open>Properties of the cluster arithmetic\<close>

text \<open>
  The two functions that name the primary of a view, \<open>get_primary_id\<close> (modulo \<open>2f+1\<close>)
  and \<open>get_primary_id_for_view\<close> (modulo the cluster size), agree on every view exactly when
  the cluster has an odd number of members. In an even-sized cluster the replica that collects
  the DoViewChange messages of some view does not consider itself the primary of that view.
\<close>
theorem primary_functions_agree_iff_odd:
  assumes "cluster_wf s"
  shows "(\<forall>v. get_primary_id (s\<lparr>st_view := v\<rparr>) = get_primary_id_for_view v s) \<longleftrightarrow>
     odd (length (st_cluster_config s))"
proof -
  let ?n = "length (st_cluster_config s)"
  have n: "0 < ?n" "?n < 2 ^ 30"
    using assms by (simp_all add: cluster_wf_def)
  have p: "get_primary_id (s\<lparr>st_view := v\<rparr>) = int (unat v mod (2 * ((?n - 1) div 2) + 1))" for v
    using n by (subst get_primary_id_eq) (auto simp: cluster_wf_f [OF assms])
  have q: "get_primary_id_for_view v s = int (unat v mod ?n)" for v
    using n by (subst get_primary_id_for_view_eq) simp_all
  show ?thesis
  proof (cases "odd ?n")
    case True
    then show ?thesis by (auto simp: p q elim!: oddE)
  next
    case False
    then obtain k where k: "?n = 2 * k" and "0 < k"
      using n(1) by (auto elim!: evenE)
    then have m: "2 * ((?n - 1) div 2) + 1 = ?n - 1"
      by (cases k) simp_all
    have "unat (of_nat (?n - 1) :: u32) = ?n - 1"
      using n(2) by (intro unat_of_nat_small) simp
    then have "get_primary_id (s\<lparr>st_view := of_nat (?n - 1)\<rparr>) \<noteq>
        get_primary_id_for_view (of_nat (?n - 1)) s"
      using \<open>0 < k\<close> k unfolding p q m by simp
    with False show ?thesis by blast
  qed
qed

theorem primary_functions_agree_iff_odd_witness:
  "\<forall>v. get_primary_id ((new_ReplicaState 0 server_cluster_config)\<lparr>st_view := v\<rparr>) =
     get_primary_id_for_view v (new_ReplicaState 0 server_cluster_config)"
  using primary_functions_agree_iff_odd [OF server_cluster_wf, of 0]
  by (simp add: server_cluster_length)

text \<open>
  C28: quorums of \<open>f+1\<close> replicas pairwise intersect exactly when the cluster has an odd number of
  members; with an even number, two disjoint halves both reach the quorum size.
\<close>
theorem quorums_intersect_iff_odd:
  assumes "cluster_wf s"
  shows "(\<forall>A B. A \<subseteq> om_keys (st_cluster_config s) \<and> B \<subseteq> om_keys (st_cluster_config s) \<and>
        quorum s \<le> card A \<and> quorum s \<le> card B \<longrightarrow> A \<inter> B \<noteq> {}) \<longleftrightarrow>
     odd (length (st_cluster_config s))"
proof (cases "odd (length (st_cluster_config s))")
  case True
  then show ?thesis
    using quorum_system.quorums_intersect [OF cluster_wf_quorum_system [OF assms True]] by simp
next
  case False
  let ?M = "om_keys (st_cluster_config s)"
  have n: "card ?M = length (st_cluster_config s)" "0 < length (st_cluster_config s)"
    using assms by (simp_all add: cluster_wf_def card_om_keys)
  then obtain k where k: "length (st_cluster_config s) = 2 * k" "0 < k"
    using False by (auto elim!: evenE)
  then have q: "quorum s = k"
    by (cases k) (simp_all add: cluster_wf_quorum [OF assms])
  obtain A where A: "A \<subseteq> ?M" "card A = k"
    using n(1) k by (metis card_Diff_subset_Int finite_om_keys mult_2 le_add1 obtain_subset_with_card_n)
  have "finite A"
    using A(1) by (rule finite_subset) simp
  then have "card (?M - A) = k"
    using A n(1) k by (simp add: card_Diff_subset)
  with A q have "A \<subseteq> ?M \<and> ?M - A \<subseteq> ?M \<and> quorum s \<le> card A \<and> quorum s \<le> card (?M - A) \<and>
      A \<inter> (?M - A) = {}"
    by auto
  with False show ?thesis by blast
qed

theorem quorums_intersect_iff_odd_witness:
  "\<not> (\<exists>A B. A \<subseteq> {0, 1, 2 :: int} \<and> B \<subseteq> {0, 1, 2} \<and>
     quorum (new_ReplicaState 1 server_cluster_config) \<le> card A \<and>
     quorum (new_ReplicaState 1 server_cluster_config) \<le> card B \<and> A \<inter> B = {})"
proof -
  have "om_keys (st_cluster_config (new_ReplicaState 1 server_cluster_config)) = {0, 1, 2}"
    by (auto simp: new_ReplicaState_def server_cluster_config_def om_keys_def)
  then show ?thesis
    using quorums_intersect_iff_odd [OF server_cluster_wf, of 1] by (simp add: server_cluster_length)
qed

end
