(* ===== verification/Tcp_Connection.thy ===== *)
theory Tcp_Connection
  imports Vsr_Message
begin

text \<open>
  A connection object of \<open>src/common/tcp_connection.cpp\<close>: its socket, its read buffer and whether
  the other side is known to be a peer or a client. The identity of the object is the
  \<open>connection\<close> number used by the replica; here the object's contents. The last lemmas say that a
  descriptor is closed exactly once in the life of its object, and that the buffer neither grows
  nor shrinks and gives back what was read into it.
\<close>

type_synonym connection = nat

datatype connection_state = UNIDENTIFIED | PEER | CLIENT

definition read_buffer_size :: nat where "read_buffer_size = 1024"

record tcp_connection =
  tc_socket :: int
  tc_buffer :: "byte list"
  tc_state :: connection_state

definition new_TcpConnection :: "int \<Rightarrow> tcp_connection" where
  "new_TcpConnection socket =
     \<lparr>tc_socket = socket, tc_buffer = replicate read_buffer_size 0, tc_state = UNIDENTIFIED\<rparr>"

definition set_connection_state :: "connection_state \<Rightarrow> tcp_connection \<Rightarrow> tcp_connection" where
  "set_connection_state new_state c = c\<lparr>tc_state := new_state\<rparr>"

text \<open>\<open>close_socket\<close>: the new contents, and the descriptor handed to \<open>close\<close>, if any.\<close>

definition close_socket :: "tcp_connection \<Rightarrow> tcp_connection \<times> int option" where
  "close_socket c =
     (if tc_socket c \<noteq> - 1 then (c\<lparr>tc_socket := - 1\<rparr>, Some (tc_socket c)) else (c, None))"

text \<open>The destructor: the descriptor it closes, if any.\<close>

definition delete_TcpConnection :: "tcp_connection \<Rightarrow> int option" where
  "delete_TcpConnection c = snd (close_socket c)"

text \<open>
  \<open>get_buffer\<close> gives the event loop a reference to write through and the read callback one to
  read through. A completed read has put its bytes at the front of the buffer and left the rest
  as it was; the callback copies as many bytes as the read reported.
\<close>

definition fill_buffer :: "byte list \<Rightarrow> tcp_connection \<Rightarrow> tcp_connection" where
  "fill_buffer bytes c = c\<lparr>tc_buffer := bytes @ drop (length bytes) (tc_buffer c)\<rparr>"

definition received_from :: "tcp_connection \<Rightarrow> nat \<Rightarrow> byte list" where
  "received_from c n = take n (tc_buffer c)"

section \<open>Closing\<close>

lemma close_socket_closed [simp]: "tc_socket (fst (close_socket c)) = - 1"
  by (simp add: close_socket_def)

text \<open>What a sequence of \<open>n\<close> calls of \<open>close_socket\<close> and then the destructor close.\<close>

primrec closed_by :: "nat \<Rightarrow> tcp_connection \<Rightarrow> int list" where
  "closed_by 0 c = (case delete_TcpConnection c of Some fd \<Rightarrow> [fd] | None \<Rightarrow> [])"
| "closed_by (Suc n) c =
     (case close_socket c of (c', closed) \<Rightarrow> (case closed of Some fd \<Rightarrow> [fd] | None \<Rightarrow> []) @ closed_by n c')"

lemma closed_by_none: "tc_socket c = - 1 \<Longrightarrow> closed_by n c = []"
  by (induction n) (simp_all add: delete_TcpConnection_def close_socket_def)

lemma closed_exactly_once: "tc_socket c \<noteq> - 1 \<Longrightarrow> closed_by n c = [tc_socket c]"
  by (cases n) (simp_all add: delete_TcpConnection_def close_socket_def closed_by_none)

section \<open>The buffer\<close>

lemma received_from_fill [simp]: "received_from (fill_buffer bytes c) (length bytes) = bytes"
  by (simp add: received_from_def fill_buffer_def)

lemma fill_buffer_size: "length bytes \<le> length (tc_buffer c) \<Longrightarrow> length (tc_buffer (fill_buffer bytes c)) = length (tc_buffer c)"
  by (simp add: fill_buffer_def)

lemma connection_simps [simp]:
  "tc_socket (fill_buffer bytes c) = tc_socket c" "tc_state (fill_buffer bytes c) = tc_state c"
  "tc_socket (set_connection_state s c) = tc_socket c" "tc_state (set_connection_state s c) = s" "tc_buffer (set_connection_state s c) = tc_buffer c"
  "tc_state (fst (close_socket c)) = tc_state c" "tc_buffer (fst (close_socket c)) = tc_buffer c"
  by (simp_all add: fill_buffer_def set_connection_state_def close_socket_def)

end
