(* ===== verification/Replica_Exec.thy ===== *)
theory Replica_Exec
  imports Replica_State Tcp_Connection
begin

text \<open>
  The replica object of \<open>src/server/replica.hpp\<close>, the calls it makes on its surroundings, and
  the two routines of \<open>replica.cpp\<close> that apply committed operations: \<open>execute_commited_ops\<close>
  and \<open>advance_primary_commit_number\<close>. Execution is refined to a fold of a pure step over the
  committed part of the log.

  A call on the protocol handler or the event loop is recorded, in order, in \<open>r_outbox\<close>. A
  connection is the identity of a \<open>TcpConnection\<close> object, \<open>None\<close> the null pointer. Console
  output is not modelled.
\<close>

section \<open>The replica object\<close>

record inbound_message =
  in_connection :: "connection option"
  in_message :: vsr_message

datatype timer = Liveness_check | Heartbeat

datatype action =
    Send_message "connection option" vsr_message
  | Send_to_peer int vsr_message
  | Broadcast_to_peers vsr_message
  | Submit_timeout nat timer
  | Post_process_queue

record replica =
  r_state :: ReplicaState
  r_last_primary_contact :: int
  r_client_connections :: "(uint128_t, connection option) omap"
  r_message_queue :: "inbound_message list"
  r_nonce_counter :: u32
  r_outbox :: "action list"

abbreviation set_state :: "(ReplicaState \<Rightarrow> ReplicaState) \<Rightarrow> replica \<Rightarrow> replica" where
  "set_state f r \<equiv> r\<lparr>r_state := f (r_state r)\<rparr>"

definition emit :: "action \<Rightarrow> replica \<Rightarrow> replica" where
  "emit a r = r\<lparr>r_outbox := r_outbox r @ [a]\<rparr>"

text \<open>The members of a replica object right after construction.\<close>

definition new_replica :: "int \<Rightarrow> peer_config list \<Rightarrow> replica" where
  "new_replica self_id config =
     \<lparr>r_state = new_ReplicaState self_id config, r_last_primary_contact = 0,
      r_client_connections = [], r_message_queue = [], r_nonce_counter = 0, r_outbox = []\<rparr>"

section \<open>Executing one entry\<close>

text \<open>
  The key-value operation of a log entry: the new contents and the result string. \<open>set\<close> reads
  a key and a value from the payload, \<open>get\<close> a key; any other operation has an empty result.
\<close>

definition apply_operation ::
    "operation \<Rightarrow> byte list \<Rightarrow> (string \<rightharpoonup> string) \<Rightarrow> (string \<rightharpoonup> string) \<times> string" where
  "apply_operation op_type payload kv =
     (let ss = string_of_bytes payload
      in if op_type = operation_set then
           let (key, ss1) = extract_word ss; (val, _) = extract_word ss1
           in (kv(key \<mapsto> val), ''SET '' @ key @ ''='' @ val)
         else if op_type = operation_get then
           let (key, _) = extract_word ss
           in (kv, case kv key of Some v \<Rightarrow> v | None \<Rightarrow> ''NOT_FOUND'')
         else (kv, ''''))"

definition reply_message :: "ReplicaState \<Rightarrow> log_entry \<Rightarrow> byte list \<Rightarrow> vsr_message" where
  "reply_message s entry result =
     new_message\<lparr>msg_header := zero_header\<lparr>h_command := command_reply, h_view := st_view s,
                   h_client := le_client_id entry, h_request := le_request_num entry\<rparr>,
                 msg_payload := result\<rparr>"

definition send_reply :: "log_entry \<Rightarrow> byte list \<Rightarrow> replica \<Rightarrow> replica" where
  "send_reply entry result r =
     (if is_primary (r_state r) then
        case om_find (r_client_connections r) (le_client_id entry) of
          Some (Some c) \<Rightarrow> emit (Send_message (Some c) (reply_message (r_state r) entry result)) r
        | _ \<Rightarrow> r
      else r)"

definition execute_entry :: "log_entry \<Rightarrow> replica \<Rightarrow> replica" where
  "execute_entry entry r =
     (let s = r_state r;
          client = le_client_id entry;
          client_entry = om_index new_client_table_entry (st_client_table s) client;
          s1 = s\<lparr>st_client_table := om_assign client client_entry (st_client_table s)\<rparr>
      in if ct_request_number client_entry \<noteq> le_request_num entry \<or> \<not> ct_executed client_entry then
           let (kv, result_str) = apply_operation (le_op_type entry) (le_payload entry) (st_state_machine s1);
               client_entry' = \<lparr>ct_request_number = le_request_num entry, ct_executed = True,
                                ct_result = bytes_of_string result_str\<rparr>;
               s2 = s1\<lparr>st_state_machine := kv,
                       st_client_table := om_assign client client_entry' (st_client_table s1)\<rparr>
           in send_reply entry (ct_result client_entry') (r\<lparr>r_state := s2\<rparr>)
         else r\<lparr>r_state := s1\<rparr>)"

text \<open>What executing an entry leaves alone.\<close>

lemma emit_simps [simp]:
  "r_state (emit a r) = r_state r"
  "r_last_primary_contact (emit a r) = r_last_primary_contact r"
  "r_client_connections (emit a r) = r_client_connections r"
  "r_message_queue (emit a r) = r_message_queue r"
  "r_nonce_counter (emit a r) = r_nonce_counter r"
  "r_outbox (emit a r) = r_outbox r @ [a]"
  by (simp_all add: emit_def)

lemma send_reply_simps [simp]:
  "r_state (send_reply e res r) = r_state r"
  "r_last_primary_contact (send_reply e res r) = r_last_primary_contact r"
  "r_client_connections (send_reply e res r) = r_client_connections r"
  "r_message_queue (send_reply e res r) = r_message_queue r"
  "r_nonce_counter (send_reply e res r) = r_nonce_counter r"
  by (simp_all add: send_reply_def split: option.splits)

lemma execute_entry_frame [simp]:
  "st_id (r_state (execute_entry e r)) = st_id (r_state r)"
  "st_f (r_state (execute_entry e r)) = st_f (r_state r)"
  "st_cluster_config (r_state (execute_entry e r)) = st_cluster_config (r_state r)"
  "st_status (r_state (execute_entry e r)) = st_status (r_state r)"
  "st_view (r_state (execute_entry e r)) = st_view (r_state r)"
  "st_op (r_state (execute_entry e r)) = st_op (r_state r)"
  "st_commit (r_state (execute_entry e r)) = st_commit (r_state r)"
  "st_last_executed_op (r_state (execute_entry e r)) = st_last_executed_op (r_state r)"
  "st_log (r_state (execute_entry e r)) = st_log (r_state r)"
  "st_recovery_nonce (r_state (execute_entry e r)) = st_recovery_nonce (r_state r)"
  "st_recovery_responses (r_state (execute_entry e r)) = st_recovery_responses (r_state r)"
  "st_last_normal_view (r_state (execute_entry e r)) = st_last_normal_view (r_state r)"
  "st_start_view_change_received (r_state (execute_entry e r)) = st_start_view_change_received (r_state r)"
  "st_do_view_change_received (r_state (execute_entry e r)) = st_do_view_change_received (r_state r)"
  "r_last_primary_contact (execute_entry e r) = r_last_primary_contact r"
  "r_client_connections (execute_entry e r) = r_client_connections r"
  "r_message_queue (execute_entry e r) = r_message_queue r"
  "r_nonce_counter (execute_entry e r) = r_nonce_counter r"
  by (simp_all add: execute_entry_def Let_def case_prod_beta)

section \<open>The execution loop\<close>

function execute_commited_ops :: "replica \<Rightarrow> replica" where
  "execute_commited_ops r =
     (if st_last_executed_op (r_state r) < st_commit (r_state r) then
        case om_find (st_log (r_state r)) (st_last_executed_op (r_state r) + 1) of
          None \<Rightarrow> r
        | Some entry \<Rightarrow>
            execute_commited_ops
              (set_state (\<lambda>s. s\<lparr>st_last_executed_op := st_last_executed_op s + 1\<rparr>)
                (execute_entry entry r))
      else r)"
  by pat_completeness auto
termination
  by (relation "measure (\<lambda>r. unat (st_commit (r_state r)) - unat (st_last_executed_op (r_state r)))")
    (simp_all add: unat_Suc_less word_less_nat_alt diff_less_mono2)

declare execute_commited_ops.simps [simp del]

section \<open>Advancing the primary's commit number\<close>

text \<open>
  The loop raises the commit number while the next entry is present and acknowledged by
  \<open>f+1\<close> replicas. Every round finds an entry under a key not met before, so one round more than
  the log has entries is enough: \<open>advance_loop_stops\<close> below shows that with this bound the
  loop always leaves through one of its own exits.
\<close>

definition can_commit_next :: "ReplicaState \<Rightarrow> bool" where
  "can_commit_next s =
     (case om_find (st_log s) (st_commit s + 1) of
        None \<Rightarrow> False
      | Some entry \<Rightarrow> \<not> card (le_prepare_ok_acks entry) < quorum s)"

primrec advance_loop :: "nat \<Rightarrow> ReplicaState \<Rightarrow> ReplicaState" where
  "advance_loop 0 s = s"
| "advance_loop (Suc rounds) s =
     (if can_commit_next s then advance_loop rounds (s\<lparr>st_commit := st_commit s + 1\<rparr>) else s)"

definition advance_primary_commit_number :: "replica \<Rightarrow> replica" where
  "advance_primary_commit_number r =
     (if \<not> is_primary (r_state r) then r
      else execute_commited_ops
             (set_state (\<lambda>s. advance_loop (Suc (length (st_log s))) s) r))"

section \<open>Lemmas on the commit loop\<close>

lemma advance_loop_frame: "advance_loop n s = s\<lparr>st_commit := st_commit (advance_loop n s)\<rparr>"
proof (induction n arbitrary: s)
  case 0
  then show ?case by simp
next
  case (Suc n)
  show ?case
  proof (cases "can_commit_next s")
    case True
    then show ?thesis
      using Suc [of "s\<lparr>st_commit := st_commit s + 1\<rparr>"] by simp
  qed simp
qed

lemma advance_loop_simps [simp]:
  "st_log (advance_loop n s) = st_log s" "st_id (advance_loop n s) = st_id s"
  "st_f (advance_loop n s) = st_f s" "st_view (advance_loop n s) = st_view s"
  "st_op (advance_loop n s) = st_op s" "st_status (advance_loop n s) = st_status s"
  "st_last_executed_op (advance_loop n s) = st_last_executed_op s"
  "st_cluster_config (advance_loop n s) = st_cluster_config s"
  "st_client_table (advance_loop n s) = st_client_table s"
  "st_state_machine (advance_loop n s) = st_state_machine s"
  by (subst advance_loop_frame, simp)+

lemma quorum_cong [simp]: "quorum (s\<lparr>st_commit := c\<rparr>) = quorum s"
  by (simp add: quorum_def)

text \<open>
  The number of rounds the loop makes: the length of the run of consecutive acknowledged
  entries behind the commit number.
\<close>

lemma advance_loop_rounds:
  "\<exists>k\<le>n. st_commit (advance_loop n s) = st_commit s + of_nat k \<and>
     (\<forall>j<k. can_commit_next (s\<lparr>st_commit := st_commit s + of_nat j\<rparr>)) \<and>
     (k < n \<longrightarrow> \<not> can_commit_next (advance_loop n s))"
proof (induction n arbitrary: s)
  case 0
  then show ?case by simp
next
  case (Suc n)
  show ?case
  proof (cases "can_commit_next s")
    case False
    then show ?thesis by (intro exI [of _ 0]) simp
  next
    case True
    obtain k where k: "k \<le> n"
      "st_commit (advance_loop n (s\<lparr>st_commit := st_commit s + 1\<rparr>)) = st_commit s + 1 + of_nat k"
      "\<forall>j<k. can_commit_next (s\<lparr>st_commit := st_commit s + 1 + of_nat j\<rparr>)"
      "k < n \<longrightarrow> \<not> can_commit_next (advance_loop n (s\<lparr>st_commit := st_commit s + 1\<rparr>))"
      using Suc [of "s\<lparr>st_commit := st_commit s + 1\<rparr>"] by auto
    have "can_commit_next (s\<lparr>st_commit := st_commit s + of_nat j\<rparr>)" if "j < Suc k" for j
      using that k(3) True by (cases j) (simp_all add: add.assoc)
    with k True show ?thesis
      by (intro exI [of _ "Suc k"]) (simp add: add.assoc)
  qed
qed

lemma can_commit_next_key: "can_commit_next s \<Longrightarrow> st_commit s + 1 \<in> om_keys (st_log s)"
  by (auto simp: can_commit_next_def om_keys_dom split: option.splits)

lemma can_commit_next_iff:
  "can_commit_next (s\<lparr>st_commit := c\<rparr>) \<longleftrightarrow>
     (\<exists>e. om_find (st_log s) (c + 1) = Some e \<and> quorum s \<le> card (le_prepare_ok_acks e))"
  by (auto simp: can_commit_next_def split: option.splits)

lemma advance_loop_stops:
  assumes "length (st_log s) < 2 ^ 64"
  shows "\<not> can_commit_next (advance_loop (Suc (length (st_log s))) s)"
proof -
  let ?n = "Suc (length (st_log s))"
  obtain k where k: "k \<le> ?n" "\<forall>j<k. can_commit_next (s\<lparr>st_commit := st_commit s + of_nat j\<rparr>)"
    "k < ?n \<longrightarrow> \<not> can_commit_next (advance_loop ?n s)"
    using advance_loop_rounds [of ?n s] by blast
  have "(\<lambda>j. st_commit s + of_nat j + 1) ` {..<k} \<subseteq> om_keys (st_log s)"
    using k(2) can_commit_next_key by fastforce
  then have "card ((\<lambda>j. st_commit s + of_nat j + 1) ` {..<k}) \<le> card (om_keys (st_log s))"
    by (intro card_mono) simp_all
  also have "\<dots> \<le> length (st_log s)"
    unfolding om_keys_def by (metis card_length length_map list.set_map)
  finally have *: "card ((\<lambda>j. st_commit s + of_nat j + 1) ` {..<k}) \<le> length (st_log s)" .
  have "inj_on (\<lambda>j. st_commit s + of_nat j + 1) {..<k}"
    using assms k(1) by (intro inj_onI) (simp add: of_nat_eq_small)
  with * have "k \<le> length (st_log s)"
    by (simp add: card_image)
  with k(3) show ?thesis by simp
qed

section \<open>The specification of execution\<close>

text \<open>
  The contract of a replicated state machine: a pure step, and entries that differ only in
  what the step does not look at have the same effect. Then replicas whose logs agree on the
  committed part compute the same state, however they split the work into batches.
\<close>

locale log_executor =
  fixes step :: "'e \<Rightarrow> 's \<Rightarrow> 's"
    and same :: "'e \<Rightarrow> 'e \<Rightarrow> bool"
  assumes step_same: "same e e' \<Longrightarrow> step e s = step e' s"
begin

lemma runs_agree: "list_all2 same es es' \<Longrightarrow> fold step es s = fold step es' s"
  by (induction arbitrary: s rule: list_all2_induct) (simp_all add: step_same)

lemma run_append: "fold step (es @ es') s = fold step es' (fold step es s)"
  by simp

end

text \<open>
  The specification: the key-value contents and the client sessions. An entry whose request is
  the last one executed for its client is skipped; any other entry is applied and recorded.
\<close>

type_synonym exec_state = "(string \<rightharpoonup> string) \<times> (uint128_t \<rightharpoonup> client_table_entry)"

definition exec_step :: "log_entry \<Rightarrow> exec_state \<Rightarrow> exec_state" where
  "exec_step e = (\<lambda>(kv, sessions).
     if (case sessions (le_client_id e) of
           Some ce \<Rightarrow> ct_request_number ce = le_request_num e \<and> ct_executed ce
         | None \<Rightarrow> False)
     then (kv, sessions)
     else let (kv', result) = apply_operation (le_op_type e) (le_payload e) kv
          in (kv', sessions(le_client_id e \<mapsto>
                \<lparr>ct_request_number = le_request_num e, ct_executed = True,
                 ct_result = bytes_of_string result\<rparr>)))"

definition abs_exec :: "ReplicaState \<Rightarrow> exec_state" where
  "abs_exec s = (st_state_machine s, om_find (st_client_table s))"

text \<open>The entries that are ready: the run of consecutive ops after \<open>lo\<close>, at most up to \<open>hi\<close>.\<close>

definition ready_entries :: "vsr_log \<Rightarrow> u64 \<Rightarrow> u64 \<Rightarrow> log_entry list" where
  "ready_entries log lo hi =
     map (\<lambda>i. the (om_find log (of_nat i)))
       (takeWhile (\<lambda>i. om_find log (of_nat i) \<noteq> None) [Suc (unat lo)..<Suc (unat hi)])"

definition same_request :: "log_entry \<Rightarrow> log_entry \<Rightarrow> bool" where
  "same_request e e' \<longleftrightarrow> le_op_type e = le_op_type e' \<and> le_client_id e = le_client_id e' \<and>
     le_request_num e = le_request_num e' \<and> le_payload e = le_payload e'"

interpretation exec: log_executor exec_step same_request
  by unfold_locales (auto simp: same_request_def exec_step_def split: option.splits)

section \<open>Refinement of the execution loop\<close>

lemma execute_entry_refines:
  "abs_exec (r_state (execute_entry e r)) = exec_step e (abs_exec (r_state r))"
proof -
  let ?t = "st_client_table (r_state r)"
  show ?thesis
  proof (cases "om_find ?t (le_client_id e)")
    case None
    then show ?thesis
      by (simp add: execute_entry_def exec_step_def abs_exec_def om_index_def
          new_client_table_entry_def Let_def case_prod_beta)
  next
    case (Some ce)
    then show ?thesis
      by (auto simp: execute_entry_def exec_step_def abs_exec_def om_index_def Let_def
          case_prod_beta fun_upd_idem)
  qed
qed

lemma ready_entries_stop: "\<not> lo < hi \<Longrightarrow> ready_entries log lo hi = []"
  by (simp add: ready_entries_def word_less_nat_alt)

lemma ready_entries_unfold:
  assumes "lo < hi"
  shows "ready_entries log lo hi =
     (case om_find log (lo + 1) of None \<Rightarrow> [] | Some e \<Rightarrow> e # ready_entries log (lo + 1) hi)"
proof -
  have "of_nat (Suc (unat lo)) = lo + 1" by simp
  moreover have "[Suc (unat lo)..<Suc (unat hi)] = Suc (unat lo) # [Suc (unat (lo + 1))..<Suc (unat hi)]"
    using assms by (simp add: unat_Suc_less [OF assms] word_less_nat_alt upt_conv_Cons del: upt_Suc)
  ultimately show ?thesis
    by (simp add: ready_entries_def add.commute split: option.splits)
qed

text \<open>Only the state machine, the client table, the execution counter and the outbox change.\<close>

definition exec_frame :: "replica \<Rightarrow> replica \<Rightarrow> bool" where
  "exec_frame r r' \<longleftrightarrow> (\<exists>n t m acts. r' =
     r\<lparr>r_state := (r_state r)\<lparr>st_last_executed_op := n, st_state_machine := m, st_client_table := t\<rparr>,
       r_outbox := r_outbox r @ acts\<rparr>)"

lemma exec_frame_refl [simp]: "exec_frame r r"
  unfolding exec_frame_def
  by (rule exI [of _ "st_last_executed_op (r_state r)"], rule exI [of _ "st_client_table (r_state r)"],
      rule exI [of _ "st_state_machine (r_state r)"], rule exI [of _ "[]"]) simp

lemma exec_frame_trans: "exec_frame r r' \<Longrightarrow> exec_frame r' r'' \<Longrightarrow> exec_frame r r''"
  by (fastforce simp: exec_frame_def)

lemma exec_frame_counter: "exec_frame r (r\<lparr>r_state := (r_state r)\<lparr>st_last_executed_op := n\<rparr>\<rparr>)"
  unfolding exec_frame_def
  by (rule exI [of _ n], rule exI [of _ "st_client_table (r_state r)"],
      rule exI [of _ "st_state_machine (r_state r)"], rule exI [of _ "[]"]) simp

lemma exec_frame_tables:
  "exec_frame r (r\<lparr>r_state := (r_state r)\<lparr>st_state_machine := m, st_client_table := t\<rparr>\<rparr>)"
  unfolding exec_frame_def
  by (rule exI [of _ "st_last_executed_op (r_state r)"], rule exI [of _ t], rule exI [of _ m],
      rule exI [of _ "[]"]) simp

lemma exec_frame_emit: "exec_frame r (emit a r)"
  unfolding exec_frame_def
  by (rule exI [of _ "st_last_executed_op (r_state r)"], rule exI [of _ "st_client_table (r_state r)"],
      rule exI [of _ "st_state_machine (r_state r)"], rule exI [of _ "[a]"]) (simp add: emit_def)

lemma exec_frame_send_reply: "exec_frame r (send_reply e res r)"
  by (simp add: send_reply_def exec_frame_emit split: option.splits)

lemma exec_frame_entry: "exec_frame r (execute_entry e r)"
proof -
  let ?ce = "om_index new_client_table_entry (st_client_table (r_state r)) (le_client_id e)"
  let ?t = "om_assign (le_client_id e) ?ce (st_client_table (r_state r))"
  show ?thesis
  proof (cases "ct_request_number ?ce \<noteq> le_request_num e \<or> \<not> ct_executed ?ce")
    case True
    obtain m res where "apply_operation (le_op_type e) (le_payload e) (st_state_machine (r_state r)) = (m, res)"
      by (metis prod.exhaust)
    with True have "execute_entry e r = send_reply e (bytes_of_string res)
        (r\<lparr>r_state := (r_state r)\<lparr>st_state_machine := m, st_client_table := om_assign (le_client_id e)
          \<lparr>ct_request_number = le_request_num e, ct_executed = True, ct_result = bytes_of_string res\<rparr> ?t\<rparr>\<rparr>)"
      by (simp add: execute_entry_def Let_def)
    then show ?thesis
      by (metis exec_frame_trans [OF exec_frame_tables exec_frame_send_reply])
  next
    case False
    then have "execute_entry e r = r\<lparr>r_state := (r_state r)\<lparr>st_client_table := ?t\<rparr>\<rparr>"
      by (simp add: execute_entry_def Let_def)
    then show ?thesis
      using exec_frame_tables [where r = r and m = "st_state_machine (r_state r)" and t = ?t] by simp
  qed
qed

text \<open>One iteration of the loop, and its two exits.\<close>

lemma execute_commited_ops_exit:
  "\<not> st_last_executed_op (r_state r) < st_commit (r_state r) \<Longrightarrow> execute_commited_ops r = r"
  "om_find (st_log (r_state r)) (st_last_executed_op (r_state r) + 1) = None \<Longrightarrow>
     execute_commited_ops r = r"
  by (simp_all add: execute_commited_ops.simps [of r])

definition execute_next :: "log_entry \<Rightarrow> replica \<Rightarrow> replica" where
  "execute_next e r =
     set_state (\<lambda>s. s\<lparr>st_last_executed_op := st_last_executed_op s + 1\<rparr>) (execute_entry e r)"

lemma execute_commited_ops_next:
  "st_last_executed_op (r_state r) < st_commit (r_state r) \<Longrightarrow>
   om_find (st_log (r_state r)) (st_last_executed_op (r_state r) + 1) = Some e \<Longrightarrow>
     execute_commited_ops r = execute_commited_ops (execute_next e r)"
  by (simp add: execute_commited_ops.simps [of r] execute_next_def)

lemma execute_commited_ops_induct [case_names stop advance]:
  assumes stop: "\<And>r. execute_commited_ops r = r \<Longrightarrow>
      ready_entries (st_log (r_state r)) (st_last_executed_op (r_state r)) (st_commit (r_state r)) = [] \<Longrightarrow> P r"
    and advance: "\<And>r e. st_last_executed_op (r_state r) < st_commit (r_state r) \<Longrightarrow>
      om_find (st_log (r_state r)) (st_last_executed_op (r_state r) + 1) = Some e \<Longrightarrow>
      execute_commited_ops r = execute_commited_ops (execute_next e r) \<Longrightarrow>
      P (execute_next e r) \<Longrightarrow> P r"
  shows "P r"
proof (induction r rule: execute_commited_ops.induct)
  case (1 r)
  show ?case
  proof (cases "st_last_executed_op (r_state r) < st_commit (r_state r)")
    case False
    then show ?thesis by (intro stop execute_commited_ops_exit ready_entries_stop)
  next
    case lt: True
    show ?thesis
    proof (cases "om_find (st_log (r_state r)) (st_last_executed_op (r_state r) + 1)")
      case None
      with lt show ?thesis
        by (intro stop execute_commited_ops_exit) (simp_all add: ready_entries_unfold)
    next
      case (Some e)
      with 1 [OF lt Some] lt show ?thesis
        by (intro advance [OF lt Some] execute_commited_ops_next) (simp_all add: execute_next_def)
    qed
  qed
qed

lemma exec_frame_next: "exec_frame r (execute_next e r)"
  unfolding execute_next_def by (rule exec_frame_trans [OF exec_frame_entry exec_frame_counter])

lemma exec_frame_execute: "exec_frame r (execute_commited_ops r)"
proof (induction r rule: execute_commited_ops_induct)
  case (advance r e)
  then show ?case
    using exec_frame_trans [OF exec_frame_next] by metis
qed simp

lemma exec_frameD:
  assumes "exec_frame r r'"
  shows "st_id (r_state r') = st_id (r_state r)" "st_f (r_state r') = st_f (r_state r)"
    "st_cluster_config (r_state r') = st_cluster_config (r_state r)"
    "st_status (r_state r') = st_status (r_state r)" "st_view (r_state r') = st_view (r_state r)"
    "st_op (r_state r') = st_op (r_state r)" "st_commit (r_state r') = st_commit (r_state r)"
    "st_log (r_state r') = st_log (r_state r)"
    "st_recovery_nonce (r_state r') = st_recovery_nonce (r_state r)"
    "st_recovery_responses (r_state r') = st_recovery_responses (r_state r)"
    "st_last_normal_view (r_state r') = st_last_normal_view (r_state r)"
    "st_start_view_change_received (r_state r') = st_start_view_change_received (r_state r)"
    "st_do_view_change_received (r_state r') = st_do_view_change_received (r_state r)"
    "r_last_primary_contact r' = r_last_primary_contact r"
    "r_client_connections r' = r_client_connections r"
    "r_message_queue r' = r_message_queue r" "r_nonce_counter r' = r_nonce_counter r"
    "is_primary (r_state r') = is_primary (r_state r)"
  using assms by (auto simp: exec_frame_def is_primary_def get_primary_id_def)

lemmas execute_frame_simps [simp] = exec_frameD [OF exec_frame_execute]
lemmas execute_next_simps [simp] = exec_frameD [OF exec_frame_next]

lemma execute_next_counter [simp]:
  "st_last_executed_op (r_state (execute_next e r)) = st_last_executed_op (r_state r) + 1"
  by (simp add: execute_next_def)

text \<open>One committed entry ahead of the executed ones.\<close>

lemma execute_single:
  assumes "st_last_executed_op (r_state r) = n" and "st_commit (r_state r) = n + 1" and "n \<noteq> - 1"
    and "om_find (st_log (r_state r)) (n + 1) = Some e"
  shows "execute_commited_ops r = execute_next e r"
proof -
  have "n < n + 1"
    using unat_Suc_less [OF assms(3) [unfolded word_order.not_eq_extremum]] by (simp add: word_less_nat_alt)
  then have "execute_commited_ops r = execute_commited_ops (execute_next e r)"
    using assms by (intro execute_commited_ops_next) simp_all
  also have "\<dots> = execute_next e r"
    using assms by (intro execute_commited_ops_exit) simp
  finally show ?thesis .
qed

lemma execute_next_refines:
  "abs_exec (r_state (execute_next e r)) = exec_step e (abs_exec (r_state r))"
  using execute_entry_refines [of e r] by (simp add: execute_next_def abs_exec_def)

lemma execute_refines:
  "abs_exec (r_state (execute_commited_ops r)) =
     fold exec_step (ready_entries (st_log (r_state r)) (st_last_executed_op (r_state r))
       (st_commit (r_state r))) (abs_exec (r_state r))"
proof (induction r rule: execute_commited_ops_induct)
  case (advance r e)
  then show ?case
    by (simp add: ready_entries_unfold execute_next_refines)
qed simp

lemma execute_counter:
  "st_last_executed_op (r_state (execute_commited_ops r)) =
     st_last_executed_op (r_state r) + of_nat (length (ready_entries (st_log (r_state r))
       (st_last_executed_op (r_state r)) (st_commit (r_state r))))"
proof (induction r rule: execute_commited_ops_induct)
  case (advance r e)
  then show ?case
    by (simp add: ready_entries_unfold)
qed simp

text \<open>A backup executes silently.\<close>

lemma execute_entry_backup_silent:
  "\<not> is_primary (r_state r) \<Longrightarrow> r_outbox (execute_entry e r) = r_outbox r"
  by (auto simp: execute_entry_def send_reply_def is_primary_def get_primary_id_def Let_def case_prod_beta)

lemma execute_next_backup_silent:
  "\<not> is_primary (r_state r) \<Longrightarrow> r_outbox (execute_next e r) = r_outbox r"
  by (simp add: execute_next_def execute_entry_backup_silent)

lemma execute_backup_silent:
  "\<not> is_primary (r_state r) \<Longrightarrow> r_outbox (execute_commited_ops r) = r_outbox r"
proof (induction r rule: execute_commited_ops_induct)
  case (advance r e)
  then show ?case
    by (simp add: execute_next_backup_silent)
qed simp

text \<open>Executing does not depend on the commit number beyond where it stops.\<close>

abbreviation set_commit :: "u64 \<Rightarrow> replica \<Rightarrow> replica" where
  "set_commit c \<equiv> set_state (\<lambda>s. s\<lparr>st_commit := c\<rparr>)"

lemma execute_entry_set_commit: "execute_entry e (set_commit c r) = set_commit c (execute_entry e r)"
  by (auto simp: execute_entry_def send_reply_def is_primary_def get_primary_id_def reply_message_def
      emit_def Let_def case_prod_beta split: option.splits)

lemma execute_next_set_commit: "execute_next e (set_commit c r) = set_commit c (execute_next e r)"
  unfolding execute_next_def execute_entry_set_commit by simp

lemma execute_in_batches:
  "st_commit (r_state r) \<le> c \<Longrightarrow>
     execute_commited_ops (set_commit c (execute_commited_ops r)) = execute_commited_ops (set_commit c r)"
proof (induction r rule: execute_commited_ops_induct)
  case (advance r e)
  then have "execute_commited_ops (set_commit c r) = execute_commited_ops (execute_next e (set_commit c r))"
    by (intro execute_commited_ops_next) simp_all
  with advance show ?case
    by (simp add: execute_next_set_commit)
qed simp

lemma takeWhile_present_rel:
  "(\<And>i. i \<in> set xs \<Longrightarrow> rel_option R (l i) (m i)) \<Longrightarrow>
     list_all2 R (map (\<lambda>i. the (l i)) (takeWhile (\<lambda>i. l i \<noteq> None) xs))
       (map (\<lambda>i. the (m i)) (takeWhile (\<lambda>i. m i \<noteq> None) xs))"
proof (induction xs)
  case (Cons a xs)
  from Cons.prems [of a] Cons.IH [OF Cons.prems] show ?case
    by (cases "l a"; cases "m a") simp_all
qed simp

text \<open>After an entry is executed, its client's session records it.\<close>

lemma exec_step_session:
  "\<exists>ce. snd (exec_step e x) (le_client_id e) = Some ce \<and>
     ct_request_number ce = le_request_num e \<and> ct_executed ce"
  by (cases x) (auto simp: exec_step_def case_prod_beta Let_def split: option.splits)

section \<open>Properties of execution\<close>

text \<open>
  C12: \<open>execute_commited_ops\<close> implements its specification: it applies, in op order, the run of
  consecutive log entries that follows the last executed op and ends at the commit number or
  at the first gap in the log; its effect on the key-value contents and on the client sessions
  is the fold of the specification step over that run; the counter moves to the end of the run
  and log, op, commit, view and status are untouched. The loop always terminates.
\<close>
theorem execution_implements_spec:
  fixes r :: replica
  defines "s \<equiv> r_state r"
  defines "s' \<equiv> r_state (execute_commited_ops r)"
  defines "es \<equiv> ready_entries (st_log s) (st_last_executed_op s) (st_commit s)"
  shows "abs_exec s' = fold exec_step es (abs_exec s) \<and>
     st_last_executed_op s' = st_last_executed_op s + of_nat (length es) \<and>
     st_log s' = st_log s \<and> st_op s' = st_op s \<and> st_commit s' = st_commit s \<and>
     st_view s' = st_view s \<and> st_status s' = st_status s"
  unfolding s_def s'_def es_def by (simp add: execute_refines execute_counter)

text \<open>
  Replicated execution is deterministic: two replicas that have executed up to the same op
  with the same result, have the same commit number, and whose logs hold the same requests
  between the two (views and acknowledgement sets may differ), reach the same key-value
  contents, the same client sessions and the same execution counter.
\<close>
theorem replicas_execute_alike:
  assumes "abs_exec (r_state r) = abs_exec (r_state q)"
    and "st_last_executed_op (r_state r) = st_last_executed_op (r_state q)"
    and "st_commit (r_state r) = st_commit (r_state q)"
    and "\<And>i. st_last_executed_op (r_state r) < i \<Longrightarrow> i \<le> st_commit (r_state r) \<Longrightarrow>
      rel_option same_request (om_find (st_log (r_state r)) i) (om_find (st_log (r_state q)) i)"
  shows "abs_exec (r_state (execute_commited_ops r)) = abs_exec (r_state (execute_commited_ops q)) \<and>
     st_last_executed_op (r_state (execute_commited_ops r)) =
       st_last_executed_op (r_state (execute_commited_ops q))"
proof -
  let ?lo = "st_last_executed_op (r_state r)" and ?hi = "st_commit (r_state r)"
  let ?l = "om_find (st_log (r_state r))" and ?m = "om_find (st_log (r_state q))"
  have rel: "rel_option same_request (?l (of_nat i)) (?m (of_nat i))"
    if "i \<in> set [Suc (unat ?lo)..<Suc (unat ?hi)]" for i
  proof -
    have "i < 2 ^ 64"
      using that unat_less_power [of ?hi] by auto
    then have "unat (of_nat i :: u64) = i"
      by (simp add: unat_of_nat_small)
    then show ?thesis
      using that by (intro assms(4)) (auto simp: word_less_nat_alt word_le_nat_alt)
  qed
  then have "list_all2 same_request (ready_entries (st_log (r_state r)) ?lo ?hi)
      (ready_entries (st_log (r_state q)) ?lo ?hi)"
    unfolding ready_entries_def by (rule takeWhile_present_rel)
  note agree = exec.runs_agree [OF this, of "abs_exec (r_state q)"] list_all2_lengthD [OF this]
  show ?thesis
    using agree by (simp add: execute_refines execute_counter assms(1,2,3))
qed

text \<open>Two replicas of the example cluster with one committed entry each.\<close>

definition sample_primary :: replica where
  "sample_primary = set_state (\<lambda>s. s\<lparr>st_log := [(1, sample_entry)], st_op := 1, st_commit := 1\<rparr>)
     (new_replica 0 server_cluster_config)"

definition sample_backup :: replica where
  "sample_backup = set_state (\<lambda>s. s\<lparr>st_log := [(1, strip_acks sample_entry)], st_op := 1, st_commit := 1\<rparr>)
     (new_replica 1 server_cluster_config)"

theorem replicas_execute_alike_witness:
  "abs_exec (r_state (execute_commited_ops sample_primary)) =
     abs_exec (r_state (execute_commited_ops sample_backup)) \<and>
   st_last_executed_op (r_state (execute_commited_ops sample_primary)) =
     st_last_executed_op (r_state (execute_commited_ops sample_backup))"
  by (rule replicas_execute_alike)
    (auto simp: sample_primary_def sample_backup_def new_replica_def new_ReplicaState_def
      abs_exec_def om_find_def same_request_def strip_acks_def)

text \<open>
  How the commits arrive does not matter: executing at a commit number and later again at a
  higher one leaves the replica exactly as executing once at the higher number does, including
  the replies that were sent.
\<close>
theorem execution_batch_independent:
  assumes "c1 \<le> c2"
  shows "execute_commited_ops (set_commit c2 (execute_commited_ops (set_commit c1 r))) =
     execute_commited_ops (set_commit c2 r)"
  using execute_in_batches [of "set_commit c1 r" c2] assms by simp

theorem execution_batch_independent_witness:
  "execute_commited_ops (set_commit 1 (execute_commited_ops (set_commit 0 sample_primary))) =
     execute_commited_ops (set_commit 1 sample_primary)"
  by (rule execution_batch_independent) simp

text \<open>
  Executing the same entry again has no effect, neither on the state nor on the replies.
\<close>
theorem execution_at_most_once:
  assumes "om_ok (st_client_table (r_state r))"
  shows "execute_entry e (execute_entry e r) = execute_entry e r"
proof -
  define r' where "r' = execute_entry e r"
  have ok: "om_ok (st_client_table (r_state r'))"
    using assms by (simp add: r'_def execute_entry_def Let_def case_prod_beta)
  obtain ce where ce: "om_find (st_client_table (r_state r')) (le_client_id e) = Some ce"
    "ct_request_number ce = le_request_num e" "ct_executed ce"
    using exec_step_session [of e "abs_exec (r_state r)"]
    unfolding execute_entry_refines [symmetric] by (auto simp: r'_def abs_exec_def)
  have "execute_entry e r' = r'"
    using ce by (simp add: execute_entry_def om_index_def om_assign_same [OF ok ce(1)])
  then show ?thesis by (simp add: r'_def)
qed

theorem execution_at_most_once_witness:
  "execute_entry sample_entry (execute_entry sample_entry sample_primary) =
     execute_entry sample_entry sample_primary"
  by (rule execution_at_most_once)
    (simp add: sample_primary_def new_replica_def new_ReplicaState_def)

text \<open>
  C13: on the primary, \<open>advance_primary_commit_number\<close> raises the commit number by exactly the
  number of consecutive log entries behind it that at least \<open>f+1\<close> replicas have acknowledged,
  and stops at the first entry that is missing or short of the quorum; nothing is skipped and
  nothing unacknowledged is committed. Any other replica is left unchanged.
\<close>
theorem commit_advances_over_quorum_run:
  assumes "length (st_log (r_state r)) < 2 ^ 64"
  shows "(\<not> is_primary (r_state r) \<longrightarrow> advance_primary_commit_number r = r) \<and>
     (is_primary (r_state r) \<longrightarrow>
       (\<exists>k. st_commit (r_state (advance_primary_commit_number r)) = st_commit (r_state r) + of_nat k \<and>
          (\<forall>j<k. \<exists>e. om_find (st_log (r_state r)) (st_commit (r_state r) + of_nat (Suc j)) = Some e \<and>
             quorum (r_state r) \<le> card (le_prepare_ok_acks e)) \<and>
          (\<forall>e. om_find (st_log (r_state r)) (st_commit (r_state r) + of_nat (Suc k)) = Some e \<longrightarrow>
             card (le_prepare_ok_acks e) < quorum (r_state r))))"
proof (cases "is_primary (r_state r)")
  case False
  then show ?thesis by (simp add: advance_primary_commit_number_def)
next
  case True
  let ?s = "r_state r" and ?n = "Suc (length (st_log (r_state r)))"
  obtain k where k: "st_commit (advance_loop ?n ?s) = st_commit ?s + of_nat k"
    "\<forall>j<k. can_commit_next (?s\<lparr>st_commit := st_commit ?s + of_nat j\<rparr>)"
    using advance_loop_rounds [of ?n ?s] by blast
  have stop: "\<not> can_commit_next (?s\<lparr>st_commit := st_commit ?s + of_nat k\<rparr>)"
    using advance_loop_stops [OF assms] advance_loop_frame [of ?n ?s] k(1) by simp
  have key: "st_commit ?s + of_nat j + 1 = st_commit ?s + of_nat (Suc j)" for j
    by simp
  have "st_commit (r_state (advance_primary_commit_number r)) = st_commit ?s + of_nat k"
    using True k(1) by (simp add: advance_primary_commit_number_def del: advance_loop.simps)
  then show ?thesis
    using True k(2) stop unfolding can_commit_next_iff key by (metis not_less)
qed

theorem commit_advances_over_quorum_run_witness:
  "st_commit (r_state (advance_primary_commit_number (set_commit 0 sample_primary))) = 1"
proof -
  let ?r = "set_commit 0 sample_primary"
  have f: "st_f (r_state ?r) = 1"
    by (simp add: sample_primary_def new_replica_def new_ReplicaState_def server_cluster_config_def
        fault_tolerance_eq)
  have q: "quorum (r_state ?r) = 2"
    using f by (subst quorum_eq) simp_all
  have log: "st_log (r_state ?r) = [(1, sample_entry)]" and prim: "is_primary (r_state ?r)"
    by (simp_all add: sample_primary_def new_replica_def new_ReplicaState_def is_primary_def
        get_primary_id_def)
  have "\<exists>k. st_commit (r_state (advance_primary_commit_number ?r)) = 0 + of_nat k \<and>
      (\<forall>j<k. \<exists>e. om_find [(1 :: u64, sample_entry)] (0 + of_nat (Suc j)) = Some e \<and>
        2 \<le> card (le_prepare_ok_acks e)) \<and>
      (\<forall>e. om_find [(1 :: u64, sample_entry)] (0 + of_nat (Suc k)) = Some e \<longrightarrow>
        card (le_prepare_ok_acks e) < 2)"
    using commit_advances_over_quorum_run [of ?r] prim by (simp add: log [simplified] q [simplified] del: of_nat_Suc)
  then obtain k where k: "st_commit (r_state (advance_primary_commit_number ?r)) = of_nat k"
    "\<forall>j<k. \<exists>e. om_find [(1 :: u64, sample_entry)] (of_nat (Suc j)) = Some e"
    "\<forall>e. om_find [(1 :: u64, sample_entry)] (of_nat (Suc k)) = Some e \<longrightarrow>
       card (le_prepare_ok_acks e) < 2"
    unfolding add_0 by blast
  have "k \<noteq> 0"
  proof
    assume "k = 0"
    with k(3) show False by (simp add: om_find_def sample_entry_def)
  qed
  moreover have "k < 2"
    using k(2) by (rule contrapos_pp) (auto simp: om_find_def intro!: exI [of _ 1])
  ultimately have "k = 1" by simp
  with k(1) show ?thesis by simp
qed

end
