(* ===== verification/Replica_Normal.thy ===== *)
theory Replica_Normal
  imports Replica_Exec
begin

text \<open>
  Normal operation in \<open>src/server/replica.cpp\<close>: ping, client requests, Prepare, PrepareOk,
  Commit and the primary's heartbeat, with the guards that admit these messages.

  What a handler reads from its surroundings is its \<open>environment\<close>: the steady clock (in
  nanoseconds), the raw monotonic clock used for nonces, and the value found in the
  uninitialised \<open>last_normal_view\<close> of a freshly declared DoViewChange payload.
\<close>

record environment =
  env_now :: int
  env_tv_sec :: int
  env_tv_nsec :: int
  env_junk :: u32

abbreviation in_header :: "inbound_message \<Rightarrow> vsr_header" where
  "in_header inbound \<equiv> msg_header (in_message inbound)"

abbreviation in_payload :: "inbound_message \<Rightarrow> byte list" where
  "in_payload inbound \<equiv> msg_payload (in_message inbound)"

definition message_with :: "vsr_header \<Rightarrow> byte list \<Rightarrow> vsr_message" where
  "message_with h payload = \<lparr>msg_header = h, msg_payload = payload\<rparr>"

section \<open>Guards\<close>

definition check_can_process_request :: "ReplicaState \<Rightarrow> vsr_message \<Rightarrow> bool" where
  "check_can_process_request s msg \<longleftrightarrow> st_status s = NORMAL \<and> is_primary s"

definition check_can_process_prepare :: "ReplicaState \<Rightarrow> vsr_message \<Rightarrow> bool" where
  "check_can_process_prepare s msg \<longleftrightarrow>
     st_status s = NORMAL \<and> \<not> is_primary s \<and>
     h_view (msg_header msg) = st_view s \<and> h_op (msg_header msg) = st_op s + 1"

definition check_can_process_prepare_ok :: "ReplicaState \<Rightarrow> vsr_message \<Rightarrow> bool" where
  "check_can_process_prepare_ok s msg \<longleftrightarrow>
     st_status s = NORMAL \<and> is_primary s \<and> h_view (msg_header msg) = st_view s"

definition check_can_process_commit :: "ReplicaState \<Rightarrow> vsr_message \<Rightarrow> bool" where
  "check_can_process_commit s msg \<longleftrightarrow>
     st_status s = NORMAL \<and> \<not> is_primary s \<and> h_view (msg_header msg) = st_view s"

section \<open>Normal operation\<close>

definition handle_ping :: "inbound_message \<Rightarrow> replica \<Rightarrow> replica" where
  "handle_ping inbound r =
     (let s = r_state r;
          pong = zero_header\<lparr>h_command := command_pong, h_view := st_view s,
                   h_replica := word_of_int (st_id s),
                   h_client := h_client (in_header inbound),
                   h_request := h_request (in_header inbound)\<rparr>
      in emit (Send_message (in_connection inbound) (message_with pong [])) r)"

definition cached_reply :: "inbound_message \<Rightarrow> byte list \<Rightarrow> vsr_message" where
  "cached_reply inbound result =
     message_with (zero_header\<lparr>h_command := command_reply, h_client := h_client (in_header inbound),
       h_request := h_request (in_header inbound)\<rparr>) result"

definition prepare_message :: "inbound_message \<Rightarrow> ReplicaState \<Rightarrow> vsr_message" where
  "prepare_message inbound s =
     message_with (zero_header\<lparr>h_command := command_prepare,
       h_operation := h_operation (in_header inbound), h_replica := word_of_int (st_id s),
       h_client := h_client (in_header inbound), h_request := h_request (in_header inbound),
       h_view := st_view s, h_op := st_op s, h_commit := st_commit s\<rparr>) (in_payload inbound)"

definition handle_request :: "inbound_message \<Rightarrow> replica \<Rightarrow> replica" where
  "handle_request inbound r =
     (let h = in_header inbound;
          client = h_client h;
          client_entry = om_index new_client_table_entry (st_client_table (r_state r)) client;
          r0 = set_state (\<lambda>s. s\<lparr>st_client_table := om_assign client client_entry (st_client_table s)\<rparr>) r
      in if ct_request_number client_entry > h_request h then r0
         else if ct_request_number client_entry = h_request h then
           emit (Send_message (in_connection inbound) (cached_reply inbound (ct_result client_entry))) r0
         else
           let r1 = r0\<lparr>r_client_connections :=
                      om_assign client (in_connection inbound) (r_client_connections r0)\<rparr>;
               s = r_state r1;
               op = st_op s + 1;
               entry = \<lparr>le_view = st_view s, le_op_type = h_operation h, le_client_id = client,
                        le_request_num = h_request h, le_payload = in_payload inbound,
                        le_prepare_ok_acks = {st_id s}\<rparr>;
               client_entry' = \<lparr>ct_request_number = h_request h, ct_executed = False, ct_result = []\<rparr>;
               s' = s\<lparr>st_op := op, st_log := om_assign op entry (st_log s),
                      st_client_table := om_assign client client_entry' (st_client_table s)\<rparr>
           in emit (Broadcast_to_peers (prepare_message inbound s')) (r1\<lparr>r_state := s'\<rparr>))"

definition prepare_ok_message :: "ReplicaState \<Rightarrow> u64 \<Rightarrow> vsr_message" where
  "prepare_ok_message s op =
     message_with (zero_header\<lparr>h_command := command_prepare_ok, h_view := st_view s, h_op := op,
       h_replica := word_of_int (st_id s)\<rparr>) []"

definition learn_commit :: "u64 \<Rightarrow> replica \<Rightarrow> replica" where
  "learn_commit c r =
     (if c > st_commit (r_state r)
      then execute_commited_ops (set_state (\<lambda>s. s\<lparr>st_commit := c\<rparr>) r)
      else r)"

definition handle_prepare :: "environment \<Rightarrow> inbound_message \<Rightarrow> replica \<Rightarrow> replica" where
  "handle_prepare env inbound r =
     (let h = in_header inbound;
          r0 = r\<lparr>r_last_primary_contact := env_now env\<rparr>;
          s = r_state r0;
          op = st_op s + 1;
          entry = \<lparr>le_view = st_view s, le_op_type = h_operation h, le_client_id = h_client h,
                   le_request_num = h_request h, le_payload = in_payload inbound,
                   le_prepare_ok_acks = {}\<rparr>;
          client_entry = \<lparr>ct_request_number = h_request h, ct_executed = False, ct_result = []\<rparr>;
          s' = s\<lparr>st_op := op, st_log := om_assign op entry (st_log s),
                 st_client_table := om_assign (h_client h) client_entry (st_client_table s)\<rparr>;
          r1 = emit (Send_message (in_connection inbound) (prepare_ok_message s' op)) (r0\<lparr>r_state := s'\<rparr>)
      in learn_commit (h_commit h) r1)"

definition handle_prepare_ok :: "inbound_message \<Rightarrow> replica \<Rightarrow> replica" where
  "handle_prepare_ok inbound r =
     (let op_num = h_op (in_header inbound);
          backup_id = uint (h_replica (in_header inbound));
          s = r_state r
      in case om_find (st_log s) op_num of
           None \<Rightarrow> r
         | Some entry \<Rightarrow>
             advance_primary_commit_number (r\<lparr>r_state := s\<lparr>st_log := om_assign op_num
               (entry\<lparr>le_prepare_ok_acks := insert backup_id (le_prepare_ok_acks entry)\<rparr>) (st_log s)\<rparr>\<rparr>))"

definition handle_commit :: "environment \<Rightarrow> inbound_message \<Rightarrow> replica \<Rightarrow> replica" where
  "handle_commit env inbound r =
     learn_commit (h_commit (in_header inbound)) (r\<lparr>r_last_primary_contact := env_now env\<rparr>)"

definition send_commit_message_if_needed :: "replica \<Rightarrow> replica" where
  "send_commit_message_if_needed r =
     (let s = r_state r
      in if \<not> is_primary s \<or> st_status s \<noteq> NORMAL then r
         else emit (Broadcast_to_peers (message_with (zero_header\<lparr>h_command := command_commit,
                h_view := st_view s, h_commit := st_commit s\<rparr>) [])) r)"

section \<open>Normal operation: lemmas\<close>

lemma learn_commit_simps [simp]:
  "st_op (r_state (learn_commit c r)) = st_op (r_state r)"
  "st_log (r_state (learn_commit c r)) = st_log (r_state r)"
  "st_view (r_state (learn_commit c r)) = st_view (r_state r)"
  "st_status (r_state (learn_commit c r)) = st_status (r_state r)"
  "st_id (r_state (learn_commit c r)) = st_id (r_state r)"
  "st_f (r_state (learn_commit c r)) = st_f (r_state r)"
  "st_cluster_config (r_state (learn_commit c r)) = st_cluster_config (r_state r)"
  "r_message_queue (learn_commit c r) = r_message_queue r"
  "r_client_connections (learn_commit c r) = r_client_connections r"
  "r_last_primary_contact (learn_commit c r) = r_last_primary_contact r"
  "r_nonce_counter (learn_commit c r) = r_nonce_counter r"
  by (simp_all add: learn_commit_def)

lemma learn_commit_commit [simp]:
  "st_commit (r_state (learn_commit c r)) = max c (st_commit (r_state r))"
  by (auto simp: learn_commit_def max_def)

lemma message_with_simps [simp]:
  "msg_header (message_with h p) = h" "msg_payload (message_with h p) = p"
  by (simp_all add: message_with_def)

lemma handle_request_repeated:
  assumes "om_index new_client_table_entry (st_client_table (r_state r)) (h_client (in_header inbound)) = ce"
    and "ct_request_number ce = h_request (in_header inbound)"
  shows "handle_request inbound r =
     emit (Send_message (in_connection inbound) (cached_reply inbound (ct_result ce)))
       (set_state (\<lambda>s. s\<lparr>st_client_table := om_assign (h_client (in_header inbound)) ce (st_client_table s)\<rparr>) r)"
  using assms by (simp add: handle_request_def Let_def)

section \<open>Properties of normal operation\<close>

text \<open>
  What \<open>handle_request\<close> does with a request, by the last request number recorded for its
  client (0 for an unknown client). Smaller: ignored, nothing is sent. Equal: the recorded
  result is sent back on the connection. Larger: the request becomes the entry of the next op
  number, acknowledged by the primary itself, its client's session is opened, its connection is
  remembered, and exactly one Prepare carrying that op number is broadcast.
\<close>
theorem request_handling:
  fixes inbound :: inbound_message and r :: replica
  defines "h \<equiv> in_header inbound"
  defines "s \<equiv> r_state r"
  defines "ce \<equiv> om_index new_client_table_entry (st_client_table s) (h_client h)"
  defines "r' \<equiv> handle_request inbound r"
  shows "(h_request h < ct_request_number ce \<longrightarrow>
        st_log (r_state r') = st_log s \<and> st_op (r_state r') = st_op s \<and> r_outbox r' = r_outbox r) \<and>
     (h_request h = ct_request_number ce \<longrightarrow>
        st_log (r_state r') = st_log s \<and> st_op (r_state r') = st_op s \<and>
        r_outbox r' = r_outbox r @ [Send_message (in_connection inbound) (cached_reply inbound (ct_result ce))]) \<and>
     (h_request h > ct_request_number ce \<longrightarrow>
        st_op (r_state r') = st_op s + 1 \<and>
        om_find (st_log (r_state r')) = (om_find (st_log s))(st_op s + 1 \<mapsto>
          \<lparr>le_view = st_view s, le_op_type = h_operation h, le_client_id = h_client h,
           le_request_num = h_request h, le_payload = in_payload inbound,
           le_prepare_ok_acks = {st_id s}\<rparr>) \<and>
        om_find (st_client_table (r_state r')) (h_client h) =
          Some \<lparr>ct_request_number = h_request h, ct_executed = False, ct_result = []\<rparr> \<and>
        om_find (r_client_connections r') (h_client h) = Some (in_connection inbound) \<and>
        r_outbox r' = r_outbox r @ [Broadcast_to_peers (prepare_message inbound (s\<lparr>st_op := st_op s + 1\<rparr>))]) \<and>
     st_view (r_state r') = st_view s \<and> st_status (r_state r') = st_status s \<and>
     st_commit (r_state r') = st_commit s \<and> st_state_machine (r_state r') = st_state_machine s"
  unfolding h_def s_def ce_def r'_def
  by (auto simp: handle_request_def Let_def prepare_message_def)

theorem request_handling_witness:
  "st_op (r_state (handle_request
     \<lparr>in_connection = Some 5, in_message = message_with (zero_header\<lparr>h_request := 1\<rparr>) [107]\<rparr>
     (new_replica 0 server_cluster_config))) = 1"
  using request_handling [of "\<lparr>in_connection = Some 5,
      in_message = message_with (zero_header\<lparr>h_request := 1\<rparr>) [107]\<rparr>" "new_replica 0 server_cluster_config"]
  by (simp add: new_replica_def new_ReplicaState_def om_index_def new_client_table_entry_def)

text \<open>
  A client that repeats a request before it has been executed is answered at once: the
  primary sends it a Reply with an empty payload and leaves the log alone, although the
  operation has produced no result yet.
\<close>
theorem repeated_request_answered_before_execution:
  fixes inbound again :: inbound_message and r :: replica
  assumes "ct_request_number (om_index new_client_table_entry (st_client_table (r_state r))
      (h_client (in_header inbound))) < h_request (in_header inbound)"
    and "h_client (in_header again) = h_client (in_header inbound)"
    and "h_request (in_header again) = h_request (in_header inbound)"
  defines "r' \<equiv> handle_request inbound r"
  shows "r_outbox (handle_request again r') =
      r_outbox r' @ [Send_message (in_connection again) (cached_reply again [])] \<and>
     st_log (r_state (handle_request again r')) = st_log (r_state r') \<and>
     st_last_executed_op (r_state r') = st_last_executed_op (r_state r)"
proof -
  have "om_index new_client_table_entry (st_client_table (r_state r')) (h_client (in_header again)) =
      \<lparr>ct_request_number = h_request (in_header again), ct_executed = False, ct_result = []\<rparr>"
    using assms(1-3) by (auto simp: r'_def handle_request_def Let_def om_index_def)
  moreover have "st_last_executed_op (r_state r') = st_last_executed_op (r_state r)"
    by (simp add: r'_def handle_request_def Let_def)
  ultimately show ?thesis
    by (simp add: handle_request_repeated)
qed

theorem repeated_request_answered_before_execution_witness:
  "r_outbox (handle_request
     \<lparr>in_connection = Some 6, in_message = message_with (zero_header\<lparr>h_request := 1\<rparr>) []\<rparr>
     (handle_request
       \<lparr>in_connection = Some 5, in_message = message_with (zero_header\<lparr>h_request := 1\<rparr>) [107]\<rparr>
       (new_replica 0 server_cluster_config))) =
   r_outbox (handle_request
       \<lparr>in_connection = Some 5, in_message = message_with (zero_header\<lparr>h_request := 1\<rparr>) [107]\<rparr>
       (new_replica 0 server_cluster_config)) @
     [Send_message (Some 6) (message_with (zero_header\<lparr>h_command := command_reply, h_request := 1\<rparr>) [])]"
  using repeated_request_answered_before_execution
    [of "new_replica 0 server_cluster_config"
      "\<lparr>in_connection = Some 5, in_message = message_with (zero_header\<lparr>h_request := 1\<rparr>) [107]\<rparr>"
      "\<lparr>in_connection = Some 6, in_message = message_with (zero_header\<lparr>h_request := 1\<rparr>) []\<rparr>"]
  by (simp add: new_replica_def new_ReplicaState_def om_index_def new_client_table_entry_def
      cached_reply_def zero_header_def)

section \<open>Replication of a request\<close>

lemma is_primary_frame [simp]:
  "is_primary (s\<lparr>st_op := a\<rparr>) = is_primary s"
  "is_primary (s\<lparr>st_log := b\<rparr>) = is_primary s"
  "is_primary (s\<lparr>st_client_table := c\<rparr>) = is_primary s"
  "is_primary (s\<lparr>st_commit := d\<rparr>) = is_primary s"
  "is_primary (s\<lparr>st_status := e\<rparr>) = is_primary s"
  "is_primary (s\<lparr>st_last_executed_op := f\<rparr>) = is_primary s"
  "is_primary (s\<lparr>st_do_view_change_received := g\<rparr>) = is_primary s"
  "is_primary (s\<lparr>st_start_view_change_received := h\<rparr>) = is_primary s"
  by (simp_all add: is_primary_def get_primary_id_def)

lemma quorum_frame [simp]:
  "quorum (s\<lparr>st_op := a\<rparr>) = quorum s"
  "quorum (s\<lparr>st_log := b\<rparr>) = quorum s"
  "quorum (s\<lparr>st_client_table := c\<rparr>) = quorum s"
  "quorum (s\<lparr>st_status := e\<rparr>) = quorum s"
  "quorum (s\<lparr>st_last_executed_op := f\<rparr>) = quorum s"
  "quorum (s\<lparr>st_do_view_change_received := g\<rparr>) = quorum s"
  "quorum (s\<lparr>st_start_view_change_received := h\<rparr>) = quorum s"
  "quorum (s\<lparr>st_recovery_responses := i\<rparr>) = quorum s"
  by (simp_all add: quorum_def)

lemma learn_commit_backup_silent:
  "\<not> is_primary (r_state r) \<Longrightarrow> r_outbox (learn_commit c r) = r_outbox r"
  by (simp add: learn_commit_def execute_backup_silent)

lemma handle_prepare_effect:
  fixes inbound :: inbound_message
  defines "h \<equiv> in_header inbound"
  shows "st_op (r_state (handle_prepare env inbound r)) = st_op (r_state r) + 1"
    and "st_log (r_state (handle_prepare env inbound r)) = om_assign (st_op (r_state r) + 1)
      \<lparr>le_view = st_view (r_state r), le_op_type = h_operation h, le_client_id = h_client h,
       le_request_num = h_request h, le_payload = in_payload inbound, le_prepare_ok_acks = {}\<rparr>
      (st_log (r_state r))"
    and "st_commit (r_state (handle_prepare env inbound r)) = max (h_commit h) (st_commit (r_state r))"
    and "st_view (r_state (handle_prepare env inbound r)) = st_view (r_state r)"
    and "st_status (r_state (handle_prepare env inbound r)) = st_status (r_state r)"
    and "\<not> is_primary (r_state r) \<Longrightarrow> r_outbox (handle_prepare env inbound r) = r_outbox r @
      [Send_message (in_connection inbound) (prepare_ok_message (r_state r) (st_op (r_state r) + 1))]"
  by (simp_all add: handle_prepare_def Let_def h_def learn_commit_backup_silent prepare_ok_message_def)

text \<open>
  The Prepare that the primary broadcasts for an accepted request is admitted by every
  in-sync backup (same view, normal status, same op number before the request), and handling it
  appends to the backup's log, under the op number the primary chose, an entry for the same
  request and view; every other entry stays, and the backup answers with exactly one PrepareOk
  for that op number and view.
\<close>
theorem prepare_replicates_request:
  fixes inbound :: inbound_message and p b :: replica and env :: environment
    and c :: "connection option"
  defines "p' \<equiv> handle_request inbound p"
  defines "m \<equiv> prepare_message inbound (r_state p')"
  defines "b' \<equiv> handle_prepare env \<lparr>in_connection = c, in_message = m\<rparr> b"
  assumes new: "ct_request_number (om_index new_client_table_entry (st_client_table (r_state p))
      (h_client (in_header inbound))) < h_request (in_header inbound)"
    and sync: "st_op (r_state b) = st_op (r_state p)" "st_view (r_state b) = st_view (r_state p)"
    and backup: "st_status (r_state b) = NORMAL" "\<not> is_primary (r_state b)"
  shows "last (r_outbox p') = Broadcast_to_peers m \<and>
     check_can_process_prepare (r_state b) m \<and>
     st_op (r_state b') = st_op (r_state p') \<and>
     (\<exists>e e'. om_find (st_log (r_state p')) (st_op (r_state p')) = Some e \<and>
        om_find (st_log (r_state b')) = (om_find (st_log (r_state b)))(st_op (r_state p') \<mapsto> e') \<and>
        same_request e e' \<and> le_view e = le_view e') \<and>
     r_outbox b' = r_outbox b @
       [Send_message c (prepare_ok_message (r_state b) (st_op (r_state p')))]"
proof -
  have op: "st_op (r_state p') = st_op (r_state p) + 1"
    and out: "last (r_outbox p') = Broadcast_to_peers m"
    and log: "om_find (st_log (r_state p')) (st_op (r_state p')) = Some
      \<lparr>le_view = st_view (r_state p), le_op_type = h_operation (in_header inbound),
       le_client_id = h_client (in_header inbound), le_request_num = h_request (in_header inbound),
       le_payload = in_payload inbound, le_prepare_ok_acks = {st_id (r_state p)}\<rparr>"
    and view: "st_view (r_state p') = st_view (r_state p)"
    using new by (auto simp: p'_def m_def handle_request_def Let_def)
  have "check_can_process_prepare (r_state b) m"
    using backup sync by (simp add: check_can_process_prepare_def m_def prepare_message_def op view)
  moreover have "\<exists>e'. om_find (st_log (r_state b')) = (om_find (st_log (r_state b)))(st_op (r_state p') \<mapsto> e') \<and>
      le_op_type e' = h_operation (in_header inbound) \<and> le_client_id e' = h_client (in_header inbound) \<and>
      le_request_num e' = h_request (in_header inbound) \<and> le_payload e' = in_payload inbound \<and>
      le_view e' = st_view (r_state p)"
    by (rule exI [of _ "\<lparr>le_view = st_view (r_state p), le_op_type = h_operation (in_header inbound),
        le_client_id = h_client (in_header inbound), le_request_num = h_request (in_header inbound),
        le_payload = in_payload inbound, le_prepare_ok_acks = {}\<rparr>"])
      (simp add: b'_def handle_prepare_effect m_def prepare_message_def op sync)
  ultimately show ?thesis
    using out log backup sync
    by (auto simp: b'_def handle_prepare_effect op same_request_def)
qed

theorem prepare_replicates_request_witness:
  "st_op (r_state (handle_prepare \<lparr>env_now = 0, env_tv_sec = 0, env_tv_nsec = 0, env_junk = 0\<rparr>
     \<lparr>in_connection = Some 3, in_message = prepare_message
        \<lparr>in_connection = Some 5, in_message = message_with (zero_header\<lparr>h_request := 1\<rparr>) [107]\<rparr>
        (r_state (handle_request
          \<lparr>in_connection = Some 5, in_message = message_with (zero_header\<lparr>h_request := 1\<rparr>) [107]\<rparr>
          (new_replica 0 server_cluster_config)))\<rparr>
     (new_replica 1 server_cluster_config))) =
   st_op (r_state (handle_request
          \<lparr>in_connection = Some 5, in_message = message_with (zero_header\<lparr>h_request := 1\<rparr>) [107]\<rparr>
          (new_replica 0 server_cluster_config)))"
  by (rule prepare_replicates_request [THEN conjunct2, THEN conjunct2, THEN conjunct1])
    (simp_all add: new_replica_def new_ReplicaState_def om_index_def new_client_table_entry_def
      is_primary_def get_primary_id_def)

end
