(* ===== verification/Replica_View_Change.thy ===== *)
theory Replica_View_Change
  imports Replica_Normal
begin

text \<open>
  The view change in \<open>src/server/replica.cpp\<close>: StartViewChange, DoViewChange with the selection
  of the log, StartView, and the guards that admit these messages.
\<close>

section \<open>Guards\<close>

definition check_can_process_start_view_change :: "ReplicaState \<Rightarrow> vsr_message \<Rightarrow> bool" where
  "check_can_process_start_view_change s msg \<longleftrightarrow>
     h_view (msg_header msg) = st_view s \<and> st_status s = VIEW_CHANGE"

definition check_can_process_do_view_change :: "ReplicaState \<Rightarrow> vsr_message \<Rightarrow> bool" where
  "check_can_process_do_view_change s msg =
     (if h_view (msg_header msg) \<noteq> st_view s then False
      else if st_status s \<noteq> VIEW_CHANGE then False
      else if get_primary_id_for_view (st_view s) s \<noteq> st_id s then False
      else True)"

definition check_can_process_start_view :: "ReplicaState \<Rightarrow> vsr_message \<Rightarrow> bool" where
  "check_can_process_start_view s msg =
     (if h_view (msg_header msg) \<noteq> st_view s then False
      else if st_status s \<noteq> VIEW_CHANGE then False
      else if uint (h_replica (msg_header msg)) \<noteq> get_primary_id_for_view (st_view s) s then False
      else True)"

section \<open>Handlers\<close>

definition initiate_view_change :: "replica \<Rightarrow> replica" where
  "initiate_view_change r =
     (let s = enter_new_view (st_view (r_state r) + 1) (r_state r)
      in emit (Broadcast_to_peers (message_with (zero_header\<lparr>h_command := command_start_view_change,
           h_view := st_view s, h_replica := word_of_int (st_id s)\<rparr>) [])) (r\<lparr>r_state := s\<rparr>))"

text \<open>
  Selecting the log: the loop over the received messages carries the best payload, its op
  number and the highest commit number. The first message is taken without looking at the
  verdict of its deserialization; later ones count only if they deserialize.
\<close>

type_synonym selection = "do_view_change_payload \<times> u64 \<times> u64"

definition select_first :: "u32 \<Rightarrow> u64 \<Rightarrow> vsr_message \<Rightarrow> selection" where
  "select_first junk commit m =
     (snd (do_view_change_deserialize (msg_payload m) \<lparr>dvc_last_normal_view = junk, dvc_log = []\<rparr>),
      h_op (msg_header m),
      max commit (h_commit (msg_header m)))"

definition select_next :: "u32 \<Rightarrow> vsr_message \<Rightarrow> selection \<Rightarrow> selection" where
  "select_next junk m = (\<lambda>(best_payload, best_op, max_commit).
     case do_view_change_deserialize (msg_payload m) \<lparr>dvc_last_normal_view = junk, dvc_log = []\<rparr> of
       (True, current_payload) \<Rightarrow>
         let (best_payload', best_op') =
               (if dvc_last_normal_view current_payload > dvc_last_normal_view best_payload
                then (current_payload, h_op (msg_header m))
                else if dvc_last_normal_view current_payload = dvc_last_normal_view best_payload \<and>
                        h_op (msg_header m) > best_op
                then (current_payload, h_op (msg_header m))
                else (best_payload, best_op))
         in (best_payload', best_op', max max_commit (h_commit (msg_header m)))
     | (False, _) \<Rightarrow> (best_payload, best_op, max_commit))"

definition start_view_message :: "ReplicaState \<Rightarrow> vsr_message" where
  "start_view_message s =
     message_with (zero_header\<lparr>h_command := command_start_view, h_view := st_view s,
       h_op := st_op s, h_commit := st_commit s, h_replica := word_of_int (st_id s)\<rparr>)
       (start_view_serialize \<lparr>sv_log = st_log s\<rparr>)"

definition handle_do_view_change :: "environment \<Rightarrow> inbound_message \<Rightarrow> replica \<Rightarrow> replica" where
  "handle_do_view_change env inbound r =
     (let s = r_state r;
          received = st_do_view_change_received s @ [in_message inbound];
          s1 = s\<lparr>st_do_view_change_received := received\<rparr>
      in if length received \<ge> quorum s1 then
           let s2 = s1\<lparr>st_do_view_change_received := []\<rparr>;
               (best_payload, best_op, max_commit) =
                 fold (select_next (env_junk env)) (tl received)
                   (select_first (env_junk env) (st_commit s2) (hd received));
               s3 = s2\<lparr>st_log := dvc_log best_payload, st_op := best_op, st_commit := max_commit,
                       st_status := NORMAL\<rparr>
           in execute_commited_ops
                (emit (Broadcast_to_peers (start_view_message s3)) (r\<lparr>r_state := s3\<rparr>))
         else r\<lparr>r_state := s1\<rparr>)"

definition do_view_change_message :: "ReplicaState \<Rightarrow> vsr_message" where
  "do_view_change_message s =
     message_with (zero_header\<lparr>h_command := command_do_view_change, h_view := st_view s,
       h_op := st_op s, h_commit := st_commit s, h_replica := word_of_int (st_id s)\<rparr>)
       (do_view_change_serialize
         \<lparr>dvc_last_normal_view = st_last_normal_view s, dvc_log = st_log s\<rparr>)"

definition handle_start_view_change :: "environment \<Rightarrow> inbound_message \<Rightarrow> replica \<Rightarrow> replica" where
  "handle_start_view_change env inbound r =
     (let s = r_state r;
          s1 = s\<lparr>st_start_view_change_received :=
                  insert (uint (h_replica (in_header inbound))) (st_start_view_change_received s)\<rparr>
      in if card (st_start_view_change_received s1) \<ge> quorum s1 then
           let s2 = s1\<lparr>st_start_view_change_received := {}\<rparr>;
               msg = do_view_change_message s2;
               new_primary_id = get_primary_id_for_view (st_view s2) s2;
               r2 = r\<lparr>r_state := s2\<rparr>
           in if new_primary_id = st_id s2
              then handle_do_view_change env \<lparr>in_connection = None, in_message = msg\<rparr> r2
              else emit (Send_to_peer new_primary_id msg) r2
         else r\<lparr>r_state := s1\<rparr>)"

text \<open>The loop that raises the request numbers of the client table to those of an adopted log.\<close>

definition raise_request_number ::
    "u64 \<times> log_entry \<Rightarrow> (uint128_t, client_table_entry) omap \<Rightarrow> (uint128_t, client_table_entry) omap" where
  "raise_request_number = (\<lambda>(op_num, entry) table.
     let client_entry = om_index new_client_table_entry table (le_client_id entry)
     in om_assign (le_client_id entry)
          (if le_request_num entry > ct_request_number client_entry
           then client_entry\<lparr>ct_request_number := le_request_num entry, ct_executed := False\<rparr>
           else client_entry) table)"

text \<open>
  The loop that acknowledges the adopted, not yet committed ops. It runs while
  \<open>op_num <= op_\<close>; \<open>retroactive_loop_exits\<close> shows that the bound used below is enough
  unless \<open>op_\<close> is the largest 64-bit value, where the C++ loop has no exit.
\<close>

primrec retroactive_loop :: "nat \<Rightarrow> u64 \<Rightarrow> int \<Rightarrow> replica \<Rightarrow> replica" where
  "retroactive_loop 0 op_num primary_id r = r"
| "retroactive_loop (Suc rounds) op_num primary_id r =
     (if op_num \<le> st_op (r_state r) then
        retroactive_loop rounds (op_num + 1) primary_id
          (if om_find (st_log (r_state r)) op_num \<noteq> None
           then emit (Send_to_peer primary_id (prepare_ok_message (r_state r) op_num)) r
           else r)
      else r)"

definition handle_start_view :: "environment \<Rightarrow> inbound_message \<Rightarrow> replica \<Rightarrow> replica" where
  "handle_start_view env inbound r =
     (let h = in_header inbound
      in case start_view_deserialize (in_payload inbound) \<lparr>sv_log = []\<rparr> of
           (False, _) \<Rightarrow> r
         | (True, sv_payload) \<Rightarrow>
             let s = (r_state r)\<lparr>st_view := h_view h, st_op := h_op h, st_commit := h_commit h,
                       st_log := sv_log sv_payload, st_status := NORMAL\<rparr>;
                 s1 = s\<lparr>st_client_table := fold raise_request_number (st_log s) (st_client_table s)\<rparr>;
                 r2 = execute_commited_ops (r\<lparr>r_state := s1, r_last_primary_contact := env_now env\<rparr>)
             in retroactive_loop (unat (st_op (r_state r2)) + 2) (h_commit h + 1)
                  (get_primary_id (r_state r2)) r2)"

section \<open>Selecting the log\<close>

definition payload_of :: "u32 \<Rightarrow> vsr_message \<Rightarrow> do_view_change_payload" where
  "payload_of junk m =
     snd (do_view_change_deserialize (msg_payload m) \<lparr>dvc_last_normal_view = junk, dvc_log = []\<rparr>)"

definition payload_ok :: "u32 \<Rightarrow> vsr_message \<Rightarrow> bool" where
  "payload_ok junk m =
     fst (do_view_change_deserialize (msg_payload m) \<lparr>dvc_last_normal_view = junk, dvc_log = []\<rparr>)"

definition better_payload ::
    "do_view_change_payload \<times> u64 \<Rightarrow> do_view_change_payload \<times> u64 \<Rightarrow> do_view_change_payload \<times> u64" where
  "better_payload cur best =
     (if lex_less (dvc_last_normal_view (fst best), snd best) (dvc_last_normal_view (fst cur), snd cur)
      then cur else best)"

interpretation dvc: selector "\<lambda>po. (dvc_last_normal_view (fst po), snd po)" better_payload
  by unfold_locales (simp add: better_payload_def)

lemma select_next_eq:
  "select_next junk m (bp, bo, mc) =
     (if payload_ok junk m
      then (fst (better_payload (payload_of junk m, h_op (msg_header m)) (bp, bo)),
            snd (better_payload (payload_of junk m, h_op (msg_header m)) (bp, bo)),
            max mc (h_commit (msg_header m)))
      else (bp, bo, mc))"
proof (cases "do_view_change_deserialize (msg_payload m) \<lparr>dvc_last_normal_view = junk, dvc_log = []\<rparr>")
  case (Pair ok p)
  then show ?thesis
    by (cases ok) (simp_all add: select_next_def payload_ok_def payload_of_def better_payload_def
        lex_less_def Let_def split: if_splits)
qed

lemma fold_select_next:
  "fold (select_next junk) ms (bp, bo, mc) =
     (let po = fold better_payload
             (map (\<lambda>m. (payload_of junk m, h_op (msg_header m))) (filter (payload_ok junk) ms)) (bp, bo)
      in (fst po, snd po, fold max (map (\<lambda>m. h_commit (msg_header m)) (filter (payload_ok junk) ms)) mc))"
proof (induction ms arbitrary: bp bo mc)
  case (Cons m ms)
  show ?case
  proof (cases "payload_ok junk m")
    case True
    obtain bp' bo' where b: "better_payload (payload_of junk m, h_op (msg_header m)) (bp, bo) = (bp', bo')"
      by (metis prod.exhaust)
    with True show ?thesis
      by (simp add: Cons select_next_eq max.commute)
  next
    case False
    then show ?thesis by (simp add: Cons select_next_eq)
  qed
qed simp

text \<open>What a DoViewChange message of a replica deserializes to.\<close>

lemma payload_of_message:
  assumes "wf_log (st_log s)"
  shows "payload_ok junk (do_view_change_message s)"
    and "payload_of junk (do_view_change_message s) =
      \<lparr>dvc_last_normal_view = st_last_normal_view s, dvc_log = strip_log (st_log s)\<rparr>"
  using assms by (simp_all add: payload_ok_def payload_of_def do_view_change_message_def
      do_view_change_roundtrip)

lemma do_view_change_message_header [simp]:
  "h_op (msg_header (do_view_change_message s)) = st_op s"
  "h_commit (msg_header (do_view_change_message s)) = st_commit s"
  by (simp_all add: do_view_change_message_def)

lemma Max_insert_max:
  assumes "finite A"
  shows "Max (insert (max a b) A) = Max (insert a (insert (b :: 'a::linorder) A))"
  using assms by (cases "A = {}") (simp_all add: max.assoc)

lemma fold_max_Max: "fold max xs (x :: 'a::linorder) = Max (insert x (set xs))"
proof (induction xs arbitrary: x)
  case (Cons y xs)
  show ?case
    by (simp only: fold_simps Cons Max_insert_max [OF finite_set] list.set insert_commute)
qed simp

lemma select_from_messages:
  assumes "ms \<noteq> []" and "\<forall>m \<in> set ms. payload_ok junk m"
  shows "\<exists>m \<in> set ms. fold (select_next junk) (tl ms) (select_first junk c (hd ms)) =
       (payload_of junk m, h_op (msg_header m), Max (insert c ((\<lambda>m. h_commit (msg_header m)) ` set ms))) \<and>
     (\<forall>m' \<in> set ms. lex_le (dvc_last_normal_view (payload_of junk m'), h_op (msg_header m'))
        (dvc_last_normal_view (payload_of junk m), h_op (msg_header m)))"
proof -
  obtain m0 ms' where ms: "ms = m0 # ms'"
    using assms(1) by (cases ms) auto
  let ?po = "\<lambda>m. (payload_of junk m, h_op (msg_header m))"
  let ?best = "fold better_payload (map ?po ms') (?po m0)"
  have first: "select_first junk c m0 = (fst (?po m0), snd (?po m0), max c (h_commit (msg_header m0)))"
    by (simp add: select_first_def payload_of_def)
  have all: "filter (payload_ok junk) ms' = ms'"
    using assms(2) ms by (simp add: filter_id_conv)
  have "fold max (map (\<lambda>m. h_commit (msg_header m)) ms') (max c (h_commit (msg_header m0))) =
      Max (insert c ((\<lambda>m. h_commit (msg_header m)) ` set ms))"
    by (simp add: ms fold_max_Max Max_insert_max del: Max_insert)
  then have eq: "fold (select_next junk) (tl ms) (select_first junk c (hd ms)) =
      (fst ?best, snd ?best, Max (insert c ((\<lambda>m. h_commit (msg_header m)) ` set ms)))"
    unfolding ms list.sel first fold_select_next all by (simp add: Let_def)
  have "?best \<in> ?po ` set ms"
    using dvc.fold_pick_mem [of "map ?po ms'" "?po m0"] by (auto simp: ms)
  then obtain m where m: "m \<in> set ms" "?best = ?po m"
    by (rule imageE) blast
  have "lex_le (dvc_last_normal_view (payload_of junk m'), h_op (msg_header m'))
      (dvc_last_normal_view (payload_of junk m), h_op (msg_header m))" if "m' \<in> set ms" for m'
    using dvc.fold_pick_best [of "?po m'" "?po m0" "map ?po ms'"] that m(2) by (auto simp: ms)
  with m eq show ?thesis
    by (intro bexI [of _ m]) simp_all
qed

lemma select_from_states:
  assumes "\<forall>s \<in> set (s0 # ss). wf_log (st_log s)"
  shows "\<exists>s \<in> set (s0 # ss).
     fold (select_next junk) (map do_view_change_message ss)
       (select_first junk c (do_view_change_message s0)) =
     (\<lparr>dvc_last_normal_view = st_last_normal_view s, dvc_log = strip_log (st_log s)\<rparr>, st_op s,
      Max (insert c (st_commit ` set (s0 # ss)))) \<and>
     (\<forall>t \<in> set (s0 # ss). lex_le (st_last_normal_view t, st_op t) (st_last_normal_view s, st_op s))"
proof -
  let ?ms = "map do_view_change_message (s0 # ss)"
  have commits: "(\<lambda>m. h_commit (msg_header m)) ` set ?ms = st_commit ` set (s0 # ss)"
    by (simp add: image_image)
  have "?ms \<noteq> []" "\<forall>m \<in> set ?ms. payload_ok junk m"
    using assms payload_of_message(1) by auto
  from select_from_messages [OF this, of c, unfolded commits] obtain m where m: "m \<in> set ?ms"
    "fold (select_next junk) (tl ?ms) (select_first junk c (hd ?ms)) =
       (payload_of junk m, h_op (msg_header m), Max (insert c (st_commit ` set (s0 # ss))))"
    "\<forall>m' \<in> set ?ms. lex_le (dvc_last_normal_view (payload_of junk m'), h_op (msg_header m'))
        (dvc_last_normal_view (payload_of junk m), h_op (msg_header m))"
    by blast
  then obtain s where s: "s \<in> set (s0 # ss)" "m = do_view_change_message s"
    by auto
  moreover have "lex_le (st_last_normal_view t, st_op t) (st_last_normal_view s, st_op s)"
    if "t \<in> set (s0 # ss)" for t
    using m(3) that s assms payload_of_message(2) [of t junk] payload_of_message(2) [of s junk] by auto
  ultimately show ?thesis
    using m(2) assms payload_of_message(2) [of s junk] by (intro bexI [of _ s]) simp_all
qed

lemma om_find_strip_log [simp]: "om_find (strip_log log) k = map_option strip_acks (om_find log k)"
  by (simp add: om_find_def strip_log_def map_of_map)

lemma strip_log_acks: "om_find (strip_log log) k = Some e \<Longrightarrow> le_prepare_ok_acks e = {}"
  by (auto simp: strip_acks_def)

lemma same_request_strip_acks [simp]: "same_request (strip_acks e) e' = same_request e e'"
  by (simp add: same_request_def strip_acks_def)

section \<open>Becoming primary\<close>

lemma handle_do_view_change_complete:
  assumes received: "st_do_view_change_received (r_state r) @ [in_message inbound] =
      map do_view_change_message ss"
    and enough: "quorum (r_state r) \<le> length ss"
    and wf: "\<forall>s \<in> set ss. wf_log (st_log s)"
  shows "\<exists>s \<in> set ss.
     (\<forall>t \<in> set ss. lex_le (st_last_normal_view t, st_op t) (st_last_normal_view s, st_op s)) \<and>
     handle_do_view_change env inbound r =
       (let s' = (r_state r)\<lparr>st_do_view_change_received := [], st_log := strip_log (st_log s),
              st_op := st_op s, st_commit := Max (insert (st_commit (r_state r)) (st_commit ` set ss)),
              st_status := NORMAL\<rparr>
        in execute_commited_ops (emit (Broadcast_to_peers (start_view_message s')) (r\<lparr>r_state := s'\<rparr>)))"
proof -
  have "ss \<noteq> []"
    using received by auto
  then obtain s0 ss' where ss: "ss = s0 # ss'"
    by (cases ss) auto
  obtain s where "s \<in> set ss"
    "fold (select_next (env_junk env)) (map do_view_change_message ss')
       (select_first (env_junk env) (st_commit (r_state r)) (do_view_change_message s0)) =
     (\<lparr>dvc_last_normal_view = st_last_normal_view s, dvc_log = strip_log (st_log s)\<rparr>, st_op s,
      Max (insert (st_commit (r_state r)) (st_commit ` set ss)))"
    "\<forall>t \<in> set ss. lex_le (st_last_normal_view t, st_op t) (st_last_normal_view s, st_op s)"
    using select_from_states [of s0 ss' "env_junk env" "st_commit (r_state r)"] wf unfolding ss by blast
  moreover have "quorum (r_state r) \<le> Suc (length (st_do_view_change_received (r_state r)))"
    using enough arg_cong [OF received, of length] by simp
  ultimately show ?thesis
    by (intro bexI [of _ s]) (simp_all add: handle_do_view_change_def Let_def received ss)
qed

lemma start_view_message_cong [simp]:
  "start_view_message (r_state (execute_commited_ops r)) = start_view_message (r_state r)"
  by (simp add: start_view_message_def)

lemma exec_frame_outbox: "exec_frame r r' \<Longrightarrow> \<exists>acts. r_outbox r' = r_outbox r @ acts"
  by (auto simp: exec_frame_def)

text \<open>
  C15: when the \<open>f+1\<close>-st DoViewChange arrives, the new primary becomes NORMAL with the log and op
  number of a sender whose pair (last normal view, op number) is the largest, with the highest
  commit number known to it or to any sender; the log it adopts is that sender's, without the
  acknowledgements, which are not transmitted. It broadcasts one StartView for exactly this
  state and forgets the messages.
\<close>
theorem view_change_adopts_best_log:
  fixes r :: replica and ss :: "ReplicaState list" and env :: environment and inbound :: inbound_message
  assumes received: "st_do_view_change_received (r_state r) @ [in_message inbound] =
      map do_view_change_message ss"
    and enough: "quorum (r_state r) \<le> length ss"
    and wf: "\<forall>s \<in> set ss. wf_log (st_log s)"
  defines "r' \<equiv> handle_do_view_change env inbound r"
  shows "\<exists>s \<in> set ss.
     (\<forall>t \<in> set ss. lex_le (st_last_normal_view t, st_op t) (st_last_normal_view s, st_op s)) \<and>
     st_log (r_state r') = strip_log (st_log s) \<and> st_op (r_state r') = st_op s \<and>
     st_commit (r_state r') = Max (insert (st_commit (r_state r)) (st_commit ` set ss)) \<and>
     st_status (r_state r') = NORMAL \<and> st_view (r_state r') = st_view (r_state r) \<and>
     st_do_view_change_received (r_state r') = [] \<and>
     (\<exists>replies. r_outbox r' =
        r_outbox r @ Broadcast_to_peers (start_view_message (r_state r')) # replies)"
proof -
  obtain s where s: "s \<in> set ss"
    "\<forall>t \<in> set ss. lex_le (st_last_normal_view t, st_op t) (st_last_normal_view s, st_op s)"
    "r' = (let s' = (r_state r)\<lparr>st_do_view_change_received := [], st_log := strip_log (st_log s),
              st_op := st_op s, st_commit := Max (insert (st_commit (r_state r)) (st_commit ` set ss)),
              st_status := NORMAL\<rparr>
        in execute_commited_ops (emit (Broadcast_to_peers (start_view_message s')) (r\<lparr>r_state := s'\<rparr>)))"
    using handle_do_view_change_complete [OF received enough wf] unfolding r'_def by blast
  define s' where "s' = (r_state r)\<lparr>st_do_view_change_received := [], st_log := strip_log (st_log s),
      st_op := st_op s, st_commit := Max (insert (st_commit (r_state r)) (st_commit ` set ss)),
      st_status := NORMAL\<rparr>"
  define q where "q = emit (Broadcast_to_peers (start_view_message s')) (r\<lparr>r_state := s'\<rparr>)"
  have r': "r' = execute_commited_ops q"
    using s(3) by (simp add: q_def s'_def Let_def)
  obtain acts where "r_outbox r' = r_outbox q @ acts"
    using exec_frame_outbox [OF exec_frame_execute] r' by metis
  then have "r_outbox r' = r_outbox r @ Broadcast_to_peers (start_view_message (r_state r')) # acts"
    by (simp add: r' q_def)
  moreover have "st_log (r_state r') = strip_log (st_log s)" "st_op (r_state r') = st_op s"
    "st_commit (r_state r') = Max (insert (st_commit (r_state r)) (st_commit ` set ss))"
    "st_status (r_state r') = NORMAL" "st_view (r_state r') = st_view (r_state r)"
    "st_do_view_change_received (r_state r') = []"
    by (simp_all add: r' q_def s'_def)
  ultimately show ?thesis
    using s(1,2) by (intro bexI [of _ s] conjI exI [of _ acts])
qed

definition sample_sender :: ReplicaState where
  "sample_sender = (new_ReplicaState 2 server_cluster_config)\<lparr>st_status := VIEW_CHANGE, st_view := 1,
     st_op := 2, st_commit := 1, st_log := [(1, sample_entry), (2, sample_entry)]\<rparr>"

definition sample_candidate :: replica where
  "sample_candidate = (new_replica 1 server_cluster_config)\<lparr>r_state :=
     (new_ReplicaState 1 server_cluster_config)\<lparr>st_status := VIEW_CHANGE, st_view := 1,
       st_op := 1, st_commit := 1, st_log := [(1, sample_entry)]\<rparr>\<rparr>"

definition sample_candidate_waiting :: replica where
  "sample_candidate_waiting = set_state (\<lambda>s. s\<lparr>st_do_view_change_received :=
     [do_view_change_message s]\<rparr>) sample_candidate"

lemma sample_wf:
  "wf_log (st_log sample_sender)" "wf_log (st_log (r_state sample_candidate))"
  by (simp_all add: sample_sender_def sample_candidate_def wf_sample_log)
    (simp add: wf_log_def om_ok_def wf_entry_def sample_entry_def)

lemma sample_quorum: "quorum (r_state sample_candidate_waiting) = 2"
  by (simp add: sample_candidate_waiting_def sample_candidate_def quorum_def new_ReplicaState_def
      fault_tolerance_def server_cluster_config_def)

lemma sample_sender_simps:
  "st_op sample_sender = 2" "st_last_normal_view sample_sender = 0"
  "st_log sample_sender = [(1, sample_entry), (2, sample_entry)]"
  "st_op (r_state sample_candidate) = 1" "st_last_normal_view (r_state sample_candidate) = 0"
  "st_do_view_change_received (r_state sample_candidate_waiting) =
     [do_view_change_message (r_state sample_candidate)]"
  by (simp_all add: sample_sender_def sample_candidate_def sample_candidate_waiting_def new_ReplicaState_def)

lemma sample_cluster:
  "cluster_wf (r_state sample_candidate_waiting)"
  "length (st_cluster_config (r_state sample_candidate_waiting)) = 3"
  "om_keys (st_cluster_config (r_state sample_candidate_waiting)) = {0, 1, 2}"
  "st_id sample_sender = 2" "st_id (r_state sample_candidate) = 1"
  using server_cluster_wf [of 1]
  by (simp_all add: sample_candidate_waiting_def sample_candidate_def sample_sender_def cluster_wf_def
      new_ReplicaState_def server_cluster_config_def om_keys_def)

theorem view_change_adopts_best_log_witness:
  "st_log (r_state (handle_do_view_change \<lparr>env_now = 0, env_tv_sec = 0, env_tv_nsec = 0, env_junk = 0\<rparr>
     \<lparr>in_connection = Some 4, in_message = do_view_change_message sample_sender\<rparr>
     sample_candidate_waiting)) = strip_log [(1, sample_entry), (2, sample_entry)]"
  using view_change_adopts_best_log
    [of sample_candidate_waiting "\<lparr>in_connection = Some 4, in_message = do_view_change_message sample_sender\<rparr>"
      "[r_state sample_candidate, sample_sender]"
      "\<lparr>env_now = 0, env_tv_sec = 0, env_tv_nsec = 0, env_junk = 0\<rparr>"]
  by (auto simp: sample_wf wf_sample_log sample_quorum sample_sender_simps lex_le_def word_le_nat_alt)
text \<open>
  Committed operations survive the selection. Let an operation be acknowledged in view \<open>v\<close>
  by a quorum of a well-formed cluster of odd size, and let the DoViewChange messages come from
  distinct members, enough to complete the view change. If the acknowledging senders have kept
  the entry and were last normal in view \<open>v\<close> or later, if senders that were last normal after
  \<open>v\<close> hold the entry, and if logs of senders that were last normal in \<open>v\<close> agree up to the
  shorter op number, then the new primary's log holds an entry for the same request under the
  same op number.
\<close>
theorem committed_entry_survives_view_change:
  fixes r :: replica and ss :: "ReplicaState list" and env :: environment and inbound :: inbound_message
    and acks :: "int set" and v :: u32
  assumes received: "st_do_view_change_received (r_state r) @ [in_message inbound] =
      map do_view_change_message ss"
    and enough: "quorum (r_state r) \<le> length ss"
    and wf: "\<forall>s \<in> set ss. wf_log (st_log s)"
    and cluster: "cluster_wf (r_state r)" "odd (length (st_cluster_config (r_state r)))"
    and senders: "distinct (map st_id ss)" "st_id ` set ss \<subseteq> om_keys (st_cluster_config (r_state r))"
    and acked: "acks \<subseteq> om_keys (st_cluster_config (r_state r))" "quorum (r_state r) \<le> card acks"
    and kept: "\<forall>s \<in> set ss. st_id s \<in> acks \<longrightarrow> v \<le> st_last_normal_view s \<and> n \<le> st_op s \<and>
      (\<exists>e'. om_find (st_log s) n = Some e' \<and> same_request e' e)"
    and later: "\<forall>s \<in> set ss. v < st_last_normal_view s \<longrightarrow>
      (\<exists>e'. om_find (st_log s) n = Some e' \<and> same_request e' e)"
    and agree: "\<forall>s \<in> set ss. \<forall>t \<in> set ss. st_last_normal_view s = v \<and> st_last_normal_view t = v \<and>
      n \<le> st_op s \<and> n \<le> st_op t \<longrightarrow>
      map_option strip_acks (om_find (st_log s) n) = map_option strip_acks (om_find (st_log t) n)"
  shows "\<exists>e'. om_find (st_log (r_state (handle_do_view_change env inbound r))) n = Some e' \<and>
      same_request e' e"
proof -
  obtain s where s: "s \<in> set ss"
    "\<forall>t \<in> set ss. lex_le (st_last_normal_view t, st_op t) (st_last_normal_view s, st_op s)"
    "st_log (r_state (handle_do_view_change env inbound r)) = strip_log (st_log s)"
    using handle_do_view_change_complete [OF received enough wf, of env] by (auto simp: Let_def)
  have "card (st_id ` set ss) = length ss"
    using senders(1) by (metis distinct_card length_map list.set_map)
  then have "acks \<inter> st_id ` set ss \<noteq> {}"
    using quorum_system.quorums_intersect [OF cluster_wf_quorum_system [OF cluster] acked(1) senders(2)]
      acked(2) enough by simp
  then obtain t where t: "t \<in> set ss" "st_id t \<in> acks"
    by blast
  have le: "lex_le (st_last_normal_view t, st_op t) (st_last_normal_view s, st_op s)"
    and v: "v \<le> st_last_normal_view t" and n: "n \<le> st_op t"
    using s(2) t kept by blast+
  have "\<exists>e'. om_find (st_log s) n = Some e' \<and> same_request e' e"
  proof (cases "v < st_last_normal_view s")
    case True
    with later s(1) show ?thesis by blast
  next
    case False
    with le v have "st_last_normal_view s = v" "st_last_normal_view t = v" "st_op t \<le> st_op s"
      by (auto simp: lex_le_def)
    moreover from this(3) have "n \<le> st_op s"
      by (rule order_trans [OF n])
    ultimately have "map_option strip_acks (om_find (st_log s) n) = map_option strip_acks (om_find (st_log t) n)"
      using agree s(1) t(1) n by blast
    moreover obtain e' where "om_find (st_log t) n = Some e'" "same_request e' e"
      using kept t by blast
    ultimately show ?thesis
      by (auto simp: map_option_eq_Some) (metis same_request_strip_acks)
  qed
  then show ?thesis
    by (auto simp: s(3))
qed

theorem committed_entry_survives_view_change_witness:
  "\<exists>e'. om_find (st_log (r_state (handle_do_view_change
     \<lparr>env_now = 0, env_tv_sec = 0, env_tv_nsec = 0, env_junk = 0\<rparr>
     \<lparr>in_connection = Some 4, in_message = do_view_change_message sample_sender\<rparr>
     sample_candidate_waiting))) 2 = Some e' \<and> same_request e' sample_entry"
  by (rule committed_entry_survives_view_change
      [where ss = "[r_state sample_candidate, sample_sender]" and acks = "{0, 2}" and v = 0])
    (auto simp: sample_wf wf_sample_log sample_quorum sample_sender_simps sample_cluster word_le_nat_alt
      om_find_def same_request_def)
section \<open>Joining the new view\<close>

lemma retroactive_loop_state [simp]:
  "r_state (retroactive_loop n op p r) = r_state r"
  "r_client_connections (retroactive_loop n op p r) = r_client_connections r"
  "r_message_queue (retroactive_loop n op p r) = r_message_queue r"
  "r_last_primary_contact (retroactive_loop n op p r) = r_last_primary_contact r"
  "r_nonce_counter (retroactive_loop n op p r) = r_nonce_counter r"
  by (induction n arbitrary: op r) simp_all

text \<open>With enough rounds the loop stops by itself, having acknowledged every adopted op from \<open>op\<close> on.\<close>

lemma retroactive_loop_exits:
  assumes "st_op (r_state r) \<noteq> - 1" and "unat (st_op (r_state r)) < unat op + n"
    and "unat op \<le> Suc (unat (st_op (r_state r)))"
  shows "r_outbox (retroactive_loop n op p r) = r_outbox r @
     map (\<lambda>i. Send_to_peer p (prepare_ok_message (r_state r) (of_nat i)))
       (filter (\<lambda>i. om_find (st_log (r_state r)) (of_nat i) \<noteq> None)
         [unat op..<Suc (unat (st_op (r_state r)))])"
  using assms
proof (induction n arbitrary: op r)
  case 0
  then show ?case by simp
next
  case (Suc n)
  show ?case
  proof (cases "op \<le> st_op (r_state r)")
    case False
    then show ?thesis by (simp add: word_le_nat_alt)
  next
    case True
    have "st_op (r_state r) < - 1"
      using Suc.prems(1) by (simp only: word_order.not_eq_extremum)
    then have "unat (op + 1) = Suc (unat op)"
      by (rule unat_Suc_less [OF le_less_trans [OF True]])
    with True show ?thesis
      using Suc.prems by (simp add: Suc.IH upt_conv_Cons word_le_nat_alt del: upt_Suc)
  qed
qed

declare retroactive_loop.simps(2) [simp del]

lemma handle_start_view_effect:
  fixes p :: ReplicaState and r :: replica and env :: environment
  assumes payload: "in_message inbound = start_view_message p"
    and wf: "wf_log (st_log p)"
  defines "q \<equiv> execute_commited_ops (r\<lparr>r_state :=
      (r_state r)\<lparr>st_view := st_view p, st_op := st_op p, st_commit := st_commit p,
        st_log := strip_log (st_log p), st_status := NORMAL, st_client_table :=
          fold raise_request_number (strip_log (st_log p)) (st_client_table (r_state r))\<rparr>,
      r_last_primary_contact := env_now env\<rparr>)"
  shows "handle_start_view env inbound r =
     retroactive_loop (unat (st_op p) + 2) (st_commit p + 1) (get_primary_id (r_state q)) q"
  using assms
  by (simp add: handle_start_view_def start_view_message_def start_view_roundtrip Let_def)

lemma get_primary_id_cong:
  "st_view s = st_view t \<Longrightarrow> st_f s = st_f t \<Longrightarrow> get_primary_id s = get_primary_id t"
  by (simp add: get_primary_id_def)

lemma prepare_ok_message_cong:
  "st_view s = st_view t \<Longrightarrow> st_id s = st_id t \<Longrightarrow> prepare_ok_message s = prepare_ok_message t"
  by (simp add: prepare_ok_message_def fun_eq_iff)

text \<open>
  A backup that admits the StartView of the new primary ends in status NORMAL with the
  primary's op number, commit number and log (without acknowledgements), and sends the primary
  one PrepareOk for each op number of its log above the commit number, in ascending order, and
  nothing else.
\<close>
theorem start_view_adopted:
  fixes p :: ReplicaState and b :: replica and env :: environment and c :: "connection option"
  defines "m \<equiv> start_view_message p"
  defines "b' \<equiv> handle_start_view env \<lparr>in_connection = c, in_message = m\<rparr> b"
  assumes admitted: "check_can_process_start_view (r_state b) m"
    and wf: "wf_log (st_log p)"
    and backup: "\<not> is_primary (r_state b)"
    and range: "st_commit p \<le> st_op p" "st_op p \<noteq> - 1"
  shows "st_status (r_state b') = NORMAL \<and> st_view (r_state b') = st_view p \<and>
     st_op (r_state b') = st_op p \<and> st_commit (r_state b') = st_commit p \<and>
     st_log (r_state b') = strip_log (st_log p) \<and>
     r_outbox b' = r_outbox b @
       map (\<lambda>i. Send_to_peer (get_primary_id (r_state b)) (prepare_ok_message (r_state b) (of_nat i)))
         (filter (\<lambda>i. om_find (st_log p) (of_nat i) \<noteq> None)
           [Suc (unat (st_commit p))..<Suc (unat (st_op p))])"
proof -
  define q0 where "q0 = b\<lparr>r_state :=
      (r_state b)\<lparr>st_view := st_view p, st_op := st_op p, st_commit := st_commit p,
        st_log := strip_log (st_log p), st_status := NORMAL, st_client_table :=
          fold raise_request_number (strip_log (st_log p)) (st_client_table (r_state b))\<rparr>,
      r_last_primary_contact := env_now env\<rparr>"
  define q where "q = execute_commited_ops q0"
  have view: "st_view p = st_view (r_state b)"
    using admitted by (simp add: check_can_process_start_view_def m_def start_view_message_def split: if_splits)
  have b': "b' = retroactive_loop (unat (st_op p) + 2) (st_commit p + 1) (get_primary_id (r_state q)) q"
    using handle_start_view_effect [of "\<lparr>in_connection = c, in_message = m\<rparr>" p env b] wf
    by (simp add: b'_def m_def q_def q0_def)
  have q: "st_status (r_state q) = NORMAL" "st_view (r_state q) = st_view p"
    "st_op (r_state q) = st_op p" "st_commit (r_state q) = st_commit p"
    "st_log (r_state q) = strip_log (st_log p)" "st_f (r_state q) = st_f (r_state b)"
    "st_id (r_state q) = st_id (r_state b)"
    by (simp_all add: q_def q0_def)
  have "is_primary (r_state q0) = is_primary (r_state b)"
    by (simp add: q0_def is_primary_def get_primary_id_def view)
  then have out: "r_outbox q = r_outbox b"
    using backup by (simp add: q_def execute_backup_silent) (simp add: q0_def)
  have commit: "unat (st_commit p + 1) = Suc (unat (st_commit p))"
    using range(2) by (intro unat_Suc_less [OF le_less_trans [OF range(1)]]) (simp only: word_order.not_eq_extremum)
  have same: "get_primary_id (r_state q) = get_primary_id (r_state b)"
    "prepare_ok_message (r_state q) = prepare_ok_message (r_state b)"
    by (intro get_primary_id_cong prepare_ok_message_cong; simp add: q view)+
  have "r_outbox b' = r_outbox b @
       map (\<lambda>i. Send_to_peer (get_primary_id (r_state b)) (prepare_ok_message (r_state b) (of_nat i)))
         (filter (\<lambda>i. om_find (st_log p) (of_nat i) \<noteq> None)
           [Suc (unat (st_commit p))..<Suc (unat (st_op p))])"
    using retroactive_loop_exits [of q "st_commit p + 1" "unat (st_op p) + 2" "get_primary_id (r_state q)"]
      range by (simp add: b' q commit out same word_le_nat_alt)
  then show ?thesis
    by (simp add: b' q)
qed

definition sample_new_primary :: ReplicaState where
  "sample_new_primary = (new_ReplicaState 1 server_cluster_config)\<lparr>st_view := 1,
     st_op := 2, st_commit := 1, st_log := [(1, sample_entry), (2, sample_entry)]\<rparr>"

definition sample_follower :: replica where
  "sample_follower = (new_replica 2 server_cluster_config)\<lparr>r_state :=
     (new_ReplicaState 2 server_cluster_config)\<lparr>st_view := 1, st_status := VIEW_CHANGE\<rparr>\<rparr>"

theorem start_view_adopted_witness:
  "r_outbox (handle_start_view \<lparr>env_now = 0, env_tv_sec = 0, env_tv_nsec = 0, env_junk = 0\<rparr>
     \<lparr>in_connection = Some 9, in_message = start_view_message sample_new_primary\<rparr> sample_follower) =
   [Send_to_peer 1 (prepare_ok_message (r_state sample_follower) 2)]"
proof -
  have p: "get_primary_id (r_state sample_follower) = 1" "\<not> is_primary (r_state sample_follower)"
    by (simp_all add: sample_follower_def get_primary_id_def is_primary_def new_ReplicaState_def
        fault_tolerance_def server_cluster_config_def)
  have s: "check_can_process_start_view (r_state sample_follower) (start_view_message sample_new_primary)"
    by (simp add: sample_follower_def sample_new_primary_def check_can_process_start_view_def
        start_view_message_def get_primary_id_for_view_def new_ReplicaState_def server_cluster_config_def)
  have "st_op sample_new_primary = 2" "st_commit sample_new_primary = 1"
    "st_log sample_new_primary = [(1, sample_entry), (2, sample_entry)]" "r_outbox sample_follower = []"
    by (simp_all add: sample_new_primary_def sample_follower_def new_replica_def)
  then show ?thesis
    using start_view_adopted [OF s, of "\<lparr>env_now = 0, env_tv_sec = 0, env_tv_nsec = 0, env_junk = 0\<rparr>" "Some 9"]
    by (simp add: p wf_sample_log word_le_nat_alt om_find_def upt_rec)
qed

section \<open>Acknowledgements after a view change\<close>

definition acks_within :: "int set \<Rightarrow> ReplicaState \<Rightarrow> bool" where
  "acks_within S s \<longleftrightarrow> (\<forall>k e. om_find (st_log s) k = Some e \<longrightarrow> le_prepare_ok_acks e \<subseteq> S)"

lemma acks_within_no_commit:
  assumes "acks_within S s" and "finite S" and "card S < quorum s"
  shows "\<not> can_commit_next s"
proof
  assume "can_commit_next s"
  then obtain k e where "om_find (st_log s) k = Some e" "quorum s \<le> card (le_prepare_ok_acks e)"
    by (auto simp: can_commit_next_def split: option.splits)
  moreover from this(1) have "card (le_prepare_ok_acks e) \<le> card S"
    using assms(1,2) by (intro card_mono) (auto simp: acks_within_def)
  ultimately show False
    using assms(3) by simp
qed

lemma acks_within_advance:
  assumes "acks_within S (r_state r)" and "finite S" and "card S < quorum (r_state r)"
  shows "r_state (advance_primary_commit_number r) = r_state (execute_commited_ops r) \<or>
    advance_primary_commit_number r = r"
  using acks_within_no_commit [OF assms] by (simp add: advance_primary_commit_number_def)

lemma acks_within_prepare_ok:
  assumes "acks_within S (r_state r)" and "finite S" and "card S < quorum (r_state r)"
    and "uint (h_replica (in_header ok)) \<in> S"
  shows "acks_within S (r_state (handle_prepare_ok ok r)) \<and>
    st_commit (r_state (handle_prepare_ok ok r)) = st_commit (r_state r) \<and>
    quorum (r_state (handle_prepare_ok ok r)) = quorum (r_state r)"
proof (cases "om_find (st_log (r_state r)) (h_op (in_header ok))")
  case (Some e)
  define q where "q = set_state (\<lambda>s. s\<lparr>st_log := om_assign (h_op (in_header ok))
    (e\<lparr>le_prepare_ok_acks := insert (uint (h_replica (in_header ok))) (le_prepare_ok_acks e)\<rparr>)
    (st_log (r_state r))\<rparr>) r"
  have q: "acks_within S (r_state q)" "quorum (r_state q) = quorum (r_state r)"
    "st_commit (r_state q) = st_commit (r_state r)"
    using assms(1,4) Some by (auto simp: acks_within_def q_def)
  moreover have "quorum (r_state (execute_commited_ops q)) = quorum (r_state q)"
    by (simp add: quorum_def)
  moreover have "acks_within S (r_state (execute_commited_ops q)) = acks_within S (r_state q)"
    by (simp add: acks_within_def)
  moreover have "handle_prepare_ok ok r = advance_primary_commit_number q"
    using Some by (simp add: handle_prepare_ok_def q_def Let_def)
  moreover have "r_state (advance_primary_commit_number q) = r_state (execute_commited_ops q) \<or>
      advance_primary_commit_number q = q"
    using acks_within_advance [OF q(1) assms(2)] assms(3) q(2) by simp
  ultimately show ?thesis
    by auto
qed (use assms(1) in \<open>simp add: handle_prepare_ok_def\<close>)

lemma acks_within_fold:
  assumes "acks_within S (r_state r)" and "finite S" and "card S < quorum (r_state r)"
    and "\<forall>ok \<in> set oks. uint (h_replica (in_header ok)) \<in> S"
  shows "st_commit (r_state (fold handle_prepare_ok oks r)) = st_commit (r_state r)"
  using assms
  by (induction oks arbitrary: r) (simp_all add: acks_within_prepare_ok)

text \<open>
  C22: the new primary's own copy of an adopted operation does not count. After a view change no
  acknowledgement is recorded, not even the primary's own, so PrepareOk messages from fewer than
  \<open>f+1\<close> other replicas never move the commit number, whatever their number and order. In a
  three-replica cluster with one replica down this is every PrepareOk there can be: an adopted,
  uncommitted operation then never commits.
\<close>
theorem adopted_ops_need_quorum_of_others:
  fixes r :: replica and ss :: "ReplicaState list" and env :: environment and inbound :: inbound_message
    and oks :: "inbound_message list"
  assumes received: "st_do_view_change_received (r_state r) @ [in_message inbound] =
      map do_view_change_message ss"
    and enough: "quorum (r_state r) \<le> length ss"
    and wf: "\<forall>s \<in> set ss. wf_log (st_log s)"
    and few: "card ((\<lambda>ok. h_replica (in_header ok)) ` set oks) < quorum (r_state r)"
  defines "r' \<equiv> handle_do_view_change env inbound r"
  shows "st_commit (r_state (fold handle_prepare_ok oks r')) = st_commit (r_state r')"
proof (rule acks_within_fold)
  let ?S = "uint ` (\<lambda>ok. h_replica (in_header ok)) ` set oks"
  obtain s where s: "s \<in> set ss"
    "st_log (r_state r') = strip_log (st_log s)" "quorum (r_state r') = quorum (r_state r)"
    using handle_do_view_change_complete [OF received enough wf, of env]
    by (auto simp: r'_def Let_def quorum_def)
  show "acks_within ?S (r_state r')"
    by (auto simp: acks_within_def s(2) strip_acks_def)
  show "card ?S < quorum (r_state r')"
    using few s(3) card_image_le [of "(\<lambda>ok. h_replica (in_header ok)) ` set oks" uint] by simp
qed auto

theorem adopted_ops_need_quorum_of_others_witness:
  "st_commit (r_state (fold handle_prepare_ok
     (replicate 5 \<lparr>in_connection = Some 4, in_message = prepare_ok_message sample_sender 2\<rparr>)
     (handle_do_view_change \<lparr>env_now = 0, env_tv_sec = 0, env_tv_nsec = 0, env_junk = 0\<rparr>
       \<lparr>in_connection = Some 4, in_message = do_view_change_message sample_sender\<rparr>
       sample_candidate_waiting))) =
   st_commit (r_state
     (handle_do_view_change \<lparr>env_now = 0, env_tv_sec = 0, env_tv_nsec = 0, env_junk = 0\<rparr>
       \<lparr>in_connection = Some 4, in_message = do_view_change_message sample_sender\<rparr>
       sample_candidate_waiting))"
  by (rule adopted_ops_need_quorum_of_others [where ss = "[r_state sample_candidate, sample_sender]"])
    (simp_all add: sample_wf sample_quorum sample_sender_simps wf_sample_log)

end
