(* ===== verification/Replica_Recovery.thy ===== *)
theory Replica_Recovery
  imports Replica_View_Change
begin

text \<open>
  Recovery in \<open>src/server/replica.cpp\<close>: the request with its nonce, the responses of the others,
  and the adoption of the best of \<open>f+1\<close> of them.
\<close>

section \<open>Guards\<close>

definition check_can_process_recovery_request :: "ReplicaState \<Rightarrow> vsr_message \<Rightarrow> bool" where
  "check_can_process_recovery_request s msg \<longleftrightarrow> st_status s = NORMAL"

definition check_can_process_recovery_response :: "ReplicaState \<Rightarrow> vsr_message \<Rightarrow> bool" where
  "check_can_process_recovery_response s msg \<longleftrightarrow> st_status s = RECOVERY"

section \<open>Handlers\<close>

definition initiate_recovery :: "environment \<Rightarrow> replica \<Rightarrow> replica" where
  "initiate_recovery env r =
     (if st_status (r_state r) = RECOVERY then r
      else
        let (nonce, counter) =
              generate_nonce (env_tv_sec env) (env_tv_nsec env) (r_nonce_counter r) (st_id (r_state r));
            s = (r_state r)\<lparr>st_status := RECOVERY, st_recovery_nonce := nonce,
                  st_recovery_responses := []\<rparr>
        in emit (Broadcast_to_peers (message_with (zero_header\<lparr>h_command := command_recovery,
             h_replica := word_of_int (st_id s)\<rparr>)
             (recovery_request_serialize \<lparr>rq_nonce = nonce\<rparr>)))
             (r\<lparr>r_state := s, r_nonce_counter := counter\<rparr>))"

definition recovery_response_message :: "ReplicaState \<Rightarrow> uint128_t \<Rightarrow> vsr_message" where
  "recovery_response_message s nonce =
     message_with (zero_header\<lparr>h_command := command_recovery_response,
       h_replica := word_of_int (st_id s), h_view := st_view s, h_op := st_op s,
       h_commit := st_commit s\<rparr>)
       (recovery_response_serialize \<lparr>rs_nonce = nonce, rs_log = st_log s\<rparr>)"

definition handle_recovery_request :: "inbound_message \<Rightarrow> replica \<Rightarrow> replica" where
  "handle_recovery_request inbound r =
     (case recovery_request_deserialize (in_payload inbound) \<lparr>rq_nonce = uint128_zero\<rparr> of
        (False, _) \<Rightarrow> r
      | (True, req_payload) \<Rightarrow>
          emit (Send_to_peer (uint (h_replica (in_header inbound)))
            (recovery_response_message (r_state r) (rq_nonce req_payload))) r)"

definition better_response :: "vsr_message \<Rightarrow> vsr_message \<Rightarrow> vsr_message" where
  "better_response current best =
     (if h_view (msg_header current) > h_view (msg_header best) then current
      else if h_view (msg_header current) = h_view (msg_header best) \<and>
              h_op (msg_header current) > h_op (msg_header best) then current
      else best)"

definition adopt_recovery :: "environment \<Rightarrow> vsr_message \<Rightarrow> replica \<Rightarrow> replica" where
  "adopt_recovery env best r =
     (let h = msg_header best;
          best_payload = snd (recovery_response_deserialize (msg_payload best)
                               \<lparr>rs_nonce = uint128_zero, rs_log = []\<rparr>);
          s = (r_state r)\<lparr>st_view := h_view h, st_op := h_op h, st_commit := h_commit h,
                st_log := rs_log best_payload, st_last_executed_op := 0, st_status := NORMAL\<rparr>;
          s1 = s\<lparr>st_client_table := fold raise_request_number (st_log s) []\<rparr>;
          r1 = execute_commited_ops (r\<lparr>r_state := s1, r_last_primary_contact := env_now env\<rparr>)
      in set_state (\<lambda>t. t\<lparr>st_recovery_nonce := uint128_zero, st_recovery_responses := []\<rparr>) r1)"

definition handle_recovery_response :: "environment \<Rightarrow> inbound_message \<Rightarrow> replica \<Rightarrow> replica" where
  "handle_recovery_response env inbound r =
     (case recovery_response_deserialize (in_payload inbound) \<lparr>rs_nonce = uint128_zero, rs_log = []\<rparr> of
        (False, _) \<Rightarrow> r
      | (True, res_payload) \<Rightarrow>
          if rs_nonce res_payload \<noteq> st_recovery_nonce (r_state r) then r
          else
            let responses = st_recovery_responses (r_state r) @ [in_message inbound];
                r1 = set_state (\<lambda>s. s\<lparr>st_recovery_responses := responses\<rparr>) r
            in if length responses \<ge> quorum (r_state r1)
               then adopt_recovery env (fold better_response (tl responses) (hd responses)) r1
               else r1)"

section \<open>Selecting the state\<close>

interpretation rec: selector "\<lambda>m. (h_view (msg_header m), h_op (msg_header m))" better_response
  by unfold_locales (auto simp: better_response_def lex_less_def)

lemma recovery_response_header [simp]:
  "h_view (msg_header (recovery_response_message s n)) = st_view s"
  "h_op (msg_header (recovery_response_message s n)) = st_op s"
  "h_commit (msg_header (recovery_response_message s n)) = st_commit s"
  by (simp_all add: recovery_response_message_def)

lemma recovery_response_payload_of:
  assumes "wf_log (st_log s)"
  shows "recovery_response_deserialize (msg_payload (recovery_response_message s n))
      \<lparr>rs_nonce = n0, rs_log = []\<rparr> = (True, \<lparr>rs_nonce = n, rs_log = strip_log (st_log s)\<rparr>)"
  using assms by (simp add: recovery_response_message_def recovery_response_roundtrip)

lemma best_response_of_states:
  fixes nonce :: uint128_t
  assumes "ss \<noteq> []"
  defines "ms \<equiv> map (\<lambda>s. recovery_response_message s nonce) ss"
  shows "\<exists>s \<in> set ss. fold better_response (tl ms) (hd ms) = recovery_response_message s nonce \<and>
     (\<forall>t \<in> set ss. lex_le (st_view t, st_op t) (st_view s, st_op s))"
proof -
  have ms: "set (hd ms # tl ms) = (\<lambda>s. recovery_response_message s nonce) ` set ss"
    using assms by (cases ss) (simp_all add: ms_def)
  have "fold better_response (tl ms) (hd ms) \<in> (\<lambda>s. recovery_response_message s nonce) ` set ss"
    using rec.fold_pick_mem [of "tl ms" "hd ms"] unfolding ms .
  then obtain s where s: "s \<in> set ss" "fold better_response (tl ms) (hd ms) = recovery_response_message s nonce"
    by blast
  have "lex_le (st_view t, st_op t) (st_view s, st_op s)" if "t \<in> set ss" for t
    using rec.fold_pick_best [of "recovery_response_message t nonce" "hd ms" "tl ms"] that
    unfolding ms s(2) by simp
  with s show ?thesis by blast
qed

section \<open>Replaying the log\<close>

text \<open>The request of a client that the execution loop would skip.\<close>

definition executed_req :: "(uint128_t \<rightharpoonup> client_table_entry) \<Rightarrow> uint128_t \<rightharpoonup> u32" where
  "executed_req sessions c =
     (case sessions c of Some ce \<Rightarrow> if ct_executed ce then Some (ct_request_number ce) else None | None \<Rightarrow> None)"

lemma exec_step_req:
  "exec_step e (kv, sessions) =
     (if executed_req sessions (le_client_id e) = Some (le_request_num e) then (kv, sessions)
      else let (kv', result) = apply_operation (le_op_type e) (le_payload e) kv
          in (kv', sessions(le_client_id e \<mapsto>
                \<lparr>ct_request_number = le_request_num e, ct_executed = True,
                 ct_result = bytes_of_string result\<rparr>)))"
  by (auto simp: exec_step_def executed_req_def split: option.splits)

lemma apply_operation_overlay:
  "fst (apply_operation op p (kv ++ base)) = kv ++ fst (apply_operation op p base)"
  by (simp add: apply_operation_def Let_def case_prod_beta)

lemma fold_exec_overlay:
  assumes "executed_req sess = executed_req sess'"
  shows "fst (fold exec_step es (kv ++ base, sess)) = kv ++ fst (fold exec_step es (base, sess'))"
  using assms
proof (induction es arbitrary: base sess sess')
  case (Cons e es)
  show ?case
  proof (cases "executed_req sess (le_client_id e) = Some (le_request_num e)")
    case True
    then show ?thesis
      using Cons.IH [OF Cons.prems] Cons.prems by (simp add: exec_step_req)
  next
    case False
    let ?ap = "apply_operation (le_op_type e) (le_payload e)"
    have "executed_req (sess(le_client_id e \<mapsto> \<lparr>ct_request_number = le_request_num e,
          ct_executed = True, ct_result = a\<rparr>)) =
        executed_req (sess'(le_client_id e \<mapsto> \<lparr>ct_request_number = le_request_num e,
          ct_executed = True, ct_result = b\<rparr>))" for a b
      using Cons.prems by (auto simp: fun_eq_iff executed_req_def)
    note step = Cons.IH [OF this, where base = "fst (?ap base)"]
    show ?thesis
      using Cons.prems False by (simp add: exec_step_req case_prod_beta Let_def apply_operation_overlay step)
  qed
qed simp

lemma raised_not_executed:
  assumes "\<forall>c ce. om_find t c = Some ce \<longrightarrow> \<not> ct_executed ce"
  shows "executed_req (om_find (fold raise_request_number log t)) = Map.empty"
  using assms
proof (induction log arbitrary: t)
  case Nil
  then show ?case by (auto simp: fun_eq_iff executed_req_def split: option.splits)
next
  case (Cons ke log)
  have "\<forall>c ce. om_find (raise_request_number ke t) c = Some ce \<longrightarrow> \<not> ct_executed ce"
    using Cons.prems
    by (auto simp: raise_request_number_def Let_def om_index_def new_client_table_entry_def
        split: prod.splits option.splits if_splits)
  then show ?case
    using Cons.IH by simp
qed

lemma ready_entries_strip: "ready_entries (strip_log log) lo hi = map strip_acks (ready_entries log lo hi)"
proof -
  have "the (map_option strip_acks x) = strip_acks (the x)" if "x \<noteq> None" for x
    using that by auto
  then show ?thesis
    by (auto simp: ready_entries_def dest: set_takeWhileD)
qed

lemma same_request_map_strip: "list_all2 same_request (map strip_acks es) es"
  by (simp add: list_all2_conv_all_nth) (simp add: same_request_def)

section \<open>Properties of recovery\<close>

lemma handle_recovery_response_quorum:
  fixes ss :: "ReplicaState list" and r :: replica and env :: environment
    and inbound :: inbound_message and nonce :: uint128_t
  defines "ms \<equiv> map (\<lambda>s. recovery_response_message s nonce) ss"
  assumes received: "st_recovery_responses (r_state r) @ [in_message inbound] = ms"
    and nonce: "st_recovery_nonce (r_state r) = nonce"
    and enough: "quorum (r_state r) \<le> length ss"
    and wf: "\<forall>s \<in> set ss. wf_log (st_log s)"
  shows "\<exists>s \<in> set ss. (\<forall>t \<in> set ss. lex_le (st_view t, st_op t) (st_view s, st_op s)) \<and>
     handle_recovery_response env inbound r =
       adopt_recovery env (recovery_response_message s nonce)
         (set_state (\<lambda>t. t\<lparr>st_recovery_responses := ms\<rparr>) r)"
proof -
  have ne: "ss \<noteq> []"
    using received by (auto simp: ms_def)
  then have "in_message inbound = recovery_response_message (last ss) nonce"
    using arg_cong [OF received, of last] by (simp add: ms_def last_map)
  moreover have "wf_log (st_log (last ss))"
    using ne wf by simp
  ultimately have "handle_recovery_response env inbound r =
      adopt_recovery env (fold better_response (tl ms) (hd ms))
        (set_state (\<lambda>t. t\<lparr>st_recovery_responses := ms\<rparr>) r)"
    using enough nonce received
    by (simp add: handle_recovery_response_def recovery_response_payload_of Let_def ms_def)
  then show ?thesis
    using best_response_of_states [OF ne, of nonce] unfolding ms_def by metis
qed

lemma adopt_recovery_effect:
  fixes s :: ReplicaState and r :: replica and env :: environment
  assumes "wf_log (st_log s)"
  defines "q \<equiv> execute_commited_ops (r\<lparr>r_state := (r_state r)\<lparr>st_view := st_view s, st_op := st_op s,
       st_commit := st_commit s, st_log := strip_log (st_log s), st_last_executed_op := 0,
       st_status := NORMAL, st_client_table := fold raise_request_number (strip_log (st_log s)) []\<rparr>,
       r_last_primary_contact := env_now env\<rparr>)"
  shows "adopt_recovery env (recovery_response_message s nonce) r =
     set_state (\<lambda>t. t\<lparr>st_recovery_nonce := uint128_zero, st_recovery_responses := []\<rparr>) q"
  using assms by (simp add: adopt_recovery_def recovery_response_payload_of Let_def)

lemma replay_contents:
  assumes "abs_exec (r_state r) = (kv, om_find (fold raise_request_number log []))"
    and "st_log (r_state r) = strip_log log" and "st_last_executed_op (r_state r) = 0"
  shows "st_state_machine (r_state (execute_commited_ops r)) =
    kv ++ fst (fold exec_step (ready_entries log 0 (st_commit (r_state r))) (Map.empty, Map.empty))"
proof -
  let ?es = "ready_entries log 0 (st_commit (r_state r))"
  have "st_state_machine (r_state (execute_commited_ops r)) =
      fst (fold exec_step (map strip_acks ?es) (kv, om_find (fold raise_request_number log [])))"
    using execute_refines [of r] assms
    by (simp add: ready_entries_strip) (metis abs_exec_def fst_conv)
  also have "\<dots> = fst (fold exec_step ?es (kv ++ Map.empty, om_find (fold raise_request_number log [])))"
    by (simp add: exec.runs_agree [OF same_request_map_strip])
  also have "\<dots> = kv ++ fst (fold exec_step ?es (Map.empty, Map.empty))"
    by (rule fold_exec_overlay) (simp add: raised_not_executed, simp add: executed_req_def fun_eq_iff)
  finally show ?thesis .
qed

lemma raise_strip_log:
  "fold raise_request_number (strip_log log) t = fold raise_request_number log t"
proof -
  have "raise_request_number (k, strip_acks e) = raise_request_number (k, e)" for k e
    by (simp add: raise_request_number_def strip_acks_def Let_def cong: if_cong)
  then show ?thesis
    by (induction log arbitrary: t) (simp_all add: strip_log_def split: prod.splits)
qed

text \<open>
  C24: with the \<open>f+1\<close>-st response carrying its nonce, a recovering replica becomes NORMAL with the
  view, op number, commit number and log of a responder whose pair (view, op number) is the
  largest. It replays the committed part of that log from the first op over its present
  contents: afterwards the key-value contents are the replay of the log from the empty store,
  laid over whatever the replica held before. The nonce and the responses are forgotten.
\<close>
theorem recovery_adopts_best_state:
  fixes ss :: "ReplicaState list" and r :: replica and env :: environment
    and inbound :: inbound_message and nonce :: uint128_t
  assumes received: "st_recovery_responses (r_state r) @ [in_message inbound] =
      map (\<lambda>s. recovery_response_message s nonce) ss"
    and nonce: "st_recovery_nonce (r_state r) = nonce"
    and enough: "quorum (r_state r) \<le> length ss"
    and wf: "\<forall>s \<in> set ss. wf_log (st_log s)"
  defines "r' \<equiv> handle_recovery_response env inbound r"
  shows "\<exists>s \<in> set ss. (\<forall>t \<in> set ss. lex_le (st_view t, st_op t) (st_view s, st_op s)) \<and>
     st_status (r_state r') = NORMAL \<and> st_view (r_state r') = st_view s \<and>
     st_op (r_state r') = st_op s \<and> st_commit (r_state r') = st_commit s \<and>
     st_log (r_state r') = strip_log (st_log s) \<and>
     st_last_executed_op (r_state r') = of_nat (length (ready_entries (st_log s) 0 (st_commit s))) \<and>
     st_state_machine (r_state r') = st_state_machine (r_state r) ++
       fst (fold exec_step (ready_entries (st_log s) 0 (st_commit s)) (Map.empty, Map.empty)) \<and>
     st_recovery_nonce (r_state r') = uint128_zero \<and> st_recovery_responses (r_state r') = []"
proof -
  let ?r = "set_state (\<lambda>t. t\<lparr>st_recovery_responses := map (\<lambda>s. recovery_response_message s nonce) ss\<rparr>) r"
  obtain s where s: "s \<in> set ss" "\<forall>t \<in> set ss. lex_le (st_view t, st_op t) (st_view s, st_op s)"
    "r' = adopt_recovery env (recovery_response_message s nonce) ?r"
    using handle_recovery_response_quorum [OF received nonce enough wf] unfolding r'_def by blast
  define q where "q = ?r\<lparr>r_state := (r_state ?r)\<lparr>st_view := st_view s, st_op := st_op s,
       st_commit := st_commit s, st_log := strip_log (st_log s), st_last_executed_op := 0,
       st_status := NORMAL, st_client_table := fold raise_request_number (strip_log (st_log s)) []\<rparr>,
       r_last_primary_contact := env_now env\<rparr>"
  have q: "abs_exec (r_state q) = (st_state_machine (r_state r), om_find (fold raise_request_number (st_log s) []))"
    "st_log (r_state q) = strip_log (st_log s)" "st_last_executed_op (r_state q) = 0"
    "st_commit (r_state q) = st_commit s" "st_status (r_state q) = NORMAL"
    "st_view (r_state q) = st_view s" "st_op (r_state q) = st_op s"
    by (simp_all add: q_def abs_exec_def raise_strip_log)
  have r': "r_state r' = (r_state (execute_commited_ops q))
      \<lparr>st_recovery_nonce := uint128_zero, st_recovery_responses := []\<rparr>"
    using s(1,3) wf by (simp add: adopt_recovery_effect q_def)
  have "st_state_machine (r_state (execute_commited_ops q)) = st_state_machine (r_state r) ++
      fst (fold exec_step (ready_entries (st_log s) 0 (st_commit s)) (Map.empty, Map.empty))"
    using replay_contents [OF q(1-3)] by (simp add: q)
  moreover have "st_last_executed_op (r_state (execute_commited_ops q)) =
      of_nat (length (ready_entries (st_log s) 0 (st_commit s)))"
    by (simp add: execute_counter q ready_entries_strip)
  ultimately show ?thesis
    using s(1,2) by (intro bexI [of _ s]) (simp_all add: r' q)
qed

definition sample_recovering :: replica where
  "sample_recovering = (new_replica 0 server_cluster_config)\<lparr>r_state :=
     (new_ReplicaState 0 server_cluster_config)\<lparr>st_status := RECOVERY, st_recovery_nonce := UInt128 7 8,
       st_recovery_responses := [recovery_response_message sample_sender (UInt128 7 8)]\<rparr>\<rparr>"

theorem recovery_adopts_best_state_witness:
  "st_view (r_state (handle_recovery_response
     \<lparr>env_now = 0, env_tv_sec = 0, env_tv_nsec = 0, env_junk = 0\<rparr>
     \<lparr>in_connection = Some 4, in_message = recovery_response_message (sample_sender\<lparr>st_view := 3\<rparr>) (UInt128 7 8)\<rparr>
     sample_recovering)) = 3"
proof -
  have q: "quorum (r_state sample_recovering) = 2" "st_recovery_nonce (r_state sample_recovering) = UInt128 7 8"
    "st_recovery_responses (r_state sample_recovering) = [recovery_response_message sample_sender (UInt128 7 8)]"
    "st_view sample_sender = 1"
    by (simp_all add: sample_recovering_def sample_sender_def quorum_def new_ReplicaState_def
        fault_tolerance_def server_cluster_config_def)
  show ?thesis
    using recovery_adopts_best_state [of sample_recovering
        "\<lparr>in_connection = Some 4, in_message = recovery_response_message (sample_sender\<lparr>st_view := 3\<rparr>) (UInt128 7 8)\<rparr>"
        "UInt128 7 8" "[sample_sender, sample_sender\<lparr>st_view := 3\<rparr>]"
        "\<lparr>env_now = 0, env_tv_sec = 0, env_tv_nsec = 0, env_junk = 0\<rparr>"]
    by (auto simp: q sample_sender_simps wf_sample_log lex_le_def word_le_nat_alt word_less_nat_alt)
qed

text \<open>
  The recovery exchange. A replica that is not recovering starts by broadcasting a request
  with a fresh nonce; a NORMAL replica answers exactly to the requester with its view, op,
  commit number and log under that nonce; the requester counts the answer as long as its nonce
  stands, and ignores it once its nonce is another one.
\<close>
theorem recovery_exchange:
  fixes r p :: replica and env env' :: environment and c c' :: "connection option"
  defines "r1 \<equiv> initiate_recovery env r"
  defines "nonce \<equiv> st_recovery_nonce (r_state r1)"
  defines "req \<equiv> message_with (zero_header\<lparr>h_command := command_recovery,
      h_replica := word_of_int (st_id (r_state r))\<rparr>) (recovery_request_serialize \<lparr>rq_nonce = nonce\<rparr>)"
  defines "p1 \<equiv> handle_recovery_request \<lparr>in_connection = c, in_message = req\<rparr> p"
  defines "res \<equiv> recovery_response_message (r_state p) nonce"
  assumes start: "st_status (r_state r) \<noteq> RECOVERY"
    and id: "0 \<le> st_id (r_state r)" "st_id (r_state r) < 256"
    and wf: "wf_log (st_log (r_state p))"
    and more: "1 < quorum (r_state r)"
  shows "st_status (r_state r1) = RECOVERY \<and> r_outbox r1 = r_outbox r @ [Broadcast_to_peers req] \<and>
     r_state p1 = r_state p \<and> r_outbox p1 = r_outbox p @ [Send_to_peer (st_id (r_state r)) res] \<and>
     st_recovery_responses (r_state (handle_recovery_response env'
       \<lparr>in_connection = c', in_message = res\<rparr> r1)) = [res] \<and>
     (\<forall>q. st_recovery_nonce (r_state q) \<noteq> nonce \<longrightarrow>
        handle_recovery_response env' \<lparr>in_connection = c', in_message = res\<rparr> q = q)"
proof -
  obtain n k where g: "generate_nonce (env_tv_sec env) (env_tv_nsec env) (r_nonce_counter r) (st_id (r_state r)) = (n, k)"
    by (metis prod.exhaust)
  have n: "nonce = n"
    using start g by (simp add: nonce_def r1_def initiate_recovery_def)
  have r1: "r1 = emit (Broadcast_to_peers req) (r\<lparr>r_state := (r_state r)\<lparr>st_status := RECOVERY,
      st_recovery_nonce := nonce, st_recovery_responses := []\<rparr>, r_nonce_counter := k\<rparr>)"
    using start g by (simp add: r1_def initiate_recovery_def req_def n)
  have "uint (word_of_int (st_id (r_state r)) :: byte) = st_id (r_state r)"
    using id by (simp add: uint_word_of_int)
  then have p1: "p1 = emit (Send_to_peer (st_id (r_state r)) res) p"
    by (simp add: p1_def handle_recovery_request_def req_def recovery_request_roundtrip res_def)
  have "quorum (r_state r1) = quorum (r_state r)"
    by (simp add: r1 quorum_def)
  then have "st_recovery_responses (r_state (handle_recovery_response env'
       \<lparr>in_connection = c', in_message = res\<rparr> r1)) = [res]"
    using more wf by (simp add: handle_recovery_response_def res_def recovery_response_payload_of Let_def r1)
  moreover have "\<forall>q. st_recovery_nonce (r_state q) \<noteq> nonce \<longrightarrow>
        handle_recovery_response env' \<lparr>in_connection = c', in_message = res\<rparr> q = q"
    using wf by (auto simp: handle_recovery_response_def res_def recovery_response_payload_of)
  ultimately show ?thesis
    by (simp add: r1 p1)
qed

theorem recovery_exchange_witness:
  "r_outbox (handle_recovery_request \<lparr>in_connection = Some 1, in_message =
     message_with (zero_header\<lparr>h_command := command_recovery, h_replica := word_of_int 0\<rparr>)
       (recovery_request_serialize \<lparr>rq_nonce = st_recovery_nonce (r_state (initiate_recovery
         \<lparr>env_now = 0, env_tv_sec = 5, env_tv_nsec = 6, env_junk = 0\<rparr> (new_replica 0 server_cluster_config)))\<rparr>)\<rparr>
     (new_replica 1 server_cluster_config)) =
   [Send_to_peer 0 (recovery_response_message (new_ReplicaState 1 server_cluster_config)
     (st_recovery_nonce (r_state (initiate_recovery
         \<lparr>env_now = 0, env_tv_sec = 5, env_tv_nsec = 6, env_junk = 0\<rparr> (new_replica 0 server_cluster_config)))))]"
proof -
  have s: "st_status (r_state (new_replica 0 server_cluster_config)) \<noteq> RECOVERY"
    "0 \<le> st_id (r_state (new_replica 0 server_cluster_config))"
    "st_id (r_state (new_replica 0 server_cluster_config)) < 256"
    "wf_log (st_log (r_state (new_replica 1 server_cluster_config)))"
    "1 < quorum (r_state (new_replica 0 server_cluster_config))"
    by (simp_all add: new_replica_def new_ReplicaState_def wf_log_def quorum_def fault_tolerance_def
        server_cluster_config_def)
  have t: "st_id (r_state (new_replica 0 server_cluster_config)) = 0"
    "r_state (new_replica 1 server_cluster_config) = new_ReplicaState 1 server_cluster_config"
    "r_outbox (new_replica 1 server_cluster_config) = []"
    by (simp_all add: new_replica_def new_ReplicaState_def)
  show ?thesis
    using recovery_exchange [OF s, of "\<lparr>env_now = 0, env_tv_sec = 5, env_tv_nsec = 6, env_junk = 0\<rparr>"
      "Some 1" "\<lparr>env_now = 0, env_tv_sec = 5, env_tv_nsec = 6, env_junk = 0\<rparr>" "Some 2"]
    unfolding t by simp
qed

end
