(* ===== verification/Replica_Queue.thy ===== *)
theory Replica_Queue
  imports Replica_Recovery "HOL-Library.Signed_Division"
begin

text \<open>
  The message queue and the timers of \<open>src/server/replica.cpp\<close>: admission of a message, the
  decision what to do about a message that cannot be processed, the processing loop, the
  liveness check and the heartbeat.

  A handler reads the clocks when it runs; \<open>envs i\<close> is what the \<open>i\<close>-th dispatch of one call of
  \<open>process_message_queue\<close> reads.
\<close>

section \<open>Admission and dispatch\<close>

datatype StateAction = PROCESS_NORMALLY | INITIATE_VIEW_CHANGE | INITIATE_RECOVERY

definition can_process :: "ReplicaState \<Rightarrow> inbound_message \<Rightarrow> bool" where
  "can_process s inbound =
     (let msg = in_message inbound
      in case h_command (msg_header msg) of
           command_ping \<Rightarrow> True
         | command_pong \<Rightarrow> True
         | command_request \<Rightarrow> check_can_process_request s msg
         | command_prepare \<Rightarrow> check_can_process_prepare s msg
         | command_prepare_ok \<Rightarrow> check_can_process_prepare_ok s msg
         | command_commit \<Rightarrow> check_can_process_commit s msg
         | command_start_view_change \<Rightarrow> check_can_process_start_view_change s msg
         | command_do_view_change \<Rightarrow> check_can_process_do_view_change s msg
         | command_start_view \<Rightarrow> check_can_process_start_view s msg
         | command_recovery \<Rightarrow> check_can_process_recovery_request s msg
         | command_recovery_response \<Rightarrow> check_can_process_recovery_response s msg
         | _ \<Rightarrow> False)"

definition determine_state_action :: "ReplicaState \<Rightarrow> vsr_message \<Rightarrow> StateAction" where
  "determine_state_action s stuck_msg =
     (let h = msg_header stuck_msg
      in if h_view h > st_view s then
           if h_view h = st_view s + 1 \<and>
              (h_command h = command_start_view_change \<or> h_command h = command_do_view_change)
           then INITIATE_VIEW_CHANGE
           else INITIATE_RECOVERY
         else if \<not> is_primary s \<and> h_command h = command_prepare \<and> h_view h = st_view s \<and>
                 h_op h > st_op s + 1
         then INITIATE_RECOVERY
         else PROCESS_NORMALLY)"

definition is_stale :: "ReplicaState \<Rightarrow> vsr_message \<Rightarrow> bool" where
  "is_stale s msg \<longleftrightarrow>
     h_command (msg_header msg) \<noteq> command_request \<and>
     h_command (msg_header msg) \<noteq> command_recovery \<and>
     h_view (msg_header msg) < st_view s"

definition dispatch :: "environment \<Rightarrow> inbound_message \<Rightarrow> replica \<Rightarrow> replica" where
  "dispatch env inbound r =
     (case h_command (in_header inbound) of
        command_ping \<Rightarrow> handle_ping inbound r
      | command_request \<Rightarrow> handle_request inbound r
      | command_prepare \<Rightarrow> handle_prepare env inbound r
      | command_prepare_ok \<Rightarrow> handle_prepare_ok inbound r
      | command_commit \<Rightarrow> handle_commit env inbound r
      | command_start_view_change \<Rightarrow> handle_start_view_change env inbound r
      | command_do_view_change \<Rightarrow> handle_do_view_change env inbound r
      | command_start_view \<Rightarrow> handle_start_view env inbound r
      | command_recovery \<Rightarrow> handle_recovery_request inbound r
      | command_recovery_response \<Rightarrow> handle_recovery_response env inbound r
      | _ \<Rightarrow> r)"

text \<open>No handler touches the queue.\<close>

lemma handle_do_view_change_queue [simp]:
  "r_message_queue (handle_do_view_change env inbound r) = r_message_queue r"
  by (simp add: handle_do_view_change_def Let_def split: prod.splits)

lemma dispatch_queue [simp]: "r_message_queue (dispatch env inbound r) = r_message_queue r"
proof (cases "h_command (in_header inbound)")
qed (simp_all add: dispatch_def handle_ping_def handle_request_def handle_prepare_def
    handle_prepare_ok_def handle_commit_def handle_start_view_change_def handle_start_view_def
    handle_recovery_request_def handle_recovery_response_def adopt_recovery_def
    advance_primary_commit_number_def Let_def split: option.splits prod.splits bool.splits)

section \<open>The processing loop\<close>

text \<open>
  The inner loop: it takes messages from the head of the queue until the queue is empty or the
  head can neither be discarded as stale nor processed. The flag is \<open>processed_in_pass\<close>.
\<close>

function drain_queue :: "(nat \<Rightarrow> environment) \<Rightarrow> nat \<Rightarrow> replica \<Rightarrow> bool \<Rightarrow> nat \<times> replica \<times> bool" where
  "drain_queue envs i r processed =
     (case r_message_queue r of
        [] \<Rightarrow> (i, r, processed)
      | inbound # rest \<Rightarrow>
          if is_stale (r_state r) (in_message inbound)
          then drain_queue envs i (r\<lparr>r_message_queue := rest\<rparr>) True
          else if can_process (r_state r) inbound
          then drain_queue envs (Suc i) (dispatch (envs i) inbound (r\<lparr>r_message_queue := rest\<rparr>)) True
          else (i, r, processed))"
  by pat_completeness auto
termination
  by (relation "measure (\<lambda>(envs, i, r, processed). length (r_message_queue r))") simp_all

declare drain_queue.simps [simp del]

text \<open>What the loop does about a message it is stuck on.\<close>

definition resolve_stuck :: "environment \<Rightarrow> replica \<Rightarrow> replica" where
  "resolve_stuck env r =
     (case r_message_queue r of
        [] \<Rightarrow> r
      | stuck # _ \<Rightarrow>
          if st_status (r_state r) = NORMAL then
            case determine_state_action (r_state r) (in_message stuck) of
              INITIATE_RECOVERY \<Rightarrow> (initiate_recovery env r)\<lparr>r_message_queue := []\<rparr>
            | INITIATE_VIEW_CHANGE \<Rightarrow> initiate_view_change r
            | PROCESS_NORMALLY \<Rightarrow> r
          else r)"

lemma drain_queue_length:
  "drain_queue envs i r p = (i', r', p') \<Longrightarrow>
     length (r_message_queue r') \<le> length (r_message_queue r) \<and>
     (p' \<longrightarrow> p \<or> length (r_message_queue r') < length (r_message_queue r))"
proof (induction envs i r p arbitrary: i' r' p' rule: drain_queue.induct)
  case (1 envs i r p)
  show ?case
  proof (cases "r_message_queue r")
    case Nil
    with "1.prems" show ?thesis by (simp add: drain_queue.simps [of envs i r p])
  next
    case (Cons inbound rest)
    show ?thesis
      using "1.prems" "1.IH"(1) [OF Cons] "1.IH"(2) [OF Cons] Cons
      by (subst (asm) drain_queue.simps) (fastforce split: if_splits)
  qed
qed

lemma resolve_stuck_length: "length (r_message_queue (resolve_stuck env r)) \<le> length (r_message_queue r)"
  by (auto simp: resolve_stuck_def initiate_view_change_def Let_def split: list.splits StateAction.splits)

function process_loop :: "(nat \<Rightarrow> environment) \<Rightarrow> nat \<Rightarrow> replica \<Rightarrow> replica" where
  "process_loop envs i r =
     (case drain_queue envs i r False of
        (i1, r1, processed_in_pass) \<Rightarrow>
          if processed_in_pass then process_loop envs (Suc i1) (resolve_stuck (envs i1) r1)
          else resolve_stuck (envs i1) r1)"
  by pat_completeness auto
termination
proof (relation "measure (\<lambda>(envs, i, r). length (r_message_queue r))", goal_cases)
  case (2 envs i r i1 y r1 p)
  then have "drain_queue envs i r False = (i1, r1, p)" by simp
  from drain_queue_length [OF this] \<open>p\<close> show ?case
    using resolve_stuck_length [of "envs i1" r1] by simp
qed simp

declare process_loop.simps [simp del]

definition process_message_queue :: "(nat \<Rightarrow> environment) \<Rightarrow> replica \<Rightarrow> replica" where
  "process_message_queue envs r = process_loop envs 0 r"

definition enqueue_message :: "connection option \<Rightarrow> vsr_message \<Rightarrow> replica \<Rightarrow> replica" where
  "enqueue_message connection message r =
     emit Post_process_queue
       (r\<lparr>r_message_queue := r_message_queue r @ [\<lparr>in_connection = connection, in_message = message\<rparr>]\<rparr>)"

section \<open>Timers\<close>

definition heartbeat_interval :: nat where "heartbeat_interval = 200"
definition liveness_check_interval :: nat where "liveness_check_interval = 200"
definition primary_timeout :: int where "primary_timeout = 2000"

definition schedule_liveness_check :: "replica \<Rightarrow> replica" where
  "schedule_liveness_check r = emit (Submit_timeout liveness_check_interval Liveness_check) r"

definition schedule_heartbeat :: "replica \<Rightarrow> replica" where
  "schedule_heartbeat r = emit (Submit_timeout heartbeat_interval Heartbeat) r"

text \<open>The clock counts nanoseconds; the cast to milliseconds truncates towards zero.\<close>

definition duration_since_contact :: "environment \<Rightarrow> replica \<Rightarrow> int" where
  "duration_since_contact env r = (env_now env - r_last_primary_contact r) sdiv 1000000"

definition check_primary_liveness :: "environment \<Rightarrow> replica \<Rightarrow> replica" where
  "check_primary_liveness env r =
     schedule_liveness_check
       (if \<not> is_primary (r_state r) \<and> st_status (r_state r) = NORMAL \<and>
           duration_since_contact env r > primary_timeout
        then initiate_view_change r else r)"

definition heartbeat :: "replica \<Rightarrow> replica" where
  "heartbeat r = schedule_heartbeat (send_commit_message_if_needed r)"

lemma heartbeat_state [simp]:
  "r_state (heartbeat r) = r_state r" "r_message_queue (heartbeat r) = r_message_queue r"
  by (simp_all add: heartbeat_def schedule_heartbeat_def send_commit_message_if_needed_def Let_def)

definition run :: "environment \<Rightarrow> replica \<Rightarrow> replica" where
  "run env r =
     schedule_liveness_check ((schedule_heartbeat r)\<lparr>r_last_primary_contact := env_now env\<rparr>)"

end
