(* ===== verification/Replica_Step.thy ===== *)
theory Replica_Step
  imports Replica_Queue
begin

text \<open>
  A replica as a state machine. \<open>queue_step\<close> is one turn of the loop in \<open>process_message_queue\<close>;
  the loop is a sequence of such turns. \<open>replica_step\<close> is what the event loop can do to a replica:
  deliver a message, process the queue, run a timer. Invariants are proved by rule induction.
\<close>

section \<open>The step relations\<close>

text \<open>The message at the head of the queue is neither discarded nor processed.\<close>

definition head_blocked :: "replica \<Rightarrow> bool" where
  "head_blocked r = (case r_message_queue r of [] \<Rightarrow> False
     | inbound # _ \<Rightarrow> \<not> is_stale (r_state r) (in_message inbound) \<and> \<not> can_process (r_state r) inbound)"

inductive queue_step :: "replica \<Rightarrow> replica \<Rightarrow> bool" where
  discard: "r_message_queue r = inbound # rest \<Longrightarrow> is_stale (r_state r) (in_message inbound) \<Longrightarrow>
     queue_step r (r\<lparr>r_message_queue := rest\<rparr>)"
| handle: "r_message_queue r = inbound # rest \<Longrightarrow> \<not> is_stale (r_state r) (in_message inbound) \<Longrightarrow>
     can_process (r_state r) inbound \<Longrightarrow>
     queue_step r (dispatch env inbound (r\<lparr>r_message_queue := rest\<rparr>))"
| recover: "r_message_queue r = inbound # rest \<Longrightarrow> st_status (r_state r) = NORMAL \<Longrightarrow>
     determine_state_action (r_state r) (in_message inbound) = INITIATE_RECOVERY \<Longrightarrow> head_blocked r \<Longrightarrow>
     queue_step r ((initiate_recovery env r)\<lparr>r_message_queue := []\<rparr>)"
| join: "r_message_queue r = inbound # rest \<Longrightarrow> st_status (r_state r) = NORMAL \<Longrightarrow>
     determine_state_action (r_state r) (in_message inbound) = INITIATE_VIEW_CHANGE \<Longrightarrow> head_blocked r \<Longrightarrow>
     queue_step r (initiate_view_change r)"

definition message_ok :: "vsr_message \<Rightarrow> bool" where
  "message_ok m \<longleftrightarrow> wf_header (msg_header m) \<and> length (msg_payload m) < 2 ^ 64"

inductive replica_step :: "replica \<Rightarrow> replica \<Rightarrow> bool" where
  deliver: "message_ok m \<Longrightarrow> replica_step r (enqueue_message c m r)"
| process: "replica_step r (process_message_queue envs r)"
| liveness: "replica_step r (check_primary_liveness env r)"
| beat: "replica_step r (heartbeat r)"

inductive reachable :: "int \<Rightarrow> peer_config list \<Rightarrow> replica \<Rightarrow> bool" for i config where
  start: "reachable i config (run env (new_replica i config))"
| step: "reachable i config r \<Longrightarrow> replica_step r r' \<Longrightarrow> reachable i config r'"


lemma resolve_stuck_steps:
  assumes "r_message_queue r = [] \<or> head_blocked r"
  shows "queue_step\<^sup>*\<^sup>* r (resolve_stuck env r)"
proof (cases "r_message_queue r")
  case (Cons inbound rest)
  with assms show ?thesis
    by (auto simp: resolve_stuck_def intro: recover join split: StateAction.splits)
qed (simp add: resolve_stuck_def)

lemma drain_queue_outcome:
  "drain_queue envs i r p = (i', r', p') \<Longrightarrow> r_message_queue r' = [] \<or> head_blocked r'"
proof (induction envs i r p arbitrary: i' r' p' rule: drain_queue.induct)
  case (1 envs i r p)
  show ?case
  proof (cases "r_message_queue r")
    case Nil
    with "1.prems" show ?thesis by (simp add: drain_queue.simps [of envs i r p])
  next
    case (Cons inbound rest)
    show ?thesis
      using "1.IH"(1) [OF Cons] "1.IH"(2) [OF Cons] "1.prems" Cons
      by (simp add: drain_queue.simps [of envs i r p] head_blocked_def split: if_splits)
  qed
qed

lemma drain_queue_steps:
  "drain_queue envs i r p = (i', r', p') \<Longrightarrow> queue_step\<^sup>*\<^sup>* r r'"
proof (induction envs i r p arbitrary: i' r' p' rule: drain_queue.induct)
  case (1 envs i r p)
  show ?case
  proof (cases "r_message_queue r")
    case Nil
    with "1.prems" show ?thesis by (simp add: drain_queue.simps [of envs i r p])
  next
    case (Cons inbound rest)
    consider (stale) "is_stale (r_state r) (in_message inbound)"
      | (handle) "\<not> is_stale (r_state r) (in_message inbound)" "can_process (r_state r) inbound"
      | (stuck) "\<not> is_stale (r_state r) (in_message inbound)" "\<not> can_process (r_state r) inbound"
      by blast
    then show ?thesis
    proof cases
      case stale
      then have "queue_step\<^sup>*\<^sup>* (r\<lparr>r_message_queue := rest\<rparr>) r'"
        using "1.IH"(1) [OF Cons stale] "1.prems" Cons by (simp add: drain_queue.simps [of envs i r p])
      with discard [OF Cons stale] show ?thesis by (rule converse_rtranclp_into_rtranclp)
    next
      case handle
      then have "queue_step\<^sup>*\<^sup>* (dispatch (envs i) inbound (r\<lparr>r_message_queue := rest\<rparr>)) r'"
        using "1.IH"(2) [OF Cons handle] "1.prems" Cons by (simp add: drain_queue.simps [of envs i r p])
      with queue_step.handle [OF Cons handle] show ?thesis by (rule converse_rtranclp_into_rtranclp)
    next
      case stuck
      with "1.prems" Cons show ?thesis by (simp add: drain_queue.simps [of envs i r p])
    qed
  qed
qed

lemma process_loop_steps: "queue_step\<^sup>*\<^sup>* r (process_loop envs i r)"
proof (induction envs i r rule: process_loop.induct)
  case (1 envs i r)
  obtain i1 r1 p where d: "drain_queue envs i r False = (i1, r1, p)"
    by (metis prod.exhaust)
  have drained: "queue_step\<^sup>*\<^sup>* r (resolve_stuck (envs i1) r1)"
    using drain_queue_steps [OF d] resolve_stuck_steps [OF drain_queue_outcome [OF d]] by (rule rtranclp_trans)
  show ?case
  proof (cases p)
    case True
    with "1.IH" [OF d [symmetric] refl True] d drained show ?thesis
      by (simp add: process_loop.simps [of envs i r])
  next
    case False
    with d drained show ?thesis
      by (simp add: process_loop.simps [of envs i r])
  qed
qed

text \<open>
  What holds of the queue loop follows from its turns: a predicate that every turn keeps is
  kept by processing the queue.
\<close>

locale queue_invariant =
  fixes inv :: "replica \<Rightarrow> bool"
  assumes turn: "queue_step r r' \<Longrightarrow> inv r \<Longrightarrow> inv r'"
begin

lemma turns: "queue_step\<^sup>*\<^sup>* r r' \<Longrightarrow> inv r \<Longrightarrow> inv r'"
  by (induction rule: rtranclp_induct) (auto intro: turn)

lemma processed: "inv r \<Longrightarrow> inv (process_message_queue envs r)"
  unfolding process_message_queue_def by (rule turns [OF process_loop_steps])

end

section \<open>Well-formed replicas\<close>

definition log_ok :: "vsr_log \<Rightarrow> bool" where
  "log_ok log \<longleftrightarrow> om_ok log \<and>
     list_all (\<lambda>ke. wf_entry (snd ke) \<and> finite (le_prepare_ok_acks (snd ke))) log"

definition state_ok :: "ReplicaState \<Rightarrow> bool" where
  "state_ok s \<longleftrightarrow> log_ok (st_log s) \<and> om_ok (st_client_table s) \<and> cluster_wf s \<and>
     finite (st_start_view_change_received s) \<and>
     (st_status s = RECOVERY \<longrightarrow> (\<forall>m \<in> set (st_recovery_responses s). st_view s \<le> h_view (msg_header m)))"

definition replica_ok :: "replica \<Rightarrow> bool" where
  "replica_ok r \<longleftrightarrow> state_ok (r_state r) \<and> om_ok (r_client_connections r) \<and>
     (\<forall>inbound \<in> set (r_message_queue r). message_ok (in_message inbound))"

lemma log_ok_assign:
  "log_ok log \<Longrightarrow> wf_entry e \<Longrightarrow> finite (le_prepare_ok_acks e) \<Longrightarrow> log_ok (om_assign k e log)"
  using om_set_assign [of k e log] by (fastforce simp: log_ok_def list_all_iff)

lemma log_ok_find: "log_ok log \<Longrightarrow> om_find log k = Some e \<Longrightarrow> wf_entry e \<and> finite (le_prepare_ok_acks e)"
  by (fastforce simp: log_ok_def list_all_iff dest: om_find_in)

lemma log_ok_read: "read_log_from_buffer bs [] = (res, log) \<Longrightarrow> log_ok log"
  using read_log_wf [of bs res log] by (auto simp: log_ok_def list_all_iff)

lemma log_ok_Nil [simp]: "log_ok []"
  by (simp add: log_ok_def)

lemma log_ok_do_view_change:
  "do_view_change_deserialize data \<lparr>dvc_last_normal_view = j, dvc_log = []\<rparr> = (ok, p) \<Longrightarrow> log_ok (dvc_log p)"
  by (auto simp: do_view_change_deserialize_def Let_def log_ok_read split: option.splits prod.splits)

lemma log_ok_start_view:
  "start_view_deserialize data \<lparr>sv_log = []\<rparr> = (ok, p) \<Longrightarrow> log_ok (sv_log p)"
  by (auto simp: start_view_deserialize_def Let_def log_ok_read split: option.splits prod.splits)

lemma log_ok_recovery_response:
  "recovery_response_deserialize data \<lparr>rs_nonce = n, rs_log = []\<rparr> = (ok, p) \<Longrightarrow> log_ok (rs_log p)"
  by (auto simp: recovery_response_deserialize_def Let_def log_ok_read split: option.splits prod.splits)

lemma cluster_wf_cong:
  "st_f s = st_f t \<Longrightarrow> st_cluster_config s = st_cluster_config t \<Longrightarrow> cluster_wf s = cluster_wf t"
  by (simp add: cluster_wf_def)

lemma om_ok_table_execute_entry:
  "om_ok (st_client_table (r_state r)) \<Longrightarrow> om_ok (st_client_table (r_state (execute_entry e r)))"
  by (simp add: execute_entry_def Let_def case_prod_beta)

lemma om_ok_table_execute:
  "om_ok (st_client_table (r_state r)) \<Longrightarrow> om_ok (st_client_table (r_state (execute_commited_ops r)))"
proof (induction r rule: execute_commited_ops_induct)
  case (advance r e)
  then show ?case by (simp add: execute_next_def om_ok_table_execute_entry)
qed simp

lemma state_ok_execute [simp]:
  "state_ok (r_state r) \<Longrightarrow> state_ok (r_state (execute_commited_ops r))"
  by (simp add: state_ok_def om_ok_table_execute cluster_wf_def)

lemma replica_ok_execute [simp]: "replica_ok r \<Longrightarrow> replica_ok (execute_commited_ops r)"
  by (simp add: replica_ok_def)

lemma replica_ok_emit [simp]: "replica_ok (emit a r) = replica_ok r"
  by (simp add: replica_ok_def)

lemma replica_ok_contact [simp]: "replica_ok (r\<lparr>r_last_primary_contact := t\<rparr>) = replica_ok r"
  by (simp add: replica_ok_def)

lemma state_ok_commit [simp]: "state_ok (s\<lparr>st_commit := c\<rparr>) = state_ok s"
  by (simp add: state_ok_def cluster_wf_def)

lemma replica_ok_learn_commit [simp]: "replica_ok r \<Longrightarrow> replica_ok (learn_commit c r)"
  by (simp add: learn_commit_def) (simp add: replica_ok_def)

lemma om_ok_raise:
  "om_ok t \<Longrightarrow> om_ok (fold raise_request_number log t)"
  by (induction log arbitrary: t) (simp_all add: raise_request_number_def Let_def split: prod.splits)

lemma replica_ok_ping: "replica_ok r \<Longrightarrow> replica_ok (handle_ping inbound r)"
  by (simp add: handle_ping_def Let_def)

lemma replica_ok_request:
  assumes "replica_ok r" and "message_ok (in_message inbound)"
  shows "replica_ok (handle_request inbound r)"
proof -
  have "log_ok (om_assign (st_op (r_state r) + 1)
      \<lparr>le_view = st_view (r_state r), le_op_type = h_operation (in_header inbound),
       le_client_id = h_client (in_header inbound), le_request_num = h_request (in_header inbound),
       le_payload = in_payload inbound, le_prepare_ok_acks = {st_id (r_state r)}\<rparr> (st_log (r_state r)))"
    using assms by (intro log_ok_assign)
      (auto simp: replica_ok_def state_ok_def message_ok_def wf_entry_def wf_header_def)
  then show ?thesis
    using assms
    by (simp add: handle_request_def Let_def) (simp add: replica_ok_def state_ok_def cluster_wf_def)
qed

lemma replica_ok_prepare:
  assumes "replica_ok r" and "message_ok (in_message inbound)"
  shows "replica_ok (handle_prepare env inbound r)"
proof -
  have "log_ok (om_assign (st_op (r_state r) + 1)
      \<lparr>le_view = st_view (r_state r), le_op_type = h_operation (in_header inbound),
       le_client_id = h_client (in_header inbound), le_request_num = h_request (in_header inbound),
       le_payload = in_payload inbound, le_prepare_ok_acks = {}\<rparr> (st_log (r_state r)))"
    using assms by (intro log_ok_assign)
      (auto simp: replica_ok_def state_ok_def message_ok_def wf_entry_def wf_header_def)
  then show ?thesis
    using assms
    by (simp add: handle_prepare_def Let_def) (intro replica_ok_learn_commit,
      simp add: replica_ok_def state_ok_def cluster_wf_def)
qed

lemma replica_ok_advance: "replica_ok r \<Longrightarrow> replica_ok (advance_primary_commit_number r)"
  unfolding advance_primary_commit_number_def
  by (subst advance_loop_frame) (auto simp: replica_ok_def intro!: replica_ok_execute)

lemma replica_ok_prepare_ok:
  assumes "replica_ok r"
  shows "replica_ok (handle_prepare_ok inbound r)"
proof (cases "om_find (st_log (r_state r)) (h_op (in_header inbound))")
  case (Some e)
  have "log_ok (st_log (r_state r))"
    using assms by (simp add: replica_ok_def state_ok_def)
  from log_ok_find [OF this Some] have "wf_entry e \<and> finite (le_prepare_ok_acks e)" .
  then have "log_ok (om_assign (h_op (in_header inbound))
      (e\<lparr>le_prepare_ok_acks := insert (uint (h_replica (in_header inbound))) (le_prepare_ok_acks e)\<rparr>)
      (st_log (r_state r)))"
    using assms by (intro log_ok_assign) (auto simp: replica_ok_def state_ok_def wf_entry_def)
  then show ?thesis
    using assms Some
    by (simp add: handle_prepare_ok_def Let_def) (intro replica_ok_advance,
      simp add: replica_ok_def state_ok_def cluster_wf_def)
qed (use assms in \<open>simp add: handle_prepare_ok_def\<close>)

lemma replica_ok_commit: "replica_ok r \<Longrightarrow> replica_ok (handle_commit env inbound r)"
  by (simp add: handle_commit_def)

lemma select_log_ok:
  "log_ok (dvc_log (fst (select_first j c m)))"
  "log_ok (dvc_log (fst sel)) \<Longrightarrow> log_ok (dvc_log (fst (select_next j m sel)))"
proof -
  show "log_ok (dvc_log (fst (select_first j c m)))"
    using log_ok_do_view_change [of "msg_payload m" j] by (simp add: select_first_def) (metis prod.collapse)
  obtain bp bo mc where "sel = (bp, bo, mc)" by (metis prod.exhaust)
  then show "log_ok (dvc_log (fst sel)) \<Longrightarrow> log_ok (dvc_log (fst (select_next j m sel)))"
    using log_ok_do_view_change [of "msg_payload m" j]
    by (simp add: select_next_eq payload_of_def better_payload_def) (metis prod.collapse)
qed

lemma fold_select_log_ok:
  "log_ok (dvc_log (fst sel)) \<Longrightarrow> log_ok (dvc_log (fst (fold (select_next j) ms sel)))"
  by (induction ms arbitrary: sel) (simp_all add: select_log_ok)

lemma replica_ok_do_view_change:
  assumes "replica_ok r"
  shows "replica_ok (handle_do_view_change env inbound r)"
proof -
  let ?received = "st_do_view_change_received (r_state r) @ [in_message inbound]"
  obtain bp bo mc where sel: "fold (select_next (env_junk env)) (tl ?received)
      (select_first (env_junk env) (st_commit (r_state r)) (hd ?received)) = (bp, bo, mc)"
    by (metis prod.exhaust)
  then have "log_ok (dvc_log bp)"
    using fold_select_log_ok [OF select_log_ok(1), of "env_junk env" "tl ?received" "env_junk env"
        "st_commit (r_state r)" "hd ?received"] by simp
  then show ?thesis
    using assms sel
    by (simp add: handle_do_view_change_def Let_def)
      (auto simp: replica_ok_def state_ok_def cluster_wf_def om_ok_table_execute)
qed

lemma replica_ok_start_view_change:
  assumes "replica_ok r"
  shows "replica_ok (handle_start_view_change env inbound r)"
  using assms
  by (auto simp: handle_start_view_change_def Let_def intro!: replica_ok_do_view_change)
    (auto simp: replica_ok_def state_ok_def cluster_wf_def)

lemma replica_ok_retroactive: "replica_ok (retroactive_loop n op p r) = replica_ok r"
  by (simp add: replica_ok_def)

lemma replica_ok_start_view:
  assumes "replica_ok r"
  shows "replica_ok (handle_start_view env inbound r)"
proof -
  obtain ok p where d: "start_view_deserialize (in_payload inbound) \<lparr>sv_log = []\<rparr> = (ok, p)"
    by (metis prod.exhaust)
  then have "log_ok (sv_log p)" by (rule log_ok_start_view)
  then show ?thesis
    using assms d
    by (cases ok) (auto simp: handle_start_view_def Let_def replica_ok_retroactive replica_ok_def state_ok_def
        cluster_wf_def om_ok_raise om_ok_table_execute)
qed

lemma replica_ok_recovery_request: "replica_ok r \<Longrightarrow> replica_ok (handle_recovery_request inbound r)"
  by (simp add: handle_recovery_request_def split: prod.splits bool.splits)

lemma adopt_recovery_ok:
  assumes "replica_ok r"
  shows "replica_ok (adopt_recovery env best r)"
proof -
  obtain ok p where d: "recovery_response_deserialize (msg_payload best)
      \<lparr>rs_nonce = uint128_zero, rs_log = []\<rparr> = (ok, p)"
    by (metis prod.exhaust)
  then have "log_ok (rs_log p)" by (rule log_ok_recovery_response)
  then show ?thesis
    using assms d
    by (auto simp: adopt_recovery_def Let_def replica_ok_def state_ok_def cluster_wf_def om_ok_raise
        om_ok_table_execute)
qed

lemma replica_ok_recovery_response:
  assumes "replica_ok r" and "st_view (r_state r) \<le> h_view (in_header inbound)"
  shows "replica_ok (handle_recovery_response env inbound r)"
proof -
  have "replica_ok (set_state (\<lambda>s. s\<lparr>st_recovery_responses :=
      st_recovery_responses (r_state r) @ [in_message inbound]\<rparr>) r)"
    using assms by (auto simp: replica_ok_def state_ok_def cluster_wf_def)
  then show ?thesis
    using assms(1) adopt_recovery_ok
    by (auto simp: handle_recovery_response_def Let_def split: prod.splits bool.splits)
qed

lemma replica_ok_initiate_view_change: "replica_ok r \<Longrightarrow> replica_ok (initiate_view_change r)"
  by (simp add: initiate_view_change_def enter_new_view_def Let_def)
    (simp add: replica_ok_def state_ok_def cluster_wf_def)

lemma replica_ok_initiate_recovery: "replica_ok r \<Longrightarrow> replica_ok (initiate_recovery env r)"
  by (simp add: initiate_recovery_def Let_def split: prod.splits)
    (simp add: replica_ok_def state_ok_def cluster_wf_def)

lemmas handler_ok = replica_ok_ping replica_ok_request replica_ok_prepare replica_ok_prepare_ok
  replica_ok_commit replica_ok_start_view_change replica_ok_do_view_change replica_ok_start_view
  replica_ok_recovery_request replica_ok_recovery_response

lemma dispatch_ok:
  assumes "replica_ok r" and "message_ok (in_message inbound)" and "\<not> is_stale (r_state r) (in_message inbound)"
  shows "replica_ok (dispatch env inbound r)"
proof (cases "h_command (in_header inbound)")
qed (use assms in \<open>simp_all add: dispatch_def handler_ok is_stale_def\<close>)

lemma replica_ok_pop:
  "replica_ok r \<Longrightarrow> r_message_queue r = inbound # rest \<Longrightarrow> replica_ok (r\<lparr>r_message_queue := rest\<rparr>)"
  by (simp add: replica_ok_def)

lemma replica_ok_clear: "replica_ok r \<Longrightarrow> replica_ok (r\<lparr>r_message_queue := []\<rparr>)"
  by (simp add: replica_ok_def)

interpretation ok_turn: queue_invariant replica_ok
proof
  show "queue_step r r' \<Longrightarrow> replica_ok r \<Longrightarrow> replica_ok r'" for r r'
  proof (induction rule: queue_step.induct)
    case (handle r inbound rest env)
    then show ?case
      by (intro dispatch_ok) (auto simp: replica_ok_def)
  qed (auto intro: replica_ok_pop replica_ok_clear replica_ok_initiate_recovery
      replica_ok_initiate_view_change)
qed

lemma replica_step_ok: "replica_step r r' \<Longrightarrow> replica_ok r \<Longrightarrow> replica_ok r'"
proof (induction rule: replica_step.induct)
  case (deliver m r c)
  then show ?case by (auto simp: enqueue_message_def replica_ok_def)
next
  case (process r envs)
  then show ?case by (rule ok_turn.processed)
next
  case (liveness r env)
  then show ?case
    by (simp add: check_primary_liveness_def schedule_liveness_check_def replica_ok_initiate_view_change)
next
  case (beat r)
  then show ?case
    by (simp add: heartbeat_def schedule_heartbeat_def send_commit_message_if_needed_def Let_def)
qed

lemma replica_ok_start:
  "cluster_wf (new_ReplicaState i config) \<Longrightarrow> replica_ok (run env (new_replica i config))"
  by (simp add: run_def schedule_liveness_check_def schedule_heartbeat_def)
    (simp add: replica_ok_def state_ok_def new_replica_def new_ReplicaState_def cluster_wf_def)

lemma reachable_ok: "reachable i config r \<Longrightarrow> cluster_wf (new_ReplicaState i config) \<Longrightarrow> replica_ok r"
  by (induction rule: reachable.induct) (auto intro: replica_ok_start replica_step_ok)

section \<open>Identity and view of a replica\<close>

abbreviation static :: "replica \<Rightarrow> int \<times> int \<times> (int, peer_config) omap" where
  "static r \<equiv> (st_id (r_state r), st_f (r_state r), st_cluster_config (r_state r))"

lemma handle_do_view_change_static [simp]:
  "st_id (r_state (handle_do_view_change env inbound r)) = st_id (r_state r)"
  "st_f (r_state (handle_do_view_change env inbound r)) = st_f (r_state r)"
  "st_cluster_config (r_state (handle_do_view_change env inbound r)) = st_cluster_config (r_state r)"
  "st_view (r_state (handle_do_view_change env inbound r)) = st_view (r_state r)"
  by (simp_all add: handle_do_view_change_def Let_def split: prod.splits)

lemma adopt_recovery_static [simp]:
  "st_id (r_state (adopt_recovery env best r)) = st_id (r_state r)"
  "st_f (r_state (adopt_recovery env best r)) = st_f (r_state r)"
  "st_cluster_config (r_state (adopt_recovery env best r)) = st_cluster_config (r_state r)"
  "st_view (r_state (adopt_recovery env best r)) = h_view (msg_header best)"
  by (simp_all add: adopt_recovery_def Let_def)

lemma dispatch_static: "static (dispatch env inbound r) = static r"
proof (cases "h_command (in_header inbound)")
  case command_start_view_change
  then show ?thesis
    by (auto simp: dispatch_def handle_start_view_change_def Let_def)
next
  case command_recovery_response
  then show ?thesis
    by (auto simp: dispatch_def handle_recovery_response_def Let_def split: prod.splits bool.splits)
qed (simp_all add: dispatch_def handle_ping_def handle_request_def handle_prepare_def
    handle_prepare_ok_def handle_commit_def handle_start_view_def handle_recovery_request_def
    advance_primary_commit_number_def Let_def split: option.splits prod.splits bool.splits)

lemma initiate_static [simp]:
  "st_id (r_state (initiate_view_change r)) = st_id (r_state r)"
  "st_f (r_state (initiate_view_change r)) = st_f (r_state r)"
  "st_cluster_config (r_state (initiate_view_change r)) = st_cluster_config (r_state r)"
  "st_id (r_state (initiate_recovery env r)) = st_id (r_state r)"
  "st_f (r_state (initiate_recovery env r)) = st_f (r_state r)"
  "st_cluster_config (r_state (initiate_recovery env r)) = st_cluster_config (r_state r)"
  "st_view (r_state (initiate_view_change r)) = st_view (r_state r) + 1"
  "st_view (r_state (initiate_recovery env r)) = st_view (r_state r)"
  by (simp_all add: initiate_view_change_def initiate_recovery_def enter_new_view_def Let_def
      split: prod.splits)

interpretation static_turn: queue_invariant "\<lambda>r. static r = k" for k
proof
  show "queue_step r r' \<Longrightarrow> static r = k \<Longrightarrow> static r' = k" for r r'
  proof (induction rule: queue_step.induct)
    case (handle r inbound rest env)
    then show ?case using dispatch_static [of env inbound "r\<lparr>r_message_queue := rest\<rparr>"] by simp
  next
    case (recover r inbound rest env)
    then show ?case by simp
  next
    case (join r inbound rest)
    then show ?case by simp
  qed simp
qed

lemma recovery_response_view:
  assumes "replica_ok r" and "st_status (r_state r) = RECOVERY"
    and "st_view (r_state r) \<le> h_view (in_header inbound)"
  shows "st_view (r_state r) \<le> st_view (r_state (handle_recovery_response env inbound r))"
proof -
  let ?ms = "st_recovery_responses (r_state r) @ [in_message inbound]"
  have "\<forall>m \<in> set ?ms. st_view (r_state r) \<le> h_view (msg_header m)"
    using assms by (simp add: replica_ok_def state_ok_def)
  moreover have "fold better_response (tl ?ms) (hd ?ms) \<in> set (hd ?ms # tl ?ms)"
    by (rule rec.fold_pick_mem)
  then have "fold better_response (tl ?ms) (hd ?ms) \<in> set ?ms"
    by (metis list.collapse snoc_eq_iff_butlast)
  ultimately have "st_view (r_state r) \<le> h_view (msg_header (fold better_response (tl ?ms) (hd ?ms)))"
    by blast
  then show ?thesis
    by (simp add: handle_recovery_response_def Let_def split: prod.splits bool.splits)
qed

lemma dispatch_view:
  assumes "replica_ok r" and "\<not> is_stale (r_state r) (in_message inbound)" and "can_process (r_state r) inbound"
  shows "st_view (r_state r) \<le> st_view (r_state (dispatch env inbound r))"
proof (cases "h_command (in_header inbound)")
  case command_recovery_response
  then show ?thesis
    using assms recovery_response_view
    by (simp add: dispatch_def is_stale_def can_process_def check_can_process_recovery_response_def Let_def)
next
  case command_start_view
  then show ?thesis
    using assms
    by (simp add: dispatch_def handle_start_view_def can_process_def check_can_process_start_view_def Let_def
        split: prod.splits bool.splits if_splits)
next
  case command_start_view_change
  then show ?thesis
    by (auto simp: dispatch_def handle_start_view_change_def Let_def)
qed (simp_all add: dispatch_def handle_ping_def handle_request_def handle_prepare_def
    handle_prepare_ok_def handle_commit_def handle_recovery_request_def
    advance_primary_commit_number_def Let_def split: option.splits prod.splits bool.splits)

lemma view_succ_ge: "v < w \<Longrightarrow> v \<le> v + (1 :: 'a::len word)"
  using unat_Suc_less [of v w] by (simp add: word_le_nat_alt)

interpretation view_turn: queue_invariant "\<lambda>r. replica_ok r \<and> v \<le> st_view (r_state r)" for v
proof
  show "queue_step r r' \<Longrightarrow> replica_ok r \<and> v \<le> st_view (r_state r) \<Longrightarrow>
      replica_ok r' \<and> v \<le> st_view (r_state r')" for r r'
  proof (intro conjI)
    assume step: "queue_step r r'" and r: "replica_ok r \<and> v \<le> st_view (r_state r)"
    then show "replica_ok r'" by (blast intro: ok_turn.turn)
    from step r show "v \<le> st_view (r_state r')"
    proof (induction rule: queue_step.induct)
      case (handle r inbound rest env)
      have "st_view (r_state r) \<le> st_view (r_state (dispatch env inbound (r\<lparr>r_message_queue := rest\<rparr>)))"
        using dispatch_view [of "r\<lparr>r_message_queue := rest\<rparr>" inbound env] handle
        by (simp add: replica_ok_pop)
      with handle show ?case by (meson order_trans)
    next
      case (join r inbound rest)
      then have "st_view (r_state r) < h_view (in_header inbound)"
        by (simp add: determine_state_action_def Let_def split: if_splits)
      with join view_succ_ge show ?case by (metis initiate_static(7) order_trans)
    qed simp_all
  qed
qed

lemma replica_step_static: "replica_step r r' \<Longrightarrow> static r' = static r"
proof (induction rule: replica_step.induct)
  case (process r envs)
  show ?case using static_turn.processed [of r "static r" envs] by simp
next
  case (liveness r env)
  show ?case
    by (simp add: check_primary_liveness_def schedule_liveness_check_def)
qed (simp_all add: enqueue_message_def heartbeat_def schedule_heartbeat_def
    send_commit_message_if_needed_def Let_def)

lemma reachable_static:
  "reachable i config r \<Longrightarrow> static r = static (new_replica i config)"
proof (induction rule: reachable.induct)
  case (start env)
  then show ?case by (simp add: run_def schedule_liveness_check_def schedule_heartbeat_def)
next
  case (step r r')
  then show ?case using replica_step_static [of r r'] by simp
qed

section \<open>Properties of every reachable replica\<close>

text \<open>
  C23: a replica's view number never goes down, in any step from a reachable state, recovery
  included, unless the replica is in the last of the \<open>2 ^ 32\<close> views, from where a timeout
  wraps to 0; of steps in that view nothing is said.
\<close>
theorem view_never_decreases:
  assumes "reachable i config r" and "cluster_wf (new_ReplicaState i config)"
    and "replica_step r r'"
  shows "st_view (r_state r) \<le> st_view (r_state r') \<or> st_view (r_state r) = - 1"
  using assms(3)
proof cases
  case (process envs)
  then show ?thesis
    using view_turn.processed [of r "st_view (r_state r)" envs] reachable_ok [OF assms(1,2)] by simp
next
  case (liveness env)
  then show ?thesis
    by (cases "st_view (r_state r) = - 1")
      (auto simp: check_primary_liveness_def schedule_liveness_check_def word_order.not_eq_extremum
        intro: view_succ_ge)
qed (simp_all add: enqueue_message_def heartbeat_def schedule_heartbeat_def
    send_commit_message_if_needed_def Let_def)

definition sample_env :: "int \<Rightarrow> environment" where
  "sample_env t = \<lparr>env_now = t, env_tv_sec = 0, env_tv_nsec = 0, env_junk = 0\<rparr>"

definition sample_timed_out :: replica where
  "sample_timed_out = check_primary_liveness (sample_env 9000000000)
     (run (sample_env 0) (new_replica 1 server_cluster_config))"

lemma sample_timed_out:
  "reachable 1 server_cluster_config sample_timed_out" "st_view (r_state sample_timed_out) = 1"
proof -
  show "reachable 1 server_cluster_config sample_timed_out"
    unfolding sample_timed_out_def by (rule reachable.step [OF reachable.start replica_step.liveness])
  have "\<not> is_primary (new_ReplicaState 1 server_cluster_config)"
    by (simp add: is_primary_def get_primary_id_def new_ReplicaState_def fault_tolerance_def
        server_cluster_config_def)
  then show "st_view (r_state sample_timed_out) = 1"
    by (simp add: sample_timed_out_def check_primary_liveness_def run_def schedule_liveness_check_def
        schedule_heartbeat_def duration_since_contact_def sample_env_def primary_timeout_def new_replica_def)
      (simp add: new_ReplicaState_def)
qed

theorem view_never_decreases_witness:
  "1 \<le> st_view (r_state (process_message_queue (\<lambda>i. sample_env 0) sample_timed_out))"
  using view_never_decreases [OF sample_timed_out(1) server_cluster_wf
      replica_step.process [where envs = "\<lambda>i. sample_env 0"]] sample_timed_out(2)
  by simp

end
