(* ===== verification/Cluster.thy ===== *)
theory Cluster
  imports Replica_Step "HOL-Library.Multiset"
begin

text \<open>
  A cluster of replicas and the network between them. What a replica hands to its protocol
  handler travels as a packet to one addressee; the network may lose and reorder packets but,
  as TCP does, delivers each at most once, with the fields that sealing adds. Where a message
  is sent on a connection, the model lets it reach every member, which covers the peer or the
  client at the other end. Packets too large for the framing layer are never handed on. Clients
  may send any Request or Ping to any replica at any time.

  A step is one turn of the queue loop of one replica, one of its timers, or an arrival.
\<close>

section \<open>The cluster\<close>

type_synonym packet = "int \<times> vsr_message"

record cluster =
  cs_replica :: "int \<Rightarrow> replica"
  cs_network :: "packet multiset"

definition members :: "peer_config list \<Rightarrow> int set" where
  "members config = pc_id ` set config"

fun transmit :: "int set \<Rightarrow> int \<Rightarrow> action \<Rightarrow> packet multiset" where
  "transmit M j (Broadcast_to_peers m) = image_mset (\<lambda>i. (i, m)) (mset_set (M - {j}))"
| "transmit M j (Send_to_peer i m) = {#(i, m)#}"
| "transmit M j (Send_message c m) = image_mset (\<lambda>i. (i, m)) (mset_set M)"
| "transmit M j (Submit_timeout d t) = {#}"
| "transmit M j Post_process_queue = {#}"

text \<open>What replica \<open>j\<close> has handed over between two of its states.\<close>

definition new_packets :: "int set \<Rightarrow> int \<Rightarrow> replica \<Rightarrow> replica \<Rightarrow> packet multiset" where
  "new_packets M j r r' = (\<Sum>x\<leftarrow>drop (length (r_outbox r)) (r_outbox r'). transmit M j x)"

definition replica_moves :: "int set \<Rightarrow> int \<Rightarrow> replica \<Rightarrow> cluster \<Rightarrow> cluster" where
  "replica_moves M j r' c = c\<lparr>cs_replica := (cs_replica c)(j := r'),
     cs_network := cs_network c + new_packets M j (cs_replica c j) r'\<rparr>"

definition client_message :: "vsr_message \<Rightarrow> bool" where
  "client_message m \<longleftrightarrow> message_ok m \<and>
     (h_command (msg_header m) = command_request \<or> h_command (msg_header m) = command_ping)"

inductive cluster_step :: "(byte list \<Rightarrow> byte list) \<Rightarrow> int set \<Rightarrow> cluster \<Rightarrow> cluster \<Rightarrow> bool"
  for blake3 :: "byte list \<Rightarrow> byte list" and M :: "int set" where
  deliver: "j \<in> M \<Longrightarrow> (j, m) \<in># cs_network c \<Longrightarrow> 128 + length (msg_payload m) \<le> 65536 \<Longrightarrow>
     cluster_step blake3 M c (c\<lparr>cs_replica :=
         (cs_replica c)(j := enqueue_message conn (prepared_message blake3 m) (cs_replica c j)),
       cs_network := cs_network c - {#(j, m)#}\<rparr>)"
| lose: "cluster_step blake3 M c (c\<lparr>cs_network := cs_network c - {#p#}\<rparr>)"
| client: "j \<in> M \<Longrightarrow> client_message m \<Longrightarrow>
     cluster_step blake3 M c (c\<lparr>cs_replica := (cs_replica c)(j := enqueue_message conn m (cs_replica c j))\<rparr>)"
| turn: "j \<in> M \<Longrightarrow> queue_step (cs_replica c j) r' \<Longrightarrow> cluster_step blake3 M c (replica_moves M j r' c)"
| liveness: "j \<in> M \<Longrightarrow>
     cluster_step blake3 M c (replica_moves M j (check_primary_liveness env (cs_replica c j)) c)"
| beat: "j \<in> M \<Longrightarrow> cluster_step blake3 M c (replica_moves M j (heartbeat (cs_replica c j)) c)"

inductive_simps cluster_step_iff: "cluster_step blake3 M c c'"

definition cluster_start :: "(int \<Rightarrow> environment) \<Rightarrow> peer_config list \<Rightarrow> cluster" where
  "cluster_start envs config =
     \<lparr>cs_replica = (\<lambda>j. run (envs j) (new_replica j config)), cs_network = {#}\<rparr>"

text \<open>
  Runs without recovery: no replica has entered recovery, and no view or op number is the last of its range.
\<close>

definition calm :: "int set \<Rightarrow> cluster \<Rightarrow> bool" where
  "calm M c \<longleftrightarrow> (\<forall>j\<in>M. st_status (r_state (cs_replica c j)) \<noteq> RECOVERY \<and>
     st_view (r_state (cs_replica c j)) \<noteq> - 1 \<and> st_op (r_state (cs_replica c j)) \<noteq> - 1)"

inductive calm_run :: "(byte list \<Rightarrow> byte list) \<Rightarrow> peer_config list \<Rightarrow> cluster \<Rightarrow> bool"
  for blake3 :: "byte list \<Rightarrow> byte list" and config :: "peer_config list" where
  init: "calm_run blake3 config (cluster_start envs config)"
| step: "calm_run blake3 config c \<Longrightarrow> cluster_step blake3 (members config) c c' \<Longrightarrow>
     calm (members config) c' \<Longrightarrow> calm_run blake3 config c'"

text \<open>
  Runs with recovery. A replica that ends its recovery in the view it was in must not come out with
  fewer operations than it had: it has acknowledged them. The code does not check this.
\<close>

definition within :: "int set \<Rightarrow> cluster \<Rightarrow> bool" where
  "within M c \<longleftrightarrow> (\<forall>j\<in>M. st_view (r_state (cs_replica c j)) \<noteq> - 1 \<and> st_op (r_state (cs_replica c j)) \<noteq> - 1)"

definition remembers :: "ReplicaState \<Rightarrow> ReplicaState \<Rightarrow> bool" where
  "remembers s s' \<longleftrightarrow> (st_status s = RECOVERY \<longrightarrow> st_status s' = NORMAL \<longrightarrow> st_view s' = st_view s \<longrightarrow> st_op s \<le> st_op s')"

inductive mindful_run :: "(byte list \<Rightarrow> byte list) \<Rightarrow> peer_config list \<Rightarrow> cluster \<Rightarrow> bool"
  for blake3 :: "byte list \<Rightarrow> byte list" and config :: "peer_config list" where
  init: "mindful_run blake3 config (cluster_start envs config)"
| step: "mindful_run blake3 config c \<Longrightarrow> cluster_step blake3 (members config) c c' \<Longrightarrow>
     within (members config) c' \<Longrightarrow>
     \<forall>j\<in>members config. remembers (r_state (cs_replica c j)) (r_state (cs_replica c' j)) \<Longrightarrow>
     mindful_run blake3 config c'"

lemma within_start: "within M (cluster_start envs config)"
  by (simp add: within_def cluster_start_def run_def schedule_liveness_check_def schedule_heartbeat_def new_replica_def)
    (simp add: new_ReplicaState_def)

lemma mindful_run_within: "mindful_run blake3 config c \<Longrightarrow> within (members config) c"
  by (induction rule: mindful_run.induct) (auto simp: within_start)

lemma calm_start: "calm M (cluster_start envs config)"
  by (simp add: calm_def cluster_start_def run_def schedule_liveness_check_def schedule_heartbeat_def new_replica_def)
    (simp add: new_ReplicaState_def)

lemma calm_run_calm: "calm_run blake3 config c \<Longrightarrow> calm (members config) c"
  by (induction rule: calm_run.induct) (auto simp: calm_start)

lemma calm_within: "calm M c \<Longrightarrow> within M c"
  by (simp add: calm_def within_def)

lemma calm_remembers: "calm M c \<Longrightarrow> \<forall>j\<in>M. remembers (r_state (cs_replica c j)) (r_state (cs_replica c' j))"
  by (simp add: calm_def remembers_def)

lemma calm_run_mindful: "calm_run blake3 config c \<Longrightarrow> mindful_run blake3 config c"
proof (induction rule: calm_run.induct)
  case (step c c')
  then show ?case
    using calm_run_calm [OF step.hyps(1)] calm_remembers calm_within by (blast intro: mindful_run.step)
qed (rule mindful_run.init)

lemma calm_run_reached:
  "calm_run blake3 config c \<Longrightarrow> \<exists>envs. (cluster_step blake3 (members config))\<^sup>*\<^sup>* (cluster_start envs config) c"
  by (induction rule: calm_run.induct) (blast intro: rtranclp.rtrancl_into_rtrancl)+

text \<open>A cluster as \<open>server_main.cpp\<close> configures it: an odd number of replicas, numbered from 0.\<close>

definition numbered :: "peer_config list \<Rightarrow> bool" where
  "numbered config \<longleftrightarrow> members config = {0..<int (length config)} \<and> odd (length config) \<and> length config < 256"

section \<open>Packets\<close>

lemma new_packets_append:
  "r_outbox r' = r_outbox r @ acts \<Longrightarrow> new_packets M j r r' = (\<Sum>x\<leftarrow>acts. transmit M j x)"
  by (simp add: new_packets_def)

lemma set_sum_list_mset: "p \<in># (\<Sum>x\<leftarrow>xs. f x) \<longleftrightarrow> (\<exists>x\<in>set xs. p \<in># f x)"
  by (induction xs) auto

definition message_of :: "action \<Rightarrow> vsr_message option" where
  "message_of x = (case x of Broadcast_to_peers m \<Rightarrow> Some m | Send_to_peer i m \<Rightarrow> Some m
     | Send_message c m \<Rightarrow> Some m | _ \<Rightarrow> None)"

lemma message_of_simps [simp]:
  "message_of (Broadcast_to_peers m) = Some m" "message_of (Send_to_peer i m) = Some m"
  "message_of (Send_message c m) = Some m" "message_of (Submit_timeout d t) = None"
  "message_of Post_process_queue = None"
  by (simp_all add: message_of_def)

lemma transmit_message: "(i, m) \<in># transmit M j x \<Longrightarrow> message_of x = Some m"
  by (cases x) auto

section \<open>The configuration\<close>

lemma numbered_members: "numbered config \<Longrightarrow> finite (members config)"
  by (simp add: members_def)

lemma fold_assign_keys:
  "om_keys (fold (\<lambda>peer m. om_assign (pc_id peer) peer m) config m) = members config \<union> om_keys m"
  by (induction config arbitrary: m) (auto simp: members_def)

lemma fold_assign_ok: "om_ok m \<Longrightarrow> om_ok (fold (\<lambda>peer m. om_assign (pc_id peer) peer m) config m)"
  by (induction config arbitrary: m) simp_all

lemma numbered_config:
  assumes "numbered config"
  shows "length (st_cluster_config (new_ReplicaState j config)) = length config"
    and "cluster_wf (new_ReplicaState j config)"
proof -
  let ?m = "st_cluster_config (new_ReplicaState j config)"
  have ok: "om_ok ?m" and keys: "om_keys ?m = {0..<int (length config)}"
    using assms fold_assign_keys [of config "[]"]
    by (simp_all add: new_ReplicaState_def fold_assign_ok numbered_def) (simp add: om_keys_def)
  show len: "length ?m = length config"
    using card_om_keys [OF ok] keys by simp
  have "length config \<noteq> 0" "length config < 256"
    using assms by (auto simp: numbered_def)
  with ok len show "cluster_wf (new_ReplicaState j config)"
    by (simp add: cluster_wf_def) (simp add: new_ReplicaState_def)
qed

definition primary_of :: "peer_config list \<Rightarrow> nat \<Rightarrow> int" where
  "primary_of config v = int (v mod length config)"

definition quorum_of :: "peer_config list \<Rightarrow> nat" where
  "quorum_of config = (length config - 1) div 2 + 1"

definition belongs :: "peer_config list \<Rightarrow> int \<Rightarrow> ReplicaState \<Rightarrow> bool" where
  "belongs config j s \<longleftrightarrow> st_id s = j \<and> st_f s = st_f (new_ReplicaState j config) \<and>
     st_cluster_config s = st_cluster_config (new_ReplicaState j config)"

lemma belongs_static:
  "belongs config j (r_state r) \<longleftrightarrow> static r = static (new_replica j config)"
  by (auto simp: belongs_def new_replica_def new_ReplicaState_def)

lemma belongs_arith:
  assumes "numbered config" and "belongs config j s"
  shows "quorum s = quorum_of config"
    and "get_primary_id s = primary_of config (unat (st_view s))"
    and "get_primary_id_for_view v s = primary_of config (unat v)"
    and "is_primary s \<longleftrightarrow> primary_of config (unat (st_view s)) = j"
proof -
  note len = numbered_config(1) [OF assms(1), of j]
  have wf: "cluster_wf s"
    using numbered_config(2) [OF assms(1), of j] assms(2) by (simp add: cluster_wf_def belongs_def)
  have n: "length (st_cluster_config s) = length config" "odd (length config)" "length config < 256"
    using assms len by (simp_all add: belongs_def numbered_def)
  show "quorum s = quorum_of config"
    by (simp add: cluster_wf_quorum [OF wf] n quorum_of_def)
  have pos: "0 < length config"
    using n(2) by (cases "length config") auto
  then show "get_primary_id_for_view v s = primary_of config (unat v)"
    using n by (simp add: get_primary_id_for_view_eq primary_of_def)
  show p: "get_primary_id s = primary_of config (unat (st_view s))"
    using n by (subst get_primary_id_eq) (auto simp: cluster_wf_f [OF wf] primary_of_def elim!: oddE)
  show "is_primary s \<longleftrightarrow> primary_of config (unat (st_view s)) = j"
    using assms(2) by (auto simp: is_primary_def p belongs_def)
qed

lemma numbered_quorum_system:
  assumes "numbered config"
  shows "quorum_system (members config) (quorum_of config)"
  using assms by unfold_locales (auto simp: numbered_def quorum_of_def elim!: oddE)

lemma primary_of_member:
  assumes "numbered config"
  shows "primary_of config v \<in> members config"
proof -
  have "v mod length config < length config"
    using assms by (intro mod_less_divisor) (auto simp: numbered_def)
  then show ?thesis
    using assms by (simp add: numbered_def primary_of_def)
qed

lemma unat_plus_one: "op \<noteq> - 1 \<Longrightarrow> unat (op + 1 :: 'a::len word) = Suc (unat op)"
  using unat_Suc_less [of op "- 1"] by (simp add: word_order.not_eq_extremum)

lemma uint_member:
  assumes "numbered config" and "j \<in> members config"
  shows "uint (word_of_int j :: byte) = j"
  using assms by (auto simp: numbered_def uint_word_of_int)

end
