(* ===== verification/Cluster_Example.thy ===== *)
theory Cluster_Example
  imports Cluster
begin

text \<open>
  A run of the cluster of \<open>src/server/server_main.cpp\<close>: a client sends a set request to the
  primary, replica 1 acknowledges it, the primary commits and executes it and announces the
  commit with its heartbeat, and replica 1 follows.
\<close>

section \<open>Building runs\<close>

definition tame :: "replica \<Rightarrow> bool" where
  "tame r \<longleftrightarrow> st_status (r_state r) \<noteq> RECOVERY \<and> st_view (r_state r) \<noteq> - 1 \<and> st_op (r_state r) \<noteq> - 1"

lemma calm_tame: "calm M c \<longleftrightarrow> (\<forall>j\<in>M. tame (cs_replica c j))"
  by (auto simp: calm_def tame_def)

lemma calm_run_tame:
  assumes "calm_run blake3 config c" and "j \<in> members config"
  shows "tame (cs_replica c j)"
  using assms
proof (induction rule: calm_run.induct)
  case (init envs)
  show ?case
    by (simp add: tame_def cluster_start_def run_def schedule_liveness_check_def schedule_heartbeat_def new_replica_def)
      (simp add: new_ReplicaState_def)
qed (simp add: calm_tame)

lemma calm_run_move:
  assumes run: "calm_run blake3 config c" and "cluster_step blake3 (members config) c c'"
    and "cs_replica c' = (cs_replica c)(j := r')" and "tame r'"
  shows "calm_run blake3 config c'"
proof (rule calm_run.step [OF assms(1,2)])
  show "calm (members config) c'"
    using calm_run_tame [OF run] assms(3,4) by (simp add: calm_tame)
qed

lemma tame_enqueue [simp]: "tame (enqueue_message conn m r) = tame r"
  by (simp add: tame_def enqueue_message_def)

definition arrive :: "(byte list \<Rightarrow> byte list) \<Rightarrow> int \<Rightarrow> vsr_message \<Rightarrow> cluster \<Rightarrow> cluster" where
  "arrive blake3 j m c = c\<lparr>cs_replica :=
       (cs_replica c)(j := enqueue_message (Some 5) (prepared_message blake3 m) (cs_replica c j)),
     cs_network := cs_network c - {#(j, m)#}\<rparr>"

lemma calm_run_arrive:
  assumes "calm_run blake3 config c" and "j \<in> members config" and "(j, m) \<in># cs_network c"
    and "128 + length (msg_payload m) \<le> 65536"
  shows "calm_run blake3 config (arrive blake3 j m c)"
  unfolding arrive_def
  by (rule calm_run_move [OF assms(1) cluster_step.deliver [OF assms(2-4)], where j = j
        and r' = "enqueue_message (Some 5) (prepared_message blake3 m) (cs_replica c j)"])
    (simp_all add: calm_run_tame [OF assms(1,2)])

definition requested :: "int \<Rightarrow> vsr_message \<Rightarrow> cluster \<Rightarrow> cluster" where
  "requested j m c = c\<lparr>cs_replica := (cs_replica c)(j := enqueue_message (Some 9) m (cs_replica c j))\<rparr>"

lemma calm_run_requested:
  assumes "calm_run blake3 config c" and "j \<in> members config" and "client_message m"
  shows "calm_run blake3 config (requested j m c)"
  unfolding requested_def
  by (rule calm_run_move [OF assms(1) cluster_step.client [OF assms(2,3)], where j = j
        and r' = "enqueue_message (Some 9) m (cs_replica c j)"])
    (simp_all add: calm_run_tame [OF assms(1,2)])

definition handled :: "peer_config list \<Rightarrow> int \<Rightarrow> cluster \<Rightarrow> cluster" where
  "handled config j c = (case r_message_queue (cs_replica c j) of [] \<Rightarrow> c
     | inbound # rest \<Rightarrow> replica_moves (members config) j
         (dispatch (sample_env 0) inbound ((cs_replica c j)\<lparr>r_message_queue := rest\<rparr>)) c)"

lemma calm_run_handled:
  fixes c :: cluster and j :: int
  defines "inbound \<equiv> hd (r_message_queue (cs_replica c j))"
  assumes "calm_run blake3 config c" and "j \<in> members config" and "r_message_queue (cs_replica c j) \<noteq> []"
    and "\<not> is_stale (r_state (cs_replica c j)) (in_message inbound)" and "can_process (r_state (cs_replica c j)) inbound"
    and "tame (cs_replica (handled config j c) j)"
  shows "calm_run blake3 config (handled config j c)"
proof -
  obtain rest where q: "r_message_queue (cs_replica c j) = inbound # rest"
    using assms(4) by (auto simp: inbound_def neq_Nil_conv)
  show ?thesis
    using assms(7) q
    by (simp add: handled_def)
      (intro calm_run_move [OF assms(2) cluster_step.turn [OF assms(3) queue_step.handle [OF q assms(5,6)]]],
        simp_all add: replica_moves_def)
qed

definition beaten :: "peer_config list \<Rightarrow> int \<Rightarrow> cluster \<Rightarrow> cluster" where
  "beaten config j c = replica_moves (members config) j (heartbeat (cs_replica c j)) c"

lemma calm_run_beaten:
  assumes "calm_run blake3 config c" and "j \<in> members config"
  shows "calm_run blake3 config (beaten config j c)"
  unfolding beaten_def
  by (rule calm_run_move [OF assms(1) cluster_step.beat [OF assms(2)], where j = j and r' = "heartbeat (cs_replica c j)"])
    (use calm_run_tame [OF assms] in \<open>simp_all add: replica_moves_def tame_def\<close>)

section \<open>One committed request\<close>

abbreviation no_hash :: "byte list \<Rightarrow> byte list" where
  "no_hash \<equiv> \<lambda>_. replicate 32 0"

definition sample_request :: vsr_message where
  "sample_request = message_with (zero_header\<lparr>h_command := command_request, h_operation := operation_set,
     h_client := UInt128 0 7, h_request := 1\<rparr>) (bytes_of_string ''k v'')"

definition sample_op :: "int set \<Rightarrow> log_entry" where
  "sample_op acks = \<lparr>le_view = 0, le_op_type = operation_set, le_client_id = UInt128 0 7, le_request_num = 1,
     le_payload = bytes_of_string ''k v'', le_prepare_ok_acks = acks\<rparr>"

definition cluster1 :: cluster where
  "cluster1 = handled server_cluster_config 0 (requested 0 sample_request (cluster_start (\<lambda>_. sample_env 0) server_cluster_config))"

definition sample_prepare :: vsr_message where
  "sample_prepare = message_with (zero_header\<lparr>h_command := command_prepare, h_operation := operation_set,
     h_client := UInt128 0 7, h_request := 1, h_op := 1\<rparr>) (bytes_of_string ''k v'')"

definition cluster2 :: cluster where
  "cluster2 = handled server_cluster_config 1 (arrive no_hash 1 sample_prepare cluster1)"

definition sample_ack :: vsr_message where
  "sample_ack = message_with (zero_header\<lparr>h_command := command_prepare_ok, h_op := 1, h_replica := 1\<rparr>) []"

definition cluster3 :: cluster where
  "cluster3 = beaten server_cluster_config 0 (handled server_cluster_config 0 (arrive no_hash 0 sample_ack cluster2))"

definition sample_commit :: vsr_message where
  "sample_commit = message_with (zero_header\<lparr>h_command := command_commit, h_commit := 1\<rparr>) []"

definition sample_cluster :: cluster where
  "sample_cluster = handled server_cluster_config 1 (arrive no_hash 1 sample_commit cluster3)"

lemma numbered_server: "numbered server_cluster_config"
  by (auto simp: numbered_def members_def server_cluster_config_def)

lemma server_members: "members server_cluster_config = {0, 1, 2}"
  by (simp add: members_def server_cluster_config_def)

lemma server_state [simp]:
  "st_status (new_ReplicaState j server_cluster_config) = NORMAL" "st_view (new_ReplicaState j server_cluster_config) = 0"
  "st_op (new_ReplicaState j server_cluster_config) = 0" "st_log (new_ReplicaState j server_cluster_config) = []"
  "st_commit (new_ReplicaState j server_cluster_config) = 0" "st_last_executed_op (new_ReplicaState j server_cluster_config) = 0"
  "st_client_table (new_ReplicaState j server_cluster_config) = []" "st_id (new_ReplicaState j server_cluster_config) = j"
  "st_last_normal_view (new_ReplicaState j server_cluster_config) = 0"
  "st_do_view_change_received (new_ReplicaState j server_cluster_config) = []"
  "length (st_cluster_config (new_ReplicaState j server_cluster_config)) = 3"
  "st_state_machine (new_ReplicaState j server_cluster_config) = Map.empty" "st_f (new_ReplicaState j server_cluster_config) = 1"
  by (simp_all add: new_ReplicaState_def server_cluster_config_def fault_tolerance_eq)

lemma server_primary:
  assumes "st_view s = 0" and "st_f s = 1"
  shows "is_primary s \<longleftrightarrow> st_id s = 0" and "quorum s = 2"
  using assms by (simp_all add: is_primary_def get_primary_id_def quorum_eq)

lemma server_next_primary: "length (st_cluster_config s) = 3 \<Longrightarrow> get_primary_id_for_view 1 s = 1"
  by (simp add: get_primary_id_for_view_eq)

lemma server_start [simp]:
  "r_state (cs_replica (cluster_start envs server_cluster_config) j) = new_ReplicaState j server_cluster_config"
  "r_message_queue (cs_replica (cluster_start envs server_cluster_config) j) = []"
  "r_client_connections (cs_replica (cluster_start envs server_cluster_config) j) = []"
  "r_last_primary_contact (cs_replica (cluster_start envs server_cluster_config) j) = env_now (envs j)"
  by (simp_all add: cluster_start_def run_def schedule_liveness_check_def schedule_heartbeat_def new_replica_def)

lemmas turn_simps = handled_def arrive_def requested_def enqueue_message_def replica_moves_def dispatch_def Let_def

lemma cluster1_replicas:
  "r_state (cs_replica cluster1 0) = (new_ReplicaState 0 server_cluster_config)\<lparr>st_op := 1,
     st_log := [(1, sample_op {0})],
     st_client_table := [(UInt128 0 7, \<lparr>ct_request_number = 1, ct_executed = False, ct_result = []\<rparr>)]\<rparr>"
  "r_message_queue (cs_replica cluster1 0) = []"
  "r_client_connections (cs_replica cluster1 0) = [(UInt128 0 7, Some 9)]"
  "r_state (cs_replica cluster1 1) = new_ReplicaState 1 server_cluster_config"
  "r_message_queue (cs_replica cluster1 1) = []"
  by (simp_all add: cluster1_def turn_simps handle_request_def sample_request_def sample_op_def)
    (simp_all add: zero_header_def om_index_def om_find_def new_client_table_entry_def)

lemma cluster1_prepare: "(1, sample_prepare) \<in># cs_network cluster1" "(2, sample_prepare) \<in># cs_network cluster1"
  by (simp_all add: cluster1_def turn_simps handle_request_def new_packets_def server_members
      sample_request_def prepare_message_def sample_prepare_def om_index_def om_find_def new_client_table_entry_def)
    (simp_all add: zero_header_def)

lemma cluster1_run: "calm_run no_hash server_cluster_config cluster1"
  unfolding cluster1_def
proof (rule calm_run_handled [OF calm_run_requested [OF calm_run.init]])
  show "client_message sample_request"
    by (simp add: client_message_def message_ok_def wf_header_def sample_request_def bytes_of_string_def zero_header_def)
  show "tame (cs_replica (handled server_cluster_config 0 (requested 0 sample_request
      (cluster_start (\<lambda>_. sample_env 0) server_cluster_config))) 0)"
    using cluster1_replicas(1) by (simp add: cluster1_def tame_def)
qed (simp_all add: server_members requested_def enqueue_message_def is_stale_def can_process_def sample_request_def
    check_can_process_request_def server_primary Let_def)

lemma cluster2_replicas:
  "r_state (cs_replica cluster2 1) = (new_ReplicaState 1 server_cluster_config)\<lparr>st_op := 1,
     st_log := [(1, sample_op {})],
     st_client_table := [(UInt128 0 7, \<lparr>ct_request_number = 1, ct_executed = False, ct_result = []\<rparr>)]\<rparr>"
  "r_message_queue (cs_replica cluster2 1) = []"
  "cs_replica cluster2 0 = cs_replica cluster1 0"
  by (simp_all add: cluster2_def turn_simps handle_prepare_def learn_commit_def cluster1_replicas sample_prepare_def
      sample_op_def)
    (simp_all add: zero_header_def)

lemma cluster2_ack: "(0, sample_ack) \<in># cs_network cluster2"
  by (simp add: cluster2_def turn_simps handle_prepare_def learn_commit_def cluster1_replicas sample_prepare_def
      new_packets_def server_members prepare_ok_message_def sample_ack_def)
    (simp add: zero_header_def)

lemma cluster2_run: "calm_run no_hash server_cluster_config cluster2"
  unfolding cluster2_def
proof (rule calm_run_handled [OF calm_run_arrive [OF cluster1_run _ cluster1_prepare(1)]])
  show "tame (cs_replica (handled server_cluster_config 1 (arrive no_hash 1 sample_prepare cluster1)) 1)"
    using cluster2_replicas(1) by (simp add: cluster2_def tame_def)
qed (simp_all add: server_members arrive_def enqueue_message_def is_stale_def can_process_def sample_prepare_def
    check_can_process_prepare_def server_primary Let_def cluster1_replicas bytes_of_string_def zero_header_def)

lemma sample_operation:
  "apply_operation operation_set (bytes_of_string ''k v'') Map.empty = ([''k'' \<mapsto> ''v''], ''SET k=v'')"
proof -
  have "extract_word ''k v'' = (''k'', '' v'')" "extract_word '' v'' = (''v'', [])"
    by (simp_all add: extract_word_def is_space_def)
  then show ?thesis by (simp add: apply_operation_def Let_def)
qed

text \<open>Executing the one committed operation, at the primary and at a backup.\<close>

definition one_op :: "int \<Rightarrow> int set \<Rightarrow> u64 \<Rightarrow> ReplicaState" where
  "one_op j acks commit = (new_ReplicaState j server_cluster_config)\<lparr>st_op := 1, st_commit := commit,
     st_log := [(1, sample_op acks)],
     st_client_table := [(UInt128 0 7, \<lparr>ct_request_number = 1, ct_executed = False, ct_result = []\<rparr>)]\<rparr>"

definition one_op_done :: "int \<Rightarrow> int set \<Rightarrow> ReplicaState" where
  "one_op_done j acks = (one_op j acks 1)\<lparr>st_last_executed_op := 1, st_state_machine := [''k'' \<mapsto> ''v''],
     st_client_table := [(UInt128 0 7, \<lparr>ct_request_number = 1, ct_executed = True,
       ct_result = bytes_of_string ''SET k=v''\<rparr>)]\<rparr>"

lemma one_op_executed:
  assumes "r_state r = one_op j acks 1"
  shows "r_state (execute_commited_ops r) = one_op_done j acks"
proof -
  have "execute_commited_ops r = execute_commited_ops (execute_next (sample_op acks) r)"
    by (rule execute_commited_ops_next) (simp_all add: assms one_op_def om_find_def)
  also have "\<dots> = execute_next (sample_op acks) r"
    by (rule execute_commited_ops_exit(1)) (simp add: assms one_op_def)
  finally show ?thesis
    by (simp add: execute_next_def execute_entry_def assms one_op_def one_op_done_def om_index_def om_find_def
        sample_op_def Let_def sample_operation)
qed

lemma one_op_acknowledged:
  assumes "r_state r = one_op 0 {0, 1} 0"
  shows "r_state (advance_primary_commit_number r) = one_op_done 0 {0, 1}"
proof -
  have "advance_loop (Suc (length (st_log (r_state r)))) (r_state r) = one_op 0 {0, 1} 1"
    by (simp add: assms one_op_def can_commit_next_def om_find_def server_primary sample_op_def)
  moreover have "is_primary (r_state r)"
    by (simp add: assms one_op_def server_primary)
  ultimately show ?thesis
    by (simp add: advance_primary_commit_number_def one_op_executed del: advance_loop.simps)
qed

lemma cluster3_replicas:
  "r_state (cs_replica cluster3 0) = one_op_done 0 {0, 1}" "cs_replica cluster3 1 = cs_replica cluster2 1"
proof -
  have "insert 1 {0} = {0, 1 :: int}" by auto
  then show "r_state (cs_replica cluster3 0) = one_op_done 0 {0, 1}"
    by (simp add: cluster3_def beaten_def turn_simps handle_prepare_ok_def cluster2_replicas cluster1_replicas
        sample_ack_def one_op_def om_find_def)
      (simp add: one_op_acknowledged one_op_def sample_op_def)
qed (simp add: cluster3_def beaten_def turn_simps cluster2_replicas cluster1_replicas)

lemma cluster3_run: "calm_run no_hash server_cluster_config cluster3"
  unfolding cluster3_def
proof (rule calm_run_beaten [OF calm_run_handled [OF calm_run_arrive [OF cluster2_run _ cluster2_ack]]])
  show "tame (cs_replica (handled server_cluster_config 0 (arrive no_hash 0 sample_ack cluster2)) 0)"
    using cluster3_replicas(1) by (simp add: cluster3_def beaten_def replica_moves_def tame_def one_op_done_def one_op_def)
qed (simp_all add: server_members arrive_def enqueue_message_def is_stale_def can_process_def sample_ack_def
    check_can_process_prepare_ok_def server_primary Let_def cluster1_replicas cluster2_replicas zero_header_def)

lemma cluster3_commit: "(1, sample_commit) \<in># cs_network cluster3"
proof -
  let ?c = "handled server_cluster_config 0 (arrive no_hash 0 sample_ack cluster2)"
  have s: "r_state (cs_replica ?c 0) = one_op_done 0 {0, 1}"
    using cluster3_replicas(1) by (simp add: cluster3_def beaten_def replica_moves_def)
  then have "(1, sample_commit) \<in># new_packets (members server_cluster_config) 0 (cs_replica ?c 0) (heartbeat (cs_replica ?c 0))"
    by (simp add: heartbeat_def schedule_heartbeat_def send_commit_message_if_needed_def new_packets_def server_members
        server_primary one_op_done_def one_op_def sample_commit_def Let_def)
      (simp add: zero_header_def)
  then show ?thesis
    by (simp add: cluster3_def beaten_def replica_moves_def)
qed

lemma sample_replicas:
  "r_state (cs_replica sample_cluster 1) = one_op_done 1 {}"
  "r_state (cs_replica sample_cluster 0) = one_op_done 0 {0, 1}"
proof -
  show "r_state (cs_replica sample_cluster 1) = one_op_done 1 {}"
    by (simp add: sample_cluster_def turn_simps handle_commit_def learn_commit_def cluster3_replicas cluster2_replicas
        sample_commit_def one_op_executed one_op_def)
qed (simp add: sample_cluster_def turn_simps cluster3_replicas cluster2_replicas)

lemma sample_run: "calm_run no_hash server_cluster_config sample_cluster"
  unfolding sample_cluster_def
proof (rule calm_run_handled [OF calm_run_arrive [OF cluster3_run _ cluster3_commit]])
  show "tame (cs_replica (handled server_cluster_config 1 (arrive no_hash 1 sample_commit cluster3)) 1)"
    using sample_replicas(1) by (simp add: sample_cluster_def tame_def one_op_done_def one_op_def)
qed (simp_all add: server_members arrive_def enqueue_message_def is_stale_def can_process_def sample_commit_def
    check_can_process_commit_def server_primary Let_def cluster3_replicas cluster2_replicas zero_header_def)

section \<open>A view change under way\<close>

text \<open>Replica 1 times out, replica 2 joins it and promises it the view.\<close>

definition timed_out :: "peer_config list \<Rightarrow> int \<Rightarrow> cluster \<Rightarrow> cluster" where
  "timed_out config j c = replica_moves (members config) j
     (check_primary_liveness (sample_env 9000000000) (cs_replica c j)) c"

lemma calm_run_timed_out:
  assumes "calm_run blake3 config c" and "j \<in> members config" and "tame (cs_replica (timed_out config j c) j)"
  shows "calm_run blake3 config (timed_out config j c)"
  unfolding timed_out_def
  by (rule calm_run_move [OF assms(1) cluster_step.liveness [OF assms(2)], where j = j
        and r' = "check_primary_liveness (sample_env 9000000000) (cs_replica c j)"])
    (use assms(3) in \<open>simp_all add: replica_moves_def timed_out_def\<close>)

definition joined :: "peer_config list \<Rightarrow> int \<Rightarrow> cluster \<Rightarrow> cluster" where
  "joined config j c = replica_moves (members config) j (initiate_view_change (cs_replica c j)) c"

lemma calm_run_joined:
  fixes c :: cluster and j :: int
  defines "inbound \<equiv> hd (r_message_queue (cs_replica c j))"
  assumes "calm_run blake3 config c" and "j \<in> members config" and "r_message_queue (cs_replica c j) \<noteq> []"
    and "st_status (r_state (cs_replica c j)) = NORMAL"
    and "determine_state_action (r_state (cs_replica c j)) (in_message inbound) = INITIATE_VIEW_CHANGE"
    and "head_blocked (cs_replica c j)"
    and "tame (cs_replica (joined config j c) j)"
  shows "calm_run blake3 config (joined config j c)"
proof -
  obtain rest where q: "r_message_queue (cs_replica c j) = inbound # rest"
    using assms(4) by (auto simp: inbound_def neq_Nil_conv)
  show ?thesis
    unfolding joined_def
    by (rule calm_run_move [OF assms(2) cluster_step.turn [OF assms(3) queue_step.join [OF q assms(5,6,7)]], where j = j
          and r' = "initiate_view_change (cs_replica c j)"])
      (use assms(8) in \<open>simp_all add: replica_moves_def joined_def\<close>)
qed

definition sample_vote :: vsr_message where
  "sample_vote = message_with (zero_header\<lparr>h_command := command_start_view_change, h_view := 1, h_replica := 1\<rparr>) []"

definition election1 :: cluster where
  "election1 = timed_out server_cluster_config 1 (cluster_start (\<lambda>_. sample_env 0) server_cluster_config)"

definition election2 :: cluster where
  "election2 = joined server_cluster_config 2 (arrive no_hash 2 sample_vote election1)"

definition election3 :: cluster where
  "election3 = handled server_cluster_config 2 election2"

definition sample_promise :: vsr_message where
  "sample_promise = do_view_change_message ((new_ReplicaState 2 server_cluster_config)\<lparr>st_view := 1\<rparr>)"

definition sample_election :: cluster where
  "sample_election = handled server_cluster_config 1 (arrive no_hash 1 sample_promise election3)"

lemma election1_replicas:
  "r_state (cs_replica election1 1) = enter_new_view 1 (new_ReplicaState 1 server_cluster_config)"
  "r_message_queue (cs_replica election1 1) = []"
  "r_state (cs_replica election1 2) = new_ReplicaState 2 server_cluster_config"
  "r_message_queue (cs_replica election1 2) = []"
  by (simp_all add: election1_def timed_out_def replica_moves_def check_primary_liveness_def
      schedule_liveness_check_def server_primary duration_since_contact_def sample_env_def primary_timeout_def
      initiate_view_change_def Let_def)

lemma election1_vote: "(2, sample_vote) \<in># cs_network election1"
  by (simp add: election1_def timed_out_def replica_moves_def check_primary_liveness_def new_packets_def server_members
      schedule_liveness_check_def server_primary duration_since_contact_def sample_env_def primary_timeout_def
      initiate_view_change_def enter_new_view_def sample_vote_def Let_def)

lemma election1_run: "calm_run no_hash server_cluster_config election1"
  unfolding election1_def
  by (rule calm_run_timed_out [OF calm_run.init])
    (use election1_replicas(1) in \<open>simp_all add: election1_def server_members tame_def enter_new_view_def Let_def\<close>)

lemma election2_replicas:
  "r_state (cs_replica election2 2) = enter_new_view 1 (new_ReplicaState 2 server_cluster_config)"
  "r_message_queue (cs_replica election2 2) = [\<lparr>in_connection = Some 5, in_message = prepared_message no_hash sample_vote\<rparr>]"
  "cs_replica election2 1 = cs_replica election1 1"
  by (simp_all add: election2_def joined_def turn_simps initiate_view_change_def election1_replicas)

lemma election2_run: "calm_run no_hash server_cluster_config election2"
  unfolding election2_def
proof (rule calm_run_joined [OF calm_run_arrive [OF election1_run _ election1_vote]])
  show "tame (cs_replica (joined server_cluster_config 2 (arrive no_hash 2 sample_vote election1)) 2)"
    using election2_replicas(1) by (simp add: election2_def tame_def enter_new_view_def Let_def)
qed (simp_all add: server_members arrive_def enqueue_message_def election1_replicas determine_state_action_def
    head_blocked_def is_stale_def can_process_def check_can_process_start_view_change_def sample_vote_def Let_def)

lemma election3_replicas:
  "r_state (cs_replica election3 2) = (enter_new_view 1 (new_ReplicaState 2 server_cluster_config))\<lparr>
     st_start_view_change_received := {}\<rparr>"
  "cs_replica election3 1 = cs_replica election1 1"
  by (simp_all add: election3_def handled_def election2_replicas replica_moves_def dispatch_def sample_vote_def
      handle_start_view_change_def enter_new_view_def server_primary quorum_eq server_next_primary Let_def)

lemma election3_promise: "(1, sample_promise) \<in># cs_network election3"
  by (simp add: election3_def handled_def election2_replicas replica_moves_def dispatch_def handle_start_view_change_def
      new_packets_def enter_new_view_def quorum_eq server_next_primary sample_promise_def sample_vote_def
      do_view_change_message_def Let_def)

lemma election3_run: "calm_run no_hash server_cluster_config election3"
  unfolding election3_def
proof (rule calm_run_handled [OF election2_run])
  show "tame (cs_replica (handled server_cluster_config 2 election2) 2)"
    using election3_replicas(1) by (simp add: election3_def tame_def enter_new_view_def Let_def)
qed (simp_all add: server_members election2_replicas is_stale_def can_process_def sample_vote_def
    check_can_process_start_view_change_def enter_new_view_def Let_def)

lemma election_replicas:
  "r_state (cs_replica sample_election 1) = (enter_new_view 1 (new_ReplicaState 1 server_cluster_config))\<lparr>
     st_do_view_change_received := [prepared_message no_hash sample_promise]\<rparr>"
  by (simp add: sample_election_def handled_def arrive_def enqueue_message_def replica_moves_def election3_replicas
      election1_replicas dispatch_def sample_promise_def do_view_change_message_def handle_do_view_change_def
      enter_new_view_def quorum_eq Let_def)

lemma election_run: "calm_run no_hash server_cluster_config sample_election"
  unfolding sample_election_def
proof (rule calm_run_handled [OF calm_run_arrive [OF election3_run _ election3_promise]])
  show "tame (cs_replica (handled server_cluster_config 1 (arrive no_hash 1 sample_promise election3)) 1)"
    using election_replicas by (simp add: sample_election_def tame_def enter_new_view_def Let_def)
  show "128 + length (msg_payload sample_promise) \<le> 65536"
    by (simp add: sample_promise_def do_view_change_message_def do_view_change_serialize_def
        write_log_to_buffer_def write_pod_def codec_simps)
qed (simp_all add: server_members arrive_def enqueue_message_def election3_replicas election1_replicas is_stale_def
    can_process_def sample_promise_def do_view_change_message_def check_can_process_do_view_change_def enter_new_view_def
    server_next_primary Let_def)

end
