(* ===== verification/Replica_Liveness.thy ===== *)
theory Replica_Liveness
  imports Replica_Step
begin

text \<open>
  Progress of the message queue: what processing the queue leaves behind, and the situations in
  which the message at its head keeps everything behind it from being processed.
\<close>

section \<open>The end of a run of the queue\<close>

lemma drain_queue_blocked: "head_blocked r \<Longrightarrow> drain_queue envs i r p = (i, r, p)"
  by (cases "r_message_queue r") (simp_all add: drain_queue.simps [of envs i r p] head_blocked_def)

lemma process_blocked: "head_blocked r \<Longrightarrow> process_message_queue envs r = resolve_stuck (envs 0) r"
  by (simp add: process_message_queue_def process_loop.simps [of envs 0 r] drain_queue_blocked)

lemma process_loop_last: "\<exists>q env. (r_message_queue q = [] \<or> head_blocked q) \<and> process_loop envs i r = resolve_stuck env q"
proof (induction envs i r rule: process_loop.induct)
  case (1 envs i r)
  obtain i1 r1 p where d: "drain_queue envs i r False = (i1, r1, p)"
    by (metis prod.exhaust)
  show ?case
  proof (cases p)
    case True
    with "1.IH" [OF d [symmetric] refl True] d show ?thesis
      by (simp add: process_loop.simps [of envs i r])
  next
    case False
    with d drain_queue_outcome [OF d] show ?thesis
      by (auto simp: process_loop.simps [of envs i r])
  qed
qed

text \<open>
  How a run of the queue ends (\<open>Replica_Divergence\<close> says when it does), in one of three ways: the queue is empty;
  its head is neither stale nor processable, and if the replica is NORMAL it has also decided
  that this calls for no action; or the replica, NORMAL and stuck on a view change message
  of the next view, has just entered that view.
\<close>
lemma process_queue_outcome:
  fixes envs :: "nat \<Rightarrow> environment" and r :: replica
  defines "r' \<equiv> process_message_queue envs r"
  shows "r_message_queue r' = [] \<or>
     (head_blocked r' \<and> (st_status (r_state r') \<noteq> NORMAL \<or>
        determine_state_action (r_state r') (in_message (hd (r_message_queue r'))) = PROCESS_NORMALLY)) \<or>
     (\<exists>q. head_blocked q \<and> st_status (r_state q) = NORMAL \<and>
        determine_state_action (r_state q) (in_message (hd (r_message_queue q))) = INITIATE_VIEW_CHANGE \<and>
        r' = initiate_view_change q)"
proof -
  obtain q env where q: "r_message_queue q = [] \<or> head_blocked q" "r' = resolve_stuck env q"
    using process_loop_last [of envs 0 r] unfolding r'_def process_message_queue_def by blast
  show ?thesis
  proof (cases "r_message_queue q")
    case Nil
    with q show ?thesis by (simp add: resolve_stuck_def)
  next
    case (Cons inbound rest)
    with q show ?thesis
      by (cases "determine_state_action (r_state q) (in_message inbound)")
        (auto simp: resolve_stuck_def)
  qed
qed

section \<open>A client request at a backup\<close>

lemma request_blocks:
  assumes "r_message_queue r = inbound # rest" and "h_command (in_header inbound) = command_request"
    and "st_status (r_state r) \<noteq> NORMAL \<or> \<not> is_primary (r_state r)"
  shows "head_blocked r"
  using assms by (auto simp: head_blocked_def is_stale_def can_process_def check_can_process_request_def)

lemma request_no_action:
  assumes "h_command (in_header inbound) = command_request" and "h_view (in_header inbound) \<le> st_view s"
  shows "determine_state_action s (in_message inbound) = PROCESS_NORMALLY"
  using assms by (auto simp: determine_state_action_def Let_def)

text \<open>
  The states of a replica held up by the request \<open>inbound\<close> since state \<open>s\<close>: the request is still
  at the head, nothing was logged, committed or executed, and the replica is either the NORMAL
  backup it was, or in a view change it can only have entered by its timer.
\<close>

definition held_up :: "inbound_message \<Rightarrow> ReplicaState \<Rightarrow> replica \<Rightarrow> bool" where
  "held_up inbound s r \<longleftrightarrow> (\<exists>rest. r_message_queue r = inbound # rest) \<and>
     st_log (r_state r) = st_log s \<and> st_op (r_state r) = st_op s \<and>
     st_commit (r_state r) = st_commit s \<and> st_state_machine (r_state r) = st_state_machine s \<and>
     (st_status (r_state r) = VIEW_CHANGE \<or>
      st_status (r_state r) = NORMAL \<and> \<not> is_primary (r_state r) \<and>
      h_view (in_header inbound) \<le> st_view (r_state r))"

lemma held_up_step:
  assumes "replica_step r r'" and "held_up inbound s r" and "h_command (in_header inbound) = command_request"
  shows "held_up inbound s r'"
  using assms(1)
proof cases
  case (process envs)
  obtain rest where queue: "r_message_queue r = inbound # rest"
    using assms(2) by (auto simp: held_up_def)
  have "head_blocked r"
    using assms(2) by (intro request_blocks [OF queue assms(3)]) (auto simp: held_up_def)
  moreover have "resolve_stuck (envs 0) r = r"
    using assms(2,3) queue by (auto simp: resolve_stuck_def held_up_def request_no_action)
  ultimately show ?thesis
    using process assms(2) by (simp add: process_blocked)
next
  case (deliver m c)
  then show ?thesis
    using assms(2) by (auto simp: held_up_def enqueue_message_def)
next
  case (liveness env)
  then show ?thesis
    using assms(2)
    by (auto simp: held_up_def check_primary_liveness_def schedule_liveness_check_def
        initiate_view_change_def enter_new_view_def Let_def)
next
  case beat
  then show ?thesis
    using assms(2)
    by (auto simp: held_up_def heartbeat_def schedule_heartbeat_def send_commit_message_if_needed_def Let_def)
qed

text \<open>
  C20: once a client request (its view number not above the replica's own) is at the head of the
  queue of a NORMAL backup, the replica never logs, commits or executes anything again: whatever
  messages arrive, however often the queue is processed and the timers run, the request stays at
  the head. The timeout only takes the replica into a view change that it cannot complete,
  because the messages it waits for queue up behind the request.
\<close>
theorem client_request_wedges_backup:
  assumes "st_status (r_state r) = NORMAL" and "\<not> is_primary (r_state r)"
    and "r_message_queue r = inbound # rest" and "h_command (in_header inbound) = command_request"
    and "h_view (in_header inbound) \<le> st_view (r_state r)"
    and "replica_step\<^sup>*\<^sup>* r r'"
  shows "hd (r_message_queue r') = inbound \<and> st_log (r_state r') = st_log (r_state r) \<and>
     st_op (r_state r') = st_op (r_state r) \<and> st_commit (r_state r') = st_commit (r_state r) \<and>
     st_state_machine (r_state r') = st_state_machine (r_state r) \<and>
     (st_status (r_state r') = NORMAL \<or> st_status (r_state r') = VIEW_CHANGE)"
proof -
  have "held_up inbound (r_state r) r"
    using assms by (simp add: held_up_def)
  with assms(6) have "held_up inbound (r_state r) r'"
    by (induction rule: rtranclp_induct) (auto intro: held_up_step [OF _ _ assms(4)])
  then show ?thesis
    by (auto simp: held_up_def)
qed

definition sample_request :: inbound_message where
  "sample_request = \<lparr>in_connection = Some 7, in_message =
     message_with (zero_header\<lparr>h_command := command_request, h_request := 1\<rparr>) [107]\<rparr>"

theorem client_request_wedges_backup_witness:
  "hd (r_message_queue (process_message_queue (\<lambda>i. sample_env 0) (enqueue_message (Some 8) new_message
     ((new_replica 1 server_cluster_config)\<lparr>r_message_queue := [sample_request]\<rparr>)))) = sample_request"
proof -
  let ?r = "(new_replica 1 server_cluster_config)\<lparr>r_message_queue := [sample_request]\<rparr>"
  have "message_ok new_message"
    by (simp add: message_ok_def new_message_def wf_header_def zero_header_def)
  then have "replica_step ?r (enqueue_message (Some 8) new_message ?r)"
    by (rule deliver)
  moreover have "replica_step (enqueue_message (Some 8) new_message ?r)
      (process_message_queue (\<lambda>i. sample_env 0) (enqueue_message (Some 8) new_message ?r))"
    by (rule process)
  ultimately have steps: "replica_step\<^sup>*\<^sup>* ?r
      (process_message_queue (\<lambda>i. sample_env 0) (enqueue_message (Some 8) new_message ?r))"
    by (rule rtranclp.rtrancl_into_rtrancl [OF r_into_rtranclp])
  show ?thesis
    by (rule client_request_wedges_backup [OF _ _ _ _ _ steps, THEN conjunct1])
      (simp_all add: new_replica_def new_ReplicaState_def is_primary_def get_primary_id_def
        fault_tolerance_def server_cluster_config_def sample_request_def zero_header_def)
qed

section \<open>Messages that block a replica for good\<close>

text \<open>
  Which message at the head of the queue stops a replica for ever, by its status. A NORMAL backup
  is never stopped for ever: its timer takes it to the next view.
\<close>

definition blocks_forever :: "ReplicaState \<Rightarrow> inbound_message \<Rightarrow> bool" where
  "blocks_forever s inbound =
     (let cmd = h_command (in_header inbound); v = h_view (in_header inbound)
      in case st_status s of
           NORMAL \<Rightarrow> is_primary s \<and> v = st_view s \<and>
             cmd \<notin> {command_ping, command_pong, command_request, command_prepare_ok, command_recovery}
         | VIEW_CHANGE \<Rightarrow> cmd \<in> {command_request, command_recovery} \<or>
             v > st_view s \<and> cmd \<notin> {command_ping, command_pong} \<or>
             v = st_view s \<and> cmd \<notin> {command_ping, command_pong, command_start_view_change} \<and>
               \<not> (cmd = command_do_view_change \<and> get_primary_id_for_view v s = st_id s) \<and>
               \<not> (cmd = command_start_view \<and> get_primary_id_for_view v s = uint (h_replica (in_header inbound)))
         | RECOVERY \<Rightarrow> cmd \<in> {command_request, command_recovery} \<or>
             v \<ge> st_view s \<and> cmd \<notin> {command_ping, command_pong, command_recovery_response})"

lemmas admission_defs = can_process_def check_can_process_request_def check_can_process_prepare_def
  check_can_process_prepare_ok_def check_can_process_commit_def check_can_process_start_view_change_def
  check_can_process_do_view_change_def check_can_process_start_view_def check_can_process_recovery_request_def
  check_can_process_recovery_response_def

lemma blocks_forever_iff:
  "blocks_forever s inbound \<longleftrightarrow> \<not> is_stale s (in_message inbound) \<and> \<not> can_process s inbound \<and>
     (st_status s = NORMAL \<longrightarrow> is_primary s \<and> determine_state_action s (in_message inbound) = PROCESS_NORMALLY)"
  using less_linear [of "h_view (in_header inbound)" "st_view s"]
  by (cases "st_status s"; cases "h_command (in_header inbound)")
    (auto simp: blocks_forever_def is_stale_def admission_defs determine_state_action_def Let_def)

text \<open>Nothing has happened to a replica since \<open>r\<close> but messages queueing up.\<close>

definition frozen_since :: "replica \<Rightarrow> replica \<Rightarrow> bool" where
  "frozen_since r r' \<longleftrightarrow> r_state r' = r_state r \<and> (\<exists>ms. r_message_queue r' = r_message_queue r @ ms)"

lemma blocked_step_frozen:
  assumes "replica_step q q'" and "frozen_since r q" and "r_message_queue r = inbound # rest"
    and "blocks_forever (r_state r) inbound"
  shows "frozen_since r q'"
  using assms(1)
proof cases
  case (process envs)
  have "head_blocked q"
    using assms(2-4) by (auto simp: head_blocked_def frozen_since_def blocks_forever_iff)
  moreover have "resolve_stuck (envs 0) q = q"
    using assms(2-4) by (auto simp: resolve_stuck_def frozen_since_def blocks_forever_iff)
  ultimately show ?thesis
    using process assms(2) by (simp add: process_blocked)
next
  case (deliver m c)
  then show ?thesis
    using assms(2) by (auto simp: frozen_since_def enqueue_message_def)
next
  case (liveness env)
  moreover have "is_primary (r_state q) \<or> st_status (r_state q) \<noteq> NORMAL"
    using assms(2,4) by (auto simp: blocks_forever_iff frozen_since_def)
  ultimately show ?thesis
    using assms(2) by (auto simp: frozen_since_def check_primary_liveness_def schedule_liveness_check_def)
next
  case beat
  then show ?thesis
    using assms(2) by (simp add: frozen_since_def)
qed

lemma initiate_changes_status:
  "st_status (r_state (initiate_view_change r)) = VIEW_CHANGE"
  "st_status (r_state r) = NORMAL \<Longrightarrow> st_status (r_state (initiate_recovery env r)) = RECOVERY"
  by (simp_all add: initiate_view_change_def enter_new_view_def initiate_recovery_def Let_def split: prod.splits)

lemma late_timer_env:
  obtains env where "duration_since_contact env r > primary_timeout"
proof -
  obtain env :: environment where "env_now env = r_last_primary_contact r + 3000000000"
    by (metis environment.select_convs(1))
  then show thesis
    by (intro that [of env]) (simp add: duration_since_contact_def primary_timeout_def)
qed

lemma late_timer:
  assumes "st_status (r_state r) = NORMAL" and "\<not> is_primary (r_state r)"
  shows "\<exists>env. st_status (r_state (check_primary_liveness env r)) = VIEW_CHANGE"
proof -
  obtain env where "duration_since_contact env r > primary_timeout"
    by (rule late_timer_env)
  with assms have "st_status (r_state (check_primary_liveness env r)) = VIEW_CHANGE"
    by (simp add: check_primary_liveness_def schedule_liveness_check_def initiate_changes_status)
  then show ?thesis ..
qed

lemma process_loop_shrinks: "length (r_message_queue (process_loop envs i r)) \<le> length (r_message_queue r)"
proof (induction envs i r rule: process_loop.induct)
  case (1 envs i r)
  obtain i1 r1 p where d: "drain_queue envs i r False = (i1, r1, p)"
    by (metis prod.exhaust)
  have shrinks: "length (r_message_queue (resolve_stuck (envs i1) r1)) \<le> length (r_message_queue r)"
    using resolve_stuck_length [of "envs i1" r1] drain_queue_length [OF d] by (auto intro: order_trans)
  show ?case
  proof (cases p)
    case True
    with "1.IH" [OF d [symmetric] refl True] d shrinks show ?thesis
      by (simp add: process_loop.simps [of envs i r])
  qed (use d shrinks in \<open>simp add: process_loop.simps [of envs i r]\<close>)
qed

lemma drain_queue_flag: "drain_queue envs i r p = (i', r', p') \<Longrightarrow> p \<Longrightarrow> p'"
proof (induction envs i r p arbitrary: i' r' p' rule: drain_queue.induct)
  case (1 envs i r p)
  show ?case
  proof (cases "r_message_queue r")
    case Nil
    with "1.prems" show ?thesis by (auto simp: drain_queue.simps [of envs i r True])
  next
    case (Cons inbound rest)
    show ?thesis
      using "1.IH"(1) [OF Cons] "1.IH"(2) [OF Cons] "1.prems" Cons
      by (simp add: drain_queue.simps [of envs i r True] split: if_splits)
  qed
qed

lemma unblocked_shrinks:
  assumes "r_message_queue r \<noteq> []" and "\<not> head_blocked r"
  shows "length (r_message_queue (process_message_queue envs r)) < length (r_message_queue r)"
proof -
  obtain i1 r1 p where d: "drain_queue envs 0 r False = (i1, r1, p)"
    by (metis prod.exhaust)
  have p
    using assms d
    by (cases "r_message_queue r")
      (auto simp: head_blocked_def drain_queue.simps [of envs 0 r False] split: if_splits dest: drain_queue_flag)
  then have "length (r_message_queue r1) < length (r_message_queue r)"
    using drain_queue_length [OF d] by auto
  moreover have "process_message_queue envs r = process_loop envs (Suc i1) (resolve_stuck (envs i1) r1)"
    using d \<open>p\<close> by (simp add: process_message_queue_def process_loop.simps [of envs 0 r])
  ultimately show ?thesis
    using process_loop_shrinks [of envs "Suc i1" "resolve_stuck (envs i1) r1"] resolve_stuck_length [of "envs i1" r1]
    by simp
qed

lemma frozen_only_if_blocked:
  assumes "r_message_queue r = inbound # rest" and "\<And>r'. replica_step r r' \<Longrightarrow> frozen_since r r'"
  shows "blocks_forever (r_state r) inbound"
proof -
  have "head_blocked r"
  proof (rule ccontr)
    assume "\<not> head_blocked r"
    then have "length (r_message_queue (process_message_queue (\<lambda>_. sample_env 0) r)) < length (r_message_queue r)"
      using assms(1) by (intro unblocked_shrinks) simp_all
    with assms(2) [OF process [of r "\<lambda>_. sample_env 0"]] show False
      by (auto simp: frozen_since_def)
  qed
  moreover have "st_status (r_state r) = NORMAL \<Longrightarrow> is_primary (r_state r)"
    using late_timer [of r] assms(2) [OF liveness] by (fastforce simp: frozen_since_def)
  moreover have "determine_state_action (r_state r) (in_message inbound) = PROCESS_NORMALLY"
    if "st_status (r_state r) = NORMAL"
  proof -
    have "r_state (resolve_stuck (sample_env 0) r) = r_state r"
      using assms(2) [OF process [of r "\<lambda>_. sample_env 0"]] \<open>head_blocked r\<close> by (simp add: process_blocked frozen_since_def)
    then have "st_status (r_state (resolve_stuck (sample_env 0) r)) = NORMAL"
      by (simp add: that)
    with assms(1) that show ?thesis
      by (cases "determine_state_action (r_state r) (in_message inbound)")
        (simp_all add: resolve_stuck_def initiate_changes_status)
  qed
  ultimately show ?thesis
    using assms(1) by (simp add: blocks_forever_iff head_blocked_def)
qed

text \<open>
  C21: exactly the messages of \<open>blocks_forever\<close> stop a replica for good. When one of them is at the
  head of the queue, then whatever arrives and whichever timers run, the replicated state does not
  change any more and the queue only grows; with any other message at the head some event
  changes the state or shortens the queue. So a primary that has started its view is stopped by a
  late DoViewChange or StartViewChange of the same view, a replica in a view change by any
  message of a later view and by any request or recovery request, and a recovering replica by
  the heartbeat of the primary, if it comes before the responses.
\<close>
theorem frozen_iff_head_blocks:
  assumes "r_message_queue r = inbound # rest"
  shows "(\<forall>r'. replica_step\<^sup>*\<^sup>* r r' \<longrightarrow> r_state r' = r_state r \<and> (\<exists>ms. r_message_queue r' = r_message_queue r @ ms)) \<longleftrightarrow>
     blocks_forever (r_state r) inbound"
proof
  assume frozen: "\<forall>r'. replica_step\<^sup>*\<^sup>* r r' \<longrightarrow> r_state r' = r_state r \<and> (\<exists>ms. r_message_queue r' = r_message_queue r @ ms)"
  show "blocks_forever (r_state r) inbound"
  proof (rule frozen_only_if_blocked [OF assms])
    fix r' assume "replica_step r r'"
    with frozen show "frozen_since r r'" unfolding frozen_since_def by blast
  qed
next
  assume blocks: "blocks_forever (r_state r) inbound"
  show "\<forall>r'. replica_step\<^sup>*\<^sup>* r r' \<longrightarrow> r_state r' = r_state r \<and> (\<exists>ms. r_message_queue r' = r_message_queue r @ ms)"
    unfolding frozen_since_def [symmetric]
  proof (intro allI impI)
    fix r' assume "replica_step\<^sup>*\<^sup>* r r'"
    then show "frozen_since r r'"
      by (induction rule: rtranclp_induct)
        (simp add: frozen_since_def, rule blocked_step_frozen [OF _ _ assms blocks])
  qed
qed

definition late_promise :: inbound_message where
  "late_promise = \<lparr>in_connection = Some 7, in_message =
     message_with (zero_header\<lparr>h_command := command_do_view_change, h_replica := 2\<rparr>) []\<rparr>"

theorem frozen_iff_head_blocks_witness:
  "r_state (process_message_queue (\<lambda>_. sample_env 0)
     ((new_replica 0 server_cluster_config)\<lparr>r_message_queue := [late_promise]\<rparr>)) = new_ReplicaState 0 server_cluster_config"
proof -
  let ?r = "(new_replica 0 server_cluster_config)\<lparr>r_message_queue := [late_promise]\<rparr>"
  have "blocks_forever (r_state ?r) late_promise"
    by (simp add: blocks_forever_def late_promise_def zero_header_def new_replica_def new_ReplicaState_def is_primary_def
        get_primary_id_def fault_tolerance_def server_cluster_config_def)
  with frozen_iff_head_blocks [of ?r late_promise "[]"]
  have "r_state (process_message_queue (\<lambda>_. sample_env 0) ?r) = r_state ?r"
    by (simp add: r_into_rtranclp replica_step.process)
  then show ?thesis
    by (simp add: new_replica_def)
qed

section \<open>Joining a view change\<close>

text \<open>
  A NORMAL replica whose queue holds just a StartViewChange for the next view enters that view
  and announces it, but leaves the message in the queue although it could process it now: the
  sender is not counted until some later event makes the replica process its queue again.
\<close>
theorem joining_leaves_message_unprocessed:
  assumes "st_status (r_state r) = NORMAL" and "r_message_queue r = [inbound]"
    and "h_command (in_header inbound) = command_start_view_change"
    and "h_view (in_header inbound) = st_view (r_state r) + 1" and "st_view (r_state r) \<noteq> - 1"
  shows "process_message_queue envs r = initiate_view_change r \<and>
     r_message_queue (process_message_queue envs r) = [inbound] \<and>
     st_start_view_change_received (r_state (process_message_queue envs r)) = {st_id (r_state r)} \<and>
     can_process (r_state (process_message_queue envs r)) inbound"
proof -
  have lt: "st_view (r_state r) < h_view (in_header inbound)"
    using unat_Suc_less [OF assms(5) [unfolded word_order.not_eq_extremum]]
    by (simp add: assms(4) word_less_nat_alt)
  have "head_blocked r"
    using assms lt by (simp add: head_blocked_def is_stale_def can_process_def
        check_can_process_start_view_change_def)
  moreover have "determine_state_action (r_state r) (in_message inbound) = INITIATE_VIEW_CHANGE"
    using assms lt by (simp add: determine_state_action_def)
  ultimately have eq: "process_message_queue envs r = initiate_view_change r"
    using assms by (simp add: process_blocked resolve_stuck_def)
  show ?thesis
    unfolding eq using assms
    by (simp add: initiate_view_change_def enter_new_view_def Let_def can_process_def
        check_can_process_start_view_change_def)
qed

definition sample_svc :: inbound_message where
  "sample_svc = \<lparr>in_connection = Some 7, in_message =
     message_with (zero_header\<lparr>h_command := command_start_view_change, h_view := 1, h_replica := 1\<rparr>) []\<rparr>"

theorem joining_leaves_message_unprocessed_witness:
  "r_message_queue (process_message_queue (\<lambda>i. sample_env 0)
     ((new_replica 2 server_cluster_config)\<lparr>r_message_queue := [sample_svc]\<rparr>)) = [sample_svc]"
  by (rule joining_leaves_message_unprocessed [THEN conjunct2, THEN conjunct1])
    (simp_all add: new_replica_def new_ReplicaState_def sample_svc_def)

end
