(* ===== verification/Cluster_Snapshot.thy ===== *)
theory Cluster_Snapshot
  imports Cluster_Example Replica_Liveness
begin

text \<open>
  Runs of a cluster described by what matters of their states, so that long runs can be built
  step by step: what a replica does with one message, and rules for the steps of a run.
\<close>

section \<open>The steps of the example runs\<close>

lemma handled_replicas [simp]:
  "i \<noteq> j \<Longrightarrow> cs_replica (handled config j c) i = cs_replica c i"
  "r_message_queue (cs_replica (handled config j c) j) = tl (r_message_queue (cs_replica c j))"
  by (simp_all add: handled_def replica_moves_def split: list.splits)

lemma arrive_replicas [simp]:
  "i \<noteq> j \<Longrightarrow> cs_replica (arrive hash j m c) i = cs_replica c i"
  "r_state (cs_replica (arrive hash j m c) j) = r_state (cs_replica c j)"
  "r_nonce_counter (cs_replica (arrive hash j m c) j) = r_nonce_counter (cs_replica c j)"
  "r_message_queue (cs_replica (arrive hash j m c) j) =
     r_message_queue (cs_replica c j) @ [\<lparr>in_connection = Some 5, in_message = prepared_message hash m\<rparr>]"
  "cs_network (arrive hash j m c) = cs_network c - {#(j, m)#}"
  by (simp_all add: arrive_def enqueue_message_def)

lemma beaten_replicas [simp]:
  "i \<noteq> j \<Longrightarrow> cs_replica (beaten config j c) i = cs_replica c i"
  "r_message_queue (cs_replica (beaten config j c) j) = r_message_queue (cs_replica c j)"
  by (simp_all add: beaten_def replica_moves_def heartbeat_def schedule_heartbeat_def send_commit_message_if_needed_def Let_def)

lemma sample_quiet:
  "r_message_queue (cs_replica sample_cluster j) = []"
  "j \<notin> {0, 1} \<Longrightarrow> r_state (cs_replica sample_cluster j) = new_ReplicaState j server_cluster_config"
  by (cases "j = 0"; cases "j = 1")
    (simp_all add: sample_cluster_def cluster3_def cluster2_def cluster1_def requested_def enqueue_message_def)

section \<open>Runs by snapshots\<close>

text \<open>
  To follow a run it is enough to know the replicated states, with all queues empty, and some of
  the packets on the network. Time, connections and counters are whatever the run made them.
\<close>

abbreviation reach_from :: "cluster \<Rightarrow> peer_config list \<Rightarrow> cluster \<Rightarrow> bool" where
  "reach_from c0 config c \<equiv> (cluster_step no_hash (members config))\<^sup>*\<^sup>* c0 c"

definition snapshot_from :: "cluster \<Rightarrow> peer_config list \<Rightarrow> (int \<Rightarrow> ReplicaState) \<Rightarrow> packet set \<Rightarrow> bool" where
  "snapshot_from c0 config states packets \<longleftrightarrow>
     (\<exists>c. reach_from c0 config c \<and>
        (\<forall>j. r_state (cs_replica c j) = states j \<and> r_message_queue (cs_replica c j) = []) \<and>
        packets \<subseteq> set_mset (cs_network c))"

text \<open>Runs from the start of the cluster.\<close>

abbreviation reach :: "peer_config list \<Rightarrow> cluster \<Rightarrow> bool" where
  "reach config c \<equiv> reach_from (cluster_start (\<lambda>_. sample_env 0) config) config c"

abbreviation snapshot :: "peer_config list \<Rightarrow> (int \<Rightarrow> ReplicaState) \<Rightarrow> packet set \<Rightarrow> bool" where
  "snapshot config \<equiv> snapshot_from (cluster_start (\<lambda>_. sample_env 0) config) config"

lemma snapshot_now:
  "(\<And>j. r_state (cs_replica c j) = states j) \<Longrightarrow> (\<And>j. r_message_queue (cs_replica c j) = []) \<Longrightarrow>
     packets \<subseteq> set_mset (cs_network c) \<Longrightarrow> snapshot_from c config states packets"
  by (auto simp: snapshot_from_def)

lemma snapshot_start: "snapshot config (\<lambda>j. new_ReplicaState j config) {}"
  by (rule snapshot_now)
    (simp_all add: cluster_start_def run_def schedule_liveness_check_def schedule_heartbeat_def new_replica_def)

lemma snapshot_packets: "snapshot_from c0 config states packets \<Longrightarrow> packets' \<subseteq> packets \<Longrightarrow> snapshot_from c0 config states packets'"
  unfolding snapshot_from_def by (meson subset_trans)

text \<open>
  What a replica in state \<open>s\<close> with an empty queue does when \<open>m\<close> arrives: it processes the message, goes to
  \<open>s'\<close> and sends at least \<open>acts\<close>.
\<close>

abbreviation received :: "vsr_message \<Rightarrow> inbound_message" where
  "received m \<equiv> \<lparr>in_connection = Some 5, in_message = m\<rparr>"

definition answers :: "ReplicaState \<Rightarrow> vsr_message \<Rightarrow> ReplicaState \<Rightarrow> action list \<Rightarrow> bool" where
  "answers s m s' acts \<longleftrightarrow> \<not> is_stale s m \<and> can_process s (received m) \<and>
     (\<forall>r. r_state r = s \<longrightarrow> r_state (dispatch (sample_env 0) (received m) r) = s' \<and>
        (\<exists>extra. r_outbox (dispatch (sample_env 0) (received m) r) = r_outbox r @ acts @ extra))"

definition sent :: "peer_config list \<Rightarrow> int \<Rightarrow> action list \<Rightarrow> packet set" where
  "sent config j acts = (\<Union>x\<in>set acts. set_mset (transmit (members config) j x))"

lemma new_packets_sent:
  "r_outbox r' = r_outbox r @ acts \<Longrightarrow> set_mset (new_packets (members config) j r r') = sent config j acts"
  by (auto simp: new_packets_append set_sum_list_mset sent_def)

lemma snapshot_turn:
  assumes reach: "reach_from c0 config c"
    and member: "j \<in> members config" and step: "queue_step (cs_replica c j) r'"
    and r': "r_state r' = s'" "r_message_queue r' = []" "r_outbox r' = r_outbox (cs_replica c j) @ acts @ extra"
    and others: "\<And>i. i \<noteq> j \<Longrightarrow> r_state (cs_replica c i) = states i \<and> r_message_queue (cs_replica c i) = []"
    and packets: "packets \<subseteq> set_mset (cs_network c)"
  shows "snapshot_from c0 config (states(j := s')) (packets \<union> sent config j acts)"
  unfolding snapshot_from_def
proof (intro exI conjI)
  let ?c = "replica_moves (members config) j r' c"
  show "reach_from c0 config ?c"
    using reach cluster_step.turn [OF member step] by (rule rtranclp.rtrancl_into_rtrancl)
  show "\<forall>i. r_state (cs_replica ?c i) = (states(j := s')) i \<and> r_message_queue (cs_replica ?c i) = []"
    using others r' by (simp add: replica_moves_def)
  have "set_mset (new_packets (members config) j (cs_replica c j) r') = sent config j (acts @ extra)"
    using r'(3) by (simp add: new_packets_sent)
  then show "packets \<union> sent config j acts \<subseteq> set_mset (cs_network ?c)"
    using packets by (auto simp: replica_moves_def sent_def)
qed

lemma dispatch_answers:
  assumes "answers s m s' acts" and "r_state r = s" and "r_message_queue r = received m # rest"
  shows "\<exists>r' extra. queue_step r r' \<and> r_state r' = s' \<and> r_message_queue r' = rest \<and>
    r_outbox r' = r_outbox r @ acts @ extra"
proof -
  let ?r' = "dispatch (sample_env 0) (received m) (r\<lparr>r_message_queue := rest\<rparr>)"
  have "queue_step r ?r'"
    using assms by (intro queue_step.handle) (simp_all add: answers_def)
  moreover have "r_state ?r' = s' \<and> (\<exists>extra. r_outbox ?r' = r_outbox (r\<lparr>r_message_queue := rest\<rparr>) @ acts @ extra)"
    using assms(1) [unfolded answers_def] assms(2) by (elim conjE allE [of _ "r\<lparr>r_message_queue := rest\<rparr>"] impE) simp_all
  moreover have "r_message_queue ?r' = rest"
    by simp
  ultimately show ?thesis by auto
qed

text \<open>The steps of a run: a packet is processed, a client sends a request, a timer expires, a message from the next view is joined.\<close>

lemma snapshot_cluster:
  assumes "snapshot_from c0 config states packets"
  obtains c where "reach_from c0 config c"
    "\<forall>j. r_state (cs_replica c j) = states j" "\<forall>j. r_message_queue (cs_replica c j) = []" "packets \<subseteq> set_mset (cs_network c)"
  using assms by (auto simp: snapshot_from_def)

lemma other_packets: "set_mset N - {p} \<subseteq> set_mset (N - {#p#})"
  by (auto simp: in_diff_count split: if_splits)

lemma snapshot_arrival:
  assumes "snapshot_from c0 config states packets" and "j \<in> members config" and "(j, m) \<in> packets"
    and "length (msg_payload m) \<le> 65408"
  obtains c where "reach_from c0 config c"
    "\<forall>j. r_state (cs_replica c j) = states j"
    "\<forall>i. r_message_queue (cs_replica c i) = (if i = j then [received (prepared_message no_hash m)] else [])"
    "packets - {(j, m)} \<subseteq> set_mset (cs_network c)"
proof -
  obtain c where c: "reach_from c0 config c"
    "\<forall>j. r_state (cs_replica c j) = states j" "\<forall>j. r_message_queue (cs_replica c j) = []" "packets \<subseteq> set_mset (cs_network c)"
    using snapshot_cluster [OF assms(1)] .
  have "cluster_step no_hash (members config) c (arrive no_hash j m c)"
    unfolding arrive_def using assms(2-4) c(4) by (intro cluster_step.deliver) auto
  with c(1) have "reach_from c0 config (arrive no_hash j m c)"
    by (rule rtranclp.rtrancl_into_rtrancl)
  moreover have "packets - {(j, m)} \<subseteq> set_mset (cs_network (arrive no_hash j m c))"
    using c(4) other_packets [of "cs_network c" "(j, m)"] by (auto simp: arrive_def)
  ultimately show thesis
    using c(2,3) by (intro that [of "arrive no_hash j m c"]) (auto simp: arrive_def enqueue_message_def)
qed

lemma snapshot_deliver:
  assumes "snapshot_from c0 config states packets" and "j \<in> members config" and "(j, m) \<in> packets"
    and "length (msg_payload m) \<le> 65408" and "answers (states j) (prepared_message no_hash m) s' acts"
  shows "snapshot_from c0 config (states(j := s')) (packets - {(j, m)} \<union> sent config j acts)"
proof -
  obtain c where c: "reach_from c0 config c"
    "\<forall>j. r_state (cs_replica c j) = states j"
    "\<forall>i. r_message_queue (cs_replica c i) = (if i = j then [received (prepared_message no_hash m)] else [])"
    "packets - {(j, m)} \<subseteq> set_mset (cs_network c)"
    using snapshot_arrival [OF assms(1-4)] .
  obtain r' extra where r': "queue_step (cs_replica c j) r'" "r_state r' = s'" "r_message_queue r' = []"
    "r_outbox r' = r_outbox (cs_replica c j) @ acts @ extra"
    using dispatch_answers [OF assms(5) spec [OF c(2)], of "[]"] c(3) by auto
  show ?thesis
    using c(2-4) by (intro snapshot_turn [OF c(1) assms(2) r']) simp_all
qed

lemma snapshot_request:
  assumes "snapshot_from c0 config states packets" and "j \<in> members config" and "client_message m"
    and "answers (states j) m s' acts"
  shows "snapshot_from c0 config (states(j := s')) (packets \<union> sent config j acts)"
proof -
  obtain c where c: "reach_from c0 config c"
    "\<forall>j. r_state (cs_replica c j) = states j" "\<forall>j. r_message_queue (cs_replica c j) = []" "packets \<subseteq> set_mset (cs_network c)"
    using snapshot_cluster [OF assms(1)] .
  define c1 where "c1 = c\<lparr>cs_replica := (cs_replica c)(j := enqueue_message (Some 5) m (cs_replica c j))\<rparr>"
  have c1: "reach_from c0 config c1"
    unfolding c1_def using c(1) cluster_step.client [OF assms(2,3)] by (rule rtranclp.rtrancl_into_rtrancl)
  have "r_state (cs_replica c1 j) = states j" "r_message_queue (cs_replica c1 j) = [received m]"
    using c(2,3) by (simp_all add: c1_def enqueue_message_def)
  from dispatch_answers [OF assms(4) this] obtain r' extra where r': "queue_step (cs_replica c1 j) r'" "r_state r' = s'"
    "r_message_queue r' = []" "r_outbox r' = r_outbox (cs_replica c1 j) @ acts @ extra"
    by blast
  show ?thesis
    using c(2-4) by (intro snapshot_turn [OF c1 assms(2) r']) (simp_all add: c1_def)
qed

definition vote :: "u32 \<Rightarrow> int \<Rightarrow> vsr_message" where
  "vote v j = message_with (zero_header\<lparr>h_command := command_start_view_change, h_view := v, h_replica := word_of_int j\<rparr>) []"

lemma initiate_view_change_vote:
  "r_state (initiate_view_change r) = enter_new_view (st_view (r_state r) + 1) (r_state r)"
  "r_message_queue (initiate_view_change r) = r_message_queue r"
  "r_outbox (initiate_view_change r) = r_outbox r @ [Broadcast_to_peers (vote (st_view (r_state r) + 1) (st_id (r_state r)))]"
  by (simp_all add: initiate_view_change_def vote_def enter_new_view_def Let_def)

lemma snapshot_timeout:
  assumes "snapshot_from c0 config states packets" and "j \<in> members config" and "st_status (states j) = NORMAL"
    and "\<not> is_primary (states j)"
  shows "snapshot_from c0 config (states(j := enter_new_view (st_view (states j) + 1) (states j)))
     (packets \<union> sent config j [Broadcast_to_peers (vote (st_view (states j) + 1) (st_id (states j)))])"
proof -
  obtain c where c: "reach_from c0 config c"
    "\<forall>j. r_state (cs_replica c j) = states j" "\<forall>j. r_message_queue (cs_replica c j) = []" "packets \<subseteq> set_mset (cs_network c)"
    using snapshot_cluster [OF assms(1)] .
  obtain env where env: "duration_since_contact env (cs_replica c j) > primary_timeout"
    by (rule late_timer_env)
  let ?r' = "check_primary_liveness env (cs_replica c j)"
  have r': "?r' = schedule_liveness_check (initiate_view_change (cs_replica c j))"
    using env assms(3,4) c(2) by (simp add: check_primary_liveness_def)
  show ?thesis
    unfolding snapshot_from_def
  proof (intro exI conjI)
    let ?c = "replica_moves (members config) j ?r' c"
    show "reach_from c0 config ?c"
      using c(1) cluster_step.liveness [OF assms(2)] by (rule rtranclp.rtrancl_into_rtrancl)
    show "\<forall>i. r_state (cs_replica ?c i) = (states(j := enter_new_view (st_view (states j) + 1) (states j))) i \<and>
        r_message_queue (cs_replica ?c i) = []"
      using c(2,3) by (simp add: r' replica_moves_def schedule_liveness_check_def initiate_view_change_vote)
    show "packets \<union> sent config j [Broadcast_to_peers (vote (st_view (states j) + 1) (st_id (states j)))] \<subseteq> set_mset (cs_network ?c)"
      using c(2,4) by (auto simp: r' replica_moves_def new_packets_def schedule_liveness_check_def initiate_view_change_vote sent_def)
  qed
qed

lemma snapshot_join:
  assumes "snapshot_from c0 config states packets" and "j \<in> members config" and "(j, m) \<in> packets"
    and "h_command (msg_header m) = command_start_view_change" and "h_view (msg_header m) = st_view (states j) + 1"
    and "length (msg_payload m) \<le> 65408" and "st_status (states j) = NORMAL" and "st_view (states j) < st_view (states j) + 1"
    and "answers (enter_new_view (st_view (states j) + 1) (states j)) (prepared_message no_hash m) s' acts"
  shows "snapshot_from c0 config (states(j := s')) (packets - {(j, m)} \<union>
     sent config j [Broadcast_to_peers (vote (st_view (states j) + 1) (st_id (states j)))] \<union> sent config j acts)"
proof -
  obtain c where c: "reach_from c0 config c" "\<forall>j. r_state (cs_replica c j) = states j"
    "\<forall>i. r_message_queue (cs_replica c i) = (if i = j then [received (prepared_message no_hash m)] else [])"
    "packets - {(j, m)} \<subseteq> set_mset (cs_network c)"
    using snapshot_arrival [OF assms(1-3,6)] .
  let ?q = "initiate_view_change (cs_replica c j)" and ?c = "joined config j c"
  have "queue_step (cs_replica c j) ?q"
    using c(2,3) assms(4,5,7,8)
    by (intro queue_step.join [of _ "received (prepared_message no_hash m)" "[]"])
      (auto simp: head_blocked_def is_stale_def can_process_def check_can_process_start_view_change_def
        determine_state_action_def)
  then have reach: "reach_from c0 config ?c"
    unfolding joined_def using c(1) cluster_step.turn [OF assms(2)] by (blast intro: rtranclp.rtrancl_into_rtrancl)
  have q: "cs_replica ?c j = ?q" "\<And>i. i \<noteq> j \<Longrightarrow> cs_replica ?c i = cs_replica c i"
    by (simp_all add: joined_def replica_moves_def)
  obtain r' extra where r': "queue_step (cs_replica ?c j) r'" "r_state r' = s'" "r_message_queue r' = []"
    "r_outbox r' = r_outbox (cs_replica ?c j) @ acts @ extra"
    using dispatch_answers [OF assms(9), of ?q "[]"] c(2,3) by (auto simp: initiate_view_change_vote q(1))
  have "packets - {(j, m)} \<union> sent config j [Broadcast_to_peers (vote (st_view (states j) + 1) (st_id (states j)))]
      \<subseteq> set_mset (cs_network ?c)"
    using c(2,4) by (auto simp: joined_def replica_moves_def new_packets_def initiate_view_change_vote sent_def)
  then show ?thesis
    using c(2,3) by (intro snapshot_turn [OF reach assms(2) r']) (simp_all add: q(2))
qed

definition recovery_message :: "int \<Rightarrow> uint128_t \<Rightarrow> vsr_message" where
  "recovery_message j nonce = message_with (zero_header\<lparr>h_command := command_recovery, h_replica := word_of_int j\<rparr>)
     (recovery_request_serialize \<lparr>rq_nonce = nonce\<rparr>)"

lemma snapshot_recovering:
  assumes c: "reach_from c0 config c" "\<forall>j. r_state (cs_replica c j) = states j"
    "\<forall>i. r_message_queue (cs_replica c i) = (if i = j then [received m] else [])" "packets \<subseteq> set_mset (cs_network c)"
    and member: "j \<in> members config" and normal: "st_status (states j) = NORMAL"
    and stuck: "\<not> is_stale (states j) m" "\<not> can_process (states j) (received m)"
      "determine_state_action (states j) m = INITIATE_RECOVERY"
  shows "\<exists>nonce. snapshot_from c0 config
     (states(j := (states j)\<lparr>st_status := RECOVERY, st_recovery_nonce := nonce, st_recovery_responses := []\<rparr>))
     (packets \<union> sent config j [Broadcast_to_peers (recovery_message (st_id (states j)) nonce)])"
proof -
  let ?r' = "(initiate_recovery (sample_env 0) (cs_replica c j))\<lparr>r_message_queue := []\<rparr>"
  obtain nonce counter where nonce: "generate_nonce (env_tv_sec (sample_env 0)) (env_tv_nsec (sample_env 0))
      (r_nonce_counter (cs_replica c j)) (st_id (states j)) = (nonce, counter)"
    by fastforce
  have step: "queue_step (cs_replica c j) ?r'"
    using c(2,3) normal stuck by (intro queue_step.recover [of _ "received m" "[]"]) (auto simp: head_blocked_def)
  have r': "r_state ?r' = (states j)\<lparr>st_status := RECOVERY, st_recovery_nonce := nonce, st_recovery_responses := []\<rparr>"
    "r_outbox ?r' = r_outbox (cs_replica c j) @ [Broadcast_to_peers (recovery_message (st_id (states j)) nonce)] @ []"
    using c(2) normal nonce by (simp_all add: initiate_recovery_def recovery_message_def)
  show ?thesis
    using c(2-4) by (intro exI [of _ nonce] snapshot_turn [OF c(1) member step r'(1) _ r'(2)]) simp_all
qed

lemma snapshot_recover:
  assumes "snapshot_from c0 config states packets" and "j \<in> members config" and "(j, m) \<in> packets"
    and "length (msg_payload m) \<le> 65408" and "st_status (states j) = NORMAL"
    and "h_command (msg_header m) = command_prepare" and "h_view (msg_header m) = st_view (states j)"
    and "h_op (msg_header m) > st_op (states j) + 1" and "\<not> is_primary (states j)"
  shows "\<exists>nonce. snapshot_from c0 config
     (states(j := (states j)\<lparr>st_status := RECOVERY, st_recovery_nonce := nonce, st_recovery_responses := []\<rparr>))
     (packets - {(j, m)} \<union> sent config j [Broadcast_to_peers (recovery_message (st_id (states j)) nonce)])"
proof -
  obtain c where c: "reach_from c0 config c" "\<forall>j. r_state (cs_replica c j) = states j"
    "\<forall>i. r_message_queue (cs_replica c i) = (if i = j then [received (prepared_message no_hash m)] else [])"
    "packets - {(j, m)} \<subseteq> set_mset (cs_network c)"
    using snapshot_arrival [OF assms(1-4)] .
  show ?thesis
    using assms(5-9)
    by (intro snapshot_recovering [OF c assms(2,5)])
      (auto simp: is_stale_def can_process_def check_can_process_prepare_def determine_state_action_def Let_def)
qed

text \<open>A request with a later view number makes a backup recover.\<close>

lemma snapshot_stray:
  assumes "snapshot_from c0 config states packets" and "j \<in> members config" and "client_message m"
    and "h_command (msg_header m) = command_request" and "h_view (msg_header m) > st_view (states j)"
    and "st_status (states j) = NORMAL" and "\<not> is_primary (states j)"
  shows "\<exists>nonce. snapshot_from c0 config
     (states(j := (states j)\<lparr>st_status := RECOVERY, st_recovery_nonce := nonce, st_recovery_responses := []\<rparr>))
     (packets \<union> sent config j [Broadcast_to_peers (recovery_message (st_id (states j)) nonce)])"
proof -
  obtain c where c: "reach_from c0 config c"
    "\<forall>j. r_state (cs_replica c j) = states j" "\<forall>j. r_message_queue (cs_replica c j) = []" "packets \<subseteq> set_mset (cs_network c)"
    using snapshot_cluster [OF assms(1)] .
  define c1 where "c1 = c\<lparr>cs_replica := (cs_replica c)(j := enqueue_message (Some 5) m (cs_replica c j))\<rparr>"
  have c1: "reach_from c0 config c1"
    unfolding c1_def using c(1) cluster_step.client [OF assms(2,3)] by (rule rtranclp.rtrancl_into_rtrancl)
  show ?thesis
    using c assms(4-7)
    by (intro snapshot_recovering [where states = states and m = m, OF c1 _ _ _ assms(2,6)])
      (auto simp: c1_def enqueue_message_def is_stale_def can_process_def check_can_process_request_def determine_state_action_def Let_def)
qed

end
