(* ===== verification/Cluster_Failures.thy ===== *)
theory Cluster_Failures
  imports Cluster_Snapshot
begin

text \<open>
  Runs of a cluster in which the code does not do what a replicated store should. In a cluster of
  five replicas recovery can make two replicas commit different operations under one op number;
  in the configured cluster of three a view change can stop the new primary for good.
\<close>

section \<open>Recovery in a cluster of five\<close>

definition five :: "peer_config list" where
  "five = map (\<lambda>i. \<lparr>pc_id = int i, pc_host = ''localhost'', pc_port = 8080 + int i\<rparr>) [0, 1, 2, 3, 4]"

abbreviation fresh :: "int \<Rightarrow> ReplicaState" where
  "fresh j \<equiv> new_ReplicaState j five"

lemma five_members: "members five = {0, 1, 2, 3, 4}"
  by (simp add: members_def five_def)

lemma five_state [simp]:
  "st_status (fresh j) = NORMAL" "st_view (fresh j) = 0" "st_op (fresh j) = 0" "st_log (fresh j) = []"
  "st_commit (fresh j) = 0" "st_last_executed_op (fresh j) = 0" "st_client_table (fresh j) = []" "st_id (fresh j) = j"
  "st_last_normal_view (fresh j) = 0" "st_do_view_change_received (fresh j) = []"
  "st_recovery_nonce (fresh j) = uint128_zero" "st_recovery_responses (fresh j) = []"
  "length (st_cluster_config (fresh j)) = 5" "st_state_machine (fresh j) = Map.empty" "st_f (fresh j) = 2"
  by (simp_all add: new_ReplicaState_def five_def fault_tolerance_eq)

lemma five_primary:
  "st_f s = 2 \<Longrightarrow> st_view s = 0 \<Longrightarrow> is_primary s \<longleftrightarrow> st_id s = 0"
  "st_f s = 2 \<Longrightarrow> st_view s = 1 \<Longrightarrow> is_primary s \<longleftrightarrow> st_id s = 1"
  "st_f s = 2 \<Longrightarrow> quorum s = 3"
  "length (st_cluster_config s) = 5 \<Longrightarrow> get_primary_id_for_view 1 s = 1"
  by (auto simp: is_primary_def get_primary_id_def quorum_eq get_primary_id_for_view_eq)

lemma sent_simps:
  "finite (members config) \<Longrightarrow> sent config j [Broadcast_to_peers m] = (\<lambda>i. (i, m)) ` (members config - {j})"
  "finite (members config) \<Longrightarrow> sent config j [Send_message c m] = (\<lambda>i. (i, m)) ` members config"
  "sent config j [Send_to_peer i m] = {(i, m)}"
  by (simp_all add: sent_def)

lemma five_broadcast:
  "sent five 0 [Broadcast_to_peers m] = {(1, m), (2, m), (3, m), (4, m)}"
  "sent five 1 [Broadcast_to_peers m] = {(0, m), (2, m), (3, m), (4, m)}"
  "sent five 3 [Broadcast_to_peers m] = {(0, m), (1, m), (2, m), (4, m)}"
  "sent five 4 [Broadcast_to_peers m] = {(0, m), (1, m), (2, m), (3, m)}"
  "sent five j [Send_message c m] = {(0, m), (1, m), (2, m), (3, m), (4, m)}"
  by (simp_all add: sent_simps five_members insert_Diff_if)

text \<open>The requests of a client, and the Prepares and log entries the primary makes of them.\<close>

definition store_request :: "u64 \<Rightarrow> u32 \<Rightarrow> string \<Rightarrow> vsr_message" where
  "store_request client n text = message_with (zero_header\<lparr>h_command := command_request, h_operation := operation_set,
     h_client := UInt128 0 client, h_request := n\<rparr>) (bytes_of_string text)"

definition store_entry :: "u32 \<Rightarrow> u64 \<Rightarrow> u32 \<Rightarrow> string \<Rightarrow> int set \<Rightarrow> log_entry" where
  "store_entry v client n text acks = \<lparr>le_view = v, le_op_type = operation_set, le_client_id = UInt128 0 client,
     le_request_num = n, le_payload = bytes_of_string text, le_prepare_ok_acks = acks\<rparr>"

definition store_prepare :: "u32 \<Rightarrow> int \<Rightarrow> u64 \<Rightarrow> u64 \<Rightarrow> u32 \<Rightarrow> string \<Rightarrow> vsr_message" where
  "store_prepare v j op client n text = message_with (zero_header\<lparr>h_command := command_prepare,
     h_operation := operation_set, h_replica := word_of_int j, h_client := UInt128 0 client, h_request := n,
     h_view := v, h_op := op\<rparr>) (bytes_of_string text)"

definition store_ack :: "u32 \<Rightarrow> u64 \<Rightarrow> int \<Rightarrow> vsr_message" where
  "store_ack v op j = message_with (zero_header\<lparr>h_command := command_prepare_ok, h_view := v, h_op := op,
     h_replica := word_of_int j\<rparr>) []"

abbreviation opened :: "u32 \<Rightarrow> client_table_entry" where
  "opened n \<equiv> \<lparr>ct_request_number = n, ct_executed = False, ct_result = []\<rparr>"

lemma store_request_ok: "length text < 1000 \<Longrightarrow> client_message (store_request client n text)"
  by (simp add: client_message_def message_ok_def wf_header_def store_request_def bytes_of_string_def zero_header_def)

lemma zero_commit: "h_commit zero_header = 0" "zero_header\<lparr>h_commit := 0\<rparr> = zero_header"
  by (simp_all add: zero_header_def)

lemma answers_store_request:
  assumes "st_status s = NORMAL" and "is_primary s" and "st_commit s = 0"
    and "ct_request_number (om_index new_client_table_entry (st_client_table s) (UInt128 0 client)) < n"
  shows "answers s (store_request client n text)
     (s\<lparr>st_op := st_op s + 1, st_log := om_assign (st_op s + 1) (store_entry (st_view s) client n text {st_id s}) (st_log s),
       st_client_table := om_assign (UInt128 0 client) (opened n) (om_assign (UInt128 0 client)
         (om_index new_client_table_entry (st_client_table s) (UInt128 0 client)) (st_client_table s))\<rparr>)
     [Broadcast_to_peers (store_prepare (st_view s) (st_id s) (st_op s + 1) client n text)]"
  using assms
  by (simp add: answers_def is_stale_def can_process_def check_can_process_request_def dispatch_def handle_request_def
      store_request_def store_entry_def store_prepare_def prepare_message_def zero_commit Let_def) auto

lemma answers_store_prepare:
  assumes "st_status s = NORMAL" and "\<not> is_primary s" and "op = st_op s + 1" and "v = st_view s"
  shows "answers s (prepared_message no_hash (store_prepare v j op client n text))
     (s\<lparr>st_op := st_op s + 1, st_log := om_assign (st_op s + 1) (store_entry (st_view s) client n text {}) (st_log s),
       st_client_table := om_assign (UInt128 0 client) (opened n) (st_client_table s)\<rparr>)
     [Send_message (Some 5) (store_ack (st_view s) (st_op s + 1) (st_id s))]"
  using assms
  by (simp add: answers_def is_stale_def can_process_def check_can_process_prepare_def dispatch_def handle_prepare_def
      store_prepare_def store_entry_def store_ack_def prepare_ok_message_def learn_commit_def zero_commit Let_def)

text \<open>The states of the five replicas, in order.\<close>

definition at5 :: "ReplicaState \<Rightarrow> ReplicaState \<Rightarrow> ReplicaState \<Rightarrow> ReplicaState \<Rightarrow> ReplicaState \<Rightarrow> int \<Rightarrow> ReplicaState" where
  "at5 a b c d e = (\<lambda>j. if j = 0 then a else if j = 1 then b else if j = 2 then c else if j = 3 then d
     else if j = 4 then e else fresh j)"

lemma at5_simps [simp]:
  "at5 a b c d e 0 = a" "at5 a b c d e 1 = b" "at5 a b c d e 2 = c" "at5 a b c d e 3 = d" "at5 a b c d e 4 = e"
  "(at5 a b c d e)(0 := s) = at5 s b c d e" "(at5 a b c d e)(1 := s) = at5 a s c d e"
  "(at5 a b c d e)(2 := s) = at5 a b s d e" "(at5 a b c d e)(3 := s) = at5 a b c s e"
  "(at5 a b c d e)(4 := s) = at5 a b c d s"
  by (auto simp: at5_def)

lemma at5_fresh: "at5 (fresh 0) (fresh 1) (fresh 2) (fresh 3) (fresh 4) = fresh"
  by (auto simp: at5_def)

lemma five_deliver:
  assumes "snapshot five states packets" and "answers (states j) (prepared_message no_hash m) s' acts"
    and "(j, m) \<in> packets" and "j \<in> {0, 1, 2, 3, 4}" and "length (msg_payload m) \<le> 65408"
    and "packets' \<subseteq> packets - {(j, m)} \<union> sent five j acts"
  shows "snapshot five (states(j := s')) packets'"
  using snapshot_packets [OF snapshot_deliver [OF assms(1) _ assms(3,5,2)] assms(6)] assms(4)
  by (simp add: five_members)

lemma five_request:
  assumes "snapshot five states packets" and "answers (states j) m s' acts" and "client_message m"
    and "j \<in> {0, 1, 2, 3, 4}" and "packets' \<subseteq> packets \<union> sent five j acts"
  shows "snapshot five (states(j := s')) packets'"
  using snapshot_packets [OF snapshot_request [OF assms(1) _ assms(3,2)] assms(5)] assms(4)
  by (simp add: five_members)

lemma answers_recovery:
  assumes "st_status s = NORMAL" and "0 \<le> j" and "j < 256"
  shows "answers s (prepared_message no_hash (recovery_message j nonce)) s [Send_to_peer j (recovery_response_message s nonce)]"
  using assms
  by (simp add: answers_def is_stale_def can_process_def check_can_process_recovery_request_def dispatch_def
      handle_recovery_request_def recovery_message_def recovery_request_roundtrip uint_word_of_int)

text \<open>An answer that carries the state of a replica that knows of nothing.\<close>

abbreviation empty_response :: "uint128_t \<Rightarrow> int \<Rightarrow> vsr_message" where
  "empty_response nonce j \<equiv> recovery_response_message (fresh j) nonce"

lemma empty_response_read:
  "recovery_response_deserialize (msg_payload (empty_response nonce j)) \<lparr>rs_nonce = uint128_zero, rs_log = []\<rparr> =
     (True, \<lparr>rs_nonce = nonce, rs_log = []\<rparr>)"
  using recovery_response_roundtrip [of "\<lparr>rs_nonce = nonce, rs_log = []\<rparr>" "\<lparr>rs_nonce = uint128_zero, rs_log = []\<rparr>"]
  by (simp add: recovery_response_message_def wf_log_def om_ok_def strip_log_def)

lemma empty_response_small: "length (msg_payload (empty_response nonce j)) \<le> 65408"
  by (simp add: recovery_response_message_def recovery_response_serialize_def write_log_to_buffer_def write_pod_def
      codec_simps)

lemma empty_response_command [simp]: "h_command (msg_header (empty_response nonce j)) = command_recovery_response"
  by (simp add: recovery_response_message_def)

lemma answers_response:
  assumes "st_status s = RECOVERY" and "st_recovery_nonce s = nonce" and "st_view s = 0"
    and "length (st_recovery_responses s) + 1 < quorum s"
  shows "answers s (prepared_message no_hash (empty_response nonce j))
     (s\<lparr>st_recovery_responses := st_recovery_responses s @ [prepared_message no_hash (empty_response nonce j)]\<rparr>) []"
proof -
  have "quorum (s\<lparr>st_recovery_responses := rs\<rparr>) = quorum s" for rs
    by (simp add: quorum_eq)
  with assms show ?thesis
    by (auto simp: answers_def is_stale_def can_process_def check_can_process_recovery_response_def dispatch_def
        handle_recovery_response_def empty_response_read Let_def)
qed

lemma answers_last_response:
  assumes "st_status s = RECOVERY" and "st_recovery_nonce s = nonce" and "st_view s = 0"
    and "st_recovery_responses s = [prepared_message no_hash (empty_response nonce i1),
      prepared_message no_hash (empty_response nonce i2)]" and "st_f s = 2"
  shows "answers s (prepared_message no_hash (empty_response nonce i3))
     (s\<lparr>st_op := 0, st_commit := 0, st_log := [], st_last_executed_op := 0, st_status := NORMAL, st_client_table := [],
       st_recovery_nonce := uint128_zero, st_recovery_responses := []\<rparr>) []"
proof -
  have "quorum (s\<lparr>st_recovery_responses := rs\<rparr>) = 3" for rs
    using assms(5) by (simp add: five_primary)
  moreover have "s\<lparr>st_recovery_responses := rs, st_view := 0\<rparr> = s\<lparr>st_recovery_responses := rs\<rparr>" for rs
    using assms(3) by simp
  ultimately show ?thesis
    using assms(1-4)
    by (auto simp: answers_def is_stale_def can_process_def check_can_process_recovery_response_def dispatch_def
        handle_recovery_response_def empty_response_read adopt_recovery_def better_response_def
        execute_commited_ops_exit Let_def)
qed

text \<open>Replica 1 acknowledges the first operation, finds a gap before the third and recovers; it is then as if new.\<close>

abbreviation prepare_a :: vsr_message where "prepare_a \<equiv> store_prepare 0 0 1 7 1 ''a 1''"
abbreviation prepare_b :: vsr_message where "prepare_b \<equiv> store_prepare 0 0 2 7 2 ''b 2''"
abbreviation prepare_c :: vsr_message where "prepare_c \<equiv> store_prepare 0 0 3 7 3 ''c 3''"

definition three_ops :: "int set \<Rightarrow> ReplicaState" where
  "three_ops acks = (fresh 0)\<lparr>st_op := 3, st_log := [(1, store_entry 0 7 1 ''a 1'' acks), (2, store_entry 0 7 2 ''b 2'' {0}),
     (3, store_entry 0 7 3 ''c 3'' {0})], st_client_table := [(UInt128 0 7, opened 3)]\<rparr>"

definition acked_a :: "int \<Rightarrow> ReplicaState" where
  "acked_a j = (fresh j)\<lparr>st_op := 1, st_log := [(1, store_entry 0 7 1 ''a 1'' {})],
     st_client_table := [(UInt128 0 7, opened 1)]\<rparr>"

lemma five_requests:
  "snapshot five (at5 (three_ops {0}) (fresh 1) (fresh 2) (fresh 3) (fresh 4)) {(1, prepare_a), (2, prepare_a), (1, prepare_c)}"
proof -
  let ?s1 = "(fresh 0)\<lparr>st_op := 1, st_log := [(1, store_entry 0 7 1 ''a 1'' {0})], st_client_table := [(UInt128 0 7, opened 1)]\<rparr>"
  let ?s2 = "(fresh 0)\<lparr>st_op := 2, st_log := [(1, store_entry 0 7 1 ''a 1'' {0}), (2, store_entry 0 7 2 ''b 2'' {0})],
    st_client_table := [(UInt128 0 7, opened 2)]\<rparr>"
  have a: "answers (fresh 0) (store_request 7 1 ''a 1'') ?s1 [Broadcast_to_peers prepare_a]"
    using answers_store_request [of "fresh 0" 7 1 "''a 1''"]
    by (simp add: five_primary om_index_def om_find_def new_client_table_entry_def)
  have b: "answers ?s1 (store_request 7 2 ''b 2'') ?s2 [Broadcast_to_peers prepare_b]"
    using answers_store_request [of ?s1 7 2 "''b 2''"]
    by (simp add: five_primary om_index_def om_find_def new_client_table_entry_def)
  have c: "answers ?s2 (store_request 7 3 ''c 3'') (three_ops {0}) [Broadcast_to_peers prepare_c]"
    using answers_store_request [of ?s2 7 3 "''c 3''"]
    by (simp add: five_primary om_index_def om_find_def new_client_table_entry_def three_ops_def)
  have "snapshot five (at5 ?s1 (fresh 1) (fresh 2) (fresh 3) (fresh 4)) {(1, prepare_a), (2, prepare_a)}"
    using five_request [OF snapshot_start [of five, folded at5_fresh], of 0 "store_request 7 1 ''a 1''" ?s1] a
    by (simp add: store_request_ok five_broadcast)
  then have "snapshot five (at5 ?s2 (fresh 1) (fresh 2) (fresh 3) (fresh 4)) {(1, prepare_a), (2, prepare_a)}"
    using five_request [of _ _ 0 "store_request 7 2 ''b 2''" ?s2] b
    by (fastforce simp: store_request_ok five_broadcast)
  then show ?thesis
    using five_request [of _ _ 0 "store_request 7 3 ''c 3''" "three_ops {0}"] c
    by (fastforce simp: store_request_ok five_broadcast)
qed

lemma store_prepare_fields [simp]:
  "h_command (msg_header (store_prepare v j op client n text)) = command_prepare"
  "h_view (msg_header (store_prepare v j op client n text)) = v"
  "h_op (msg_header (store_prepare v j op client n text)) = op"
  "length (msg_payload (store_prepare v j op client n text)) = length text"
  by (simp_all add: store_prepare_def bytes_of_string_def)

lemma five_acked:
  "snapshot five (at5 (three_ops {0}) (acked_a 1) (fresh 2) (fresh 3) (fresh 4))
     {(2, prepare_a), (1, prepare_c), (0, store_ack 0 1 1)}"
proof -
  have "answers (fresh 1) (prepared_message no_hash prepare_a) (acked_a 1) [Send_message (Some 5) (store_ack 0 1 1)]"
    using answers_store_prepare [of "fresh 1" 1 0 0 7 1 "''a 1''"] by (simp add: five_primary acked_a_def)
  moreover have "prepare_a \<noteq> prepare_c"
    by (auto dest: arg_cong [of _ _ "\<lambda>m. h_op (msg_header m)"])
  ultimately show ?thesis
    using five_deliver [OF five_requests, of 1 prepare_a "acked_a 1"] by (simp add: five_broadcast)
qed

lemma five_recovering:
  "\<exists>nonce. snapshot five (at5 (three_ops {0})
       ((acked_a 1)\<lparr>st_status := RECOVERY, st_recovery_nonce := nonce, st_recovery_responses := []\<rparr>)
       (fresh 2) (fresh 3) (fresh 4))
     {(2, prepare_a), (0, store_ack 0 1 1), (2, recovery_message 1 nonce), (3, recovery_message 1 nonce),
      (4, recovery_message 1 nonce)}"
proof -
  have "\<not> is_primary (acked_a 1)" "st_status (acked_a 1) = NORMAL" "st_view (acked_a 1) = 0" "st_op (acked_a 1) = 1"
    "st_id (acked_a 1) = 1"
    by (simp_all add: five_primary acked_a_def)
  then obtain nonce where "snapshot five (at5 (three_ops {0}) ((acked_a 1)\<lparr>st_status := RECOVERY,
        st_recovery_nonce := nonce, st_recovery_responses := []\<rparr>) (fresh 2) (fresh 3) (fresh 4))
      ({(2, prepare_a), (1, prepare_c), (0, store_ack 0 1 1)} - {(1, prepare_c)} \<union>
        sent five 1 [Broadcast_to_peers (recovery_message 1 nonce)])"
    using snapshot_recover [OF five_acked, of 1 prepare_c] by (auto simp: five_members)
  then show ?thesis
    by (intro exI [of _ nonce]) (erule snapshot_packets, simp add: five_broadcast)
qed

lemma recovery_message_small: "length (msg_payload (recovery_message j nonce)) \<le> 65408"
  by (simp add: recovery_message_def recovery_request_serialize_def write_pod_def codec_simps)

lemma empty_response_distinct:
  "i \<in> {0..<256} \<Longrightarrow> j \<in> {0..<256} \<Longrightarrow> empty_response nonce i = empty_response nonce j \<longleftrightarrow> i = j"
proof
  assume ij: "i \<in> {0..<256}" "j \<in> {0..<256}" and eq: "empty_response nonce i = empty_response nonce j"
  from arg_cong [OF eq, of "\<lambda>m. uint (h_replica (msg_header m))"] ij show "i = j"
    by (simp add: recovery_response_message_def uint_word_of_int)
qed simp

lemma five_recovered:
  "snapshot five (at5 (three_ops {0}) (fresh 1) (fresh 2) (fresh 3) (fresh 4)) {(2, prepare_a), (0, store_ack 0 1 1)}"
proof -
  let ?m = "\<lambda>nonce j. prepared_message no_hash (empty_response nonce j)"
  let ?s = "\<lambda>nonce rs. (acked_a 1)\<lparr>st_status := RECOVERY, st_recovery_nonce := nonce, st_recovery_responses := rs\<rparr>"
  obtain nonce where start: "snapshot five (at5 (three_ops {0}) (?s nonce []) (fresh 2) (fresh 3) (fresh 4))
     {(2, prepare_a), (0, store_ack 0 1 1), (2, recovery_message 1 nonce), (3, recovery_message 1 nonce),
      (4, recovery_message 1 nonce)}"
    using five_recovering by blast
  have ans: "answers (fresh j) (prepared_message no_hash (recovery_message 1 nonce)) (fresh j)
      [Send_to_peer 1 (empty_response nonce j)]" for j
    by (rule answers_recovery) simp_all
  have differ: "prepare_a \<noteq> recovery_message 1 nonce"
    by (auto simp: recovery_message_def dest: arg_cong [of _ _ "\<lambda>m. h_command (msg_header m)"])
  have "snapshot five (at5 (three_ops {0}) (?s nonce []) (fresh 2) (fresh 3) (fresh 4))
     {(2, prepare_a), (0, store_ack 0 1 1), (1, empty_response nonce 2), (3, recovery_message 1 nonce),
      (4, recovery_message 1 nonce)}"
    using five_deliver [OF start, of 2 "recovery_message 1 nonce" "fresh 2"] ans [of 2] differ
    by (simp add: recovery_message_small sent_simps)
  from five_deliver [OF this, of 3 "recovery_message 1 nonce" "fresh 3"] ans [of 3]
  have "snapshot five (at5 (three_ops {0}) (?s nonce []) (fresh 2) (fresh 3) (fresh 4))
     {(2, prepare_a), (0, store_ack 0 1 1), (1, empty_response nonce 2), (1, empty_response nonce 3),
      (4, recovery_message 1 nonce)}"
    by (simp add: recovery_message_small sent_simps)
  from five_deliver [OF this, of 4 "recovery_message 1 nonce" "fresh 4"] ans [of 4]
  have "snapshot five (at5 (three_ops {0}) (?s nonce []) (fresh 2) (fresh 3) (fresh 4))
     {(2, prepare_a), (0, store_ack 0 1 1), (1, empty_response nonce 2), (1, empty_response nonce 3),
      (1, empty_response nonce 4)}"
    by (simp add: recovery_message_small sent_simps)
  moreover have "answers (?s nonce []) (?m nonce 2) (?s nonce [?m nonce 2]) []"
    using answers_response [of "?s nonce []" nonce 2] by (simp add: five_primary acked_a_def)
  ultimately have "snapshot five (at5 (three_ops {0}) (?s nonce [?m nonce 2]) (fresh 2) (fresh 3) (fresh 4))
     {(2, prepare_a), (0, store_ack 0 1 1), (1, empty_response nonce 3), (1, empty_response nonce 4)}"
    using five_deliver [of _ _ 1 "empty_response nonce 2" "?s nonce [?m nonce 2]" "[]"]
    by (fastforce simp: empty_response_small empty_response_distinct)
  moreover have "answers (?s nonce [?m nonce 2]) (?m nonce 3) (?s nonce [?m nonce 2, ?m nonce 3]) []"
    using answers_response [of "?s nonce [?m nonce 2]" nonce 3] by (simp add: five_primary acked_a_def)
  ultimately have "snapshot five (at5 (three_ops {0}) (?s nonce [?m nonce 2, ?m nonce 3]) (fresh 2) (fresh 3) (fresh 4))
     {(2, prepare_a), (0, store_ack 0 1 1), (1, empty_response nonce 4)}"
    using five_deliver [of _ _ 1 "empty_response nonce 3" "?s nonce [?m nonce 2, ?m nonce 3]" "[]"]
    by (fastforce simp: empty_response_small empty_response_distinct)
  moreover have "answers (?s nonce [?m nonce 2, ?m nonce 3]) (?m nonce 4) (fresh 1) []"
    using answers_last_response [of "?s nonce [?m nonce 2, ?m nonce 3]" nonce 2 3 4]
    by (simp add: acked_a_def new_ReplicaState_def five_def fault_tolerance_eq)
  ultimately show ?thesis
    using five_deliver [of _ _ 1 "empty_response nonce 4" "fresh 1" "[]"]
    by (fastforce simp: empty_response_small)
qed

text \<open>The state after executing the first operation, the only committed one.\<close>

definition first_executed :: "log_entry \<Rightarrow> ReplicaState \<Rightarrow> ReplicaState" where
  "first_executed e s =
     (let (kv, result) = apply_operation (le_op_type e) (le_payload e) (st_state_machine s)
      in s\<lparr>st_last_executed_op := 1, st_state_machine := kv, st_client_table := om_assign (le_client_id e)
        \<lparr>ct_request_number = le_request_num e, ct_executed = True, ct_result = bytes_of_string result\<rparr>
        (om_assign (le_client_id e) (om_index new_client_table_entry (st_client_table s) (le_client_id e)) (st_client_table s))\<rparr>)"

lemma first_executed_fields [simp]:
  "st_commit (first_executed e s) = st_commit s" "st_last_executed_op (first_executed e s) = 1"
  "st_status (first_executed e s) = st_status s" "st_view (first_executed e s) = st_view s" "st_log (first_executed e s) = st_log s"
  by (simp_all add: first_executed_def split: prod.splits)

lemma executes_first:
  assumes "st_last_executed_op (r_state r) = 0" and "st_commit (r_state r) = 1"
    and "om_find (st_log (r_state r)) 1 = Some e"
    and "ct_executed (om_index new_client_table_entry (st_client_table (r_state r)) (le_client_id e)) = False"
  shows "r_state (execute_commited_ops r) = first_executed e (r_state r)"
    and "\<exists>extra. r_outbox (execute_commited_ops r) = r_outbox r @ extra"
proof -
  have "execute_commited_ops r = execute_commited_ops (execute_next e r)"
    by (rule execute_commited_ops_next) (simp_all add: assms)
  also have "\<dots> = execute_next e r"
    by (rule execute_commited_ops_exit(1))
      (simp add: execute_next_def execute_entry_def assms Let_def split: prod.splits)
  finally have eq: "execute_commited_ops r = execute_next e r" .
  show "r_state (execute_commited_ops r) = first_executed e (r_state r)"
    unfolding eq by (simp add: first_executed_def execute_next_def execute_entry_def assms Let_def split: prod.splits)
  show "\<exists>extra. r_outbox (execute_commited_ops r) = r_outbox r @ extra"
    unfolding eq by (simp add: execute_next_def execute_entry_def send_reply_def Let_def split: prod.splits option.splits)
qed

lemma store_entry_fields [simp]:
  "le_prepare_ok_acks (store_entry v client n text acks) = acks" "le_client_id (store_entry v client n text acks) = UInt128 0 client"
  "(store_entry v client n text acks)\<lparr>le_prepare_ok_acks := acks'\<rparr> = store_entry v client n text acks'"
  by (simp_all add: store_entry_def)

lemma answers_early_ack:
  assumes "st_status s = NORMAL" and "is_primary s" and "v = st_view s" and "st_commit s = 0" and "st_last_executed_op s = 0"
    and "st_log s = (1, store_entry v client n text acks) # rest" and "card (insert k acks) < quorum s"
    and "0 \<le> k" and "k < 256"
  shows "answers s (prepared_message no_hash (store_ack v 1 k))
     (s\<lparr>st_log := (1, store_entry v client n text (insert k acks)) # rest\<rparr>) []"
proof -
  let ?s = "s\<lparr>st_log := (1, store_entry v client n text (insert k acks)) # rest\<rparr>"
  have "quorum ?s = quorum s" "is_primary ?s"
    using assms(2) by (simp_all add: quorum_eq is_primary_def get_primary_id_def)
  then have "r_state r = s \<Longrightarrow> advance_primary_commit_number (r\<lparr>r_state := ?s\<rparr>) = r\<lparr>r_state := ?s\<rparr>" for r
    using assms(4,5,7)
    by (simp add: advance_primary_commit_number_def can_commit_next_def om_find_def execute_commited_ops_exit)
  with assms show ?thesis
    by (simp add: answers_def is_stale_def can_process_def check_can_process_prepare_ok_def dispatch_def store_ack_def
        handle_prepare_ok_def om_find_def uint_word_of_int Let_def)
qed

lemma answers_last_ack:
  assumes "st_status s = NORMAL" and "is_primary s" and "v = st_view s" and "st_commit s = 0" and "st_last_executed_op s = 0"
    and "st_log s = (1, store_entry v client n text acks) # rest" and "card (insert k acks) \<ge> quorum s"
    and "\<And>e. om_find rest 2 = Some e \<Longrightarrow> card (le_prepare_ok_acks e) < quorum s"
    and "\<not> ct_executed (om_index new_client_table_entry (st_client_table s) (UInt128 0 client))"
    and "0 \<le> k" and "k < 256"
  shows "\<exists>s'. answers s (prepared_message no_hash (store_ack v 1 k)) s' [] \<and> st_commit s' = 1 \<and> st_last_executed_op s' = 1 \<and>
     st_status s' = NORMAL \<and> st_view s' = v \<and> st_log s' = (1, store_entry v client n text (insert k acks)) # rest"
proof -
  let ?e = "store_entry v client n text (insert k acks)"
  let ?s = "s\<lparr>st_log := (1, ?e) # rest\<rparr>"
  have q: "quorum ?s = quorum s" "quorum (?s\<lparr>st_commit := 1\<rparr>) = quorum s" "is_primary ?s"
    using assms(2) by (simp_all add: quorum_eq is_primary_def get_primary_id_def)
  have loop: "advance_loop (Suc (length (st_log ?s))) ?s = ?s\<lparr>st_commit := 1\<rparr>"
    using assms(4,7,8) by (auto simp: can_commit_next_def om_find_def q split: option.splits)
  let ?s' = "first_executed ?e (?s\<lparr>st_commit := 1\<rparr>)"
  let ?r = "\<lambda>r. r\<lparr>r_state := ?s\<lparr>st_commit := 1\<rparr>\<rparr>"
  have exec: "r_state (execute_commited_ops (?r r)) = ?s'" "\<exists>extra. r_outbox (execute_commited_ops (?r r)) = r_outbox r @ extra" for r
    using executes_first [of "?r r" ?e] assms(5,9) by (simp_all add: om_find_def)
  have "answers s (prepared_message no_hash (store_ack v 1 k)) ?s' []"
    using assms(1-3,6,10,11) loop q(3) exec
    by (simp add: answers_def is_stale_def can_process_def check_can_process_prepare_ok_def dispatch_def store_ack_def
        handle_prepare_ok_def om_find_def uint_word_of_int advance_primary_commit_number_def del: advance_loop.simps)
  then show ?thesis
    using assms(1,3) by (intro exI [of _ ?s']) simp
qed

lemma five_committed:
  "\<exists>s. snapshot five (at5 s (fresh 1) (acked_a 2) (fresh 3) (fresh 4)) {} \<and> st_commit s = 1 \<and> st_last_executed_op s = 1 \<and>
     st_log s = st_log (three_ops {2, 1, 0})"
proof -
  have ans: "answers (fresh 2) (prepared_message no_hash prepare_a) (acked_a 2) [Send_message (Some 5) (store_ack 0 1 2)]"
    using answers_store_prepare [of "fresh 2" 1 0 0 7 1 "''a 1''"] by (simp add: five_primary acked_a_def)
  have "snapshot five (at5 (three_ops {0}) (fresh 1) (acked_a 2) (fresh 3) (fresh 4)) {(0, store_ack 0 1 1), (0, store_ack 0 1 2)}"
    using five_deliver [OF five_recovered, of 2 prepare_a "acked_a 2"] ans by (simp add: five_broadcast)
  moreover have "answers (three_ops {0}) (prepared_message no_hash (store_ack 0 1 1)) (three_ops {1, 0}) []"
    using answers_early_ack [of "three_ops {0}" 0 7 1 "''a 1''" "{0}" _ 1]
    by (simp add: three_ops_def five_primary) (simp add: new_ReplicaState_def)
  moreover have "store_ack 0 1 1 \<noteq> store_ack 0 1 2"
    by (auto simp: store_ack_def dest: arg_cong [of _ _ "\<lambda>m. h_replica (msg_header m)"])
  moreover have "length (msg_payload (store_ack 0 1 j)) \<le> 65408" for j
    by (simp add: store_ack_def)
  ultimately have early: "snapshot five (at5 (three_ops {1, 0}) (fresh 1) (acked_a 2) (fresh 3) (fresh 4)) {(0, store_ack 0 1 2)}"
    using five_deliver [of _ _ 0 "store_ack 0 1 1" "three_ops {1, 0}" "[]"] by fastforce
  obtain s where s: "answers (three_ops {1, 0}) (prepared_message no_hash (store_ack 0 1 2)) s []"
    "st_commit s = 1" "st_last_executed_op s = 1" "st_log s = st_log (three_ops {2, 1, 0})"
    using answers_last_ack [of "three_ops {1, 0}" 0 7 1 "''a 1''" "{1, 0}" _ 2]
    by (auto simp: three_ops_def five_primary om_find_def om_index_def)
  have "snapshot five (at5 s (fresh 1) (acked_a 2) (fresh 3) (fresh 4)) {}"
    using five_deliver [OF early, of 0 "store_ack 0 1 2" s "[]"] s(1) by (simp add: store_ack_def)
  with s show ?thesis by blast
qed

section \<open>View changes\<close>

lemma vote_fields [simp]:
  "h_command (msg_header (vote v j)) = command_start_view_change" "h_view (msg_header (vote v j)) = v"
  "h_replica (msg_header (vote v j)) = word_of_int j" "msg_payload (vote v j) = []"
  by (simp_all add: vote_def)

lemma vote_distinct: "i \<in> {0..<256} \<Longrightarrow> j \<in> {0..<256} \<Longrightarrow> vote v i = vote v j \<longleftrightarrow> i = j"
proof
  assume ij: "i \<in> {0..<256}" "j \<in> {0..<256}" and eq: "vote v i = vote v j"
  from arg_cong [OF eq, of "\<lambda>m. uint (h_replica (msg_header m))"] ij show "i = j"
    by (simp add: uint_word_of_int)
qed simp

lemma answers_vote:
  assumes "st_status s = VIEW_CHANGE" and "st_view s = v" and "j \<in> {0..<256}"
    and "card (insert j (st_start_view_change_received s)) < quorum s"
  shows "answers s (prepared_message no_hash (vote v j))
     (s\<lparr>st_start_view_change_received := insert j (st_start_view_change_received s)\<rparr>) []"
proof -
  have "quorum (s\<lparr>st_start_view_change_received := A\<rparr>) = quorum s" for A
    by (simp add: quorum_eq)
  with assms show ?thesis
    by (simp add: answers_def is_stale_def can_process_def check_can_process_start_view_change_def dispatch_def
        handle_start_view_change_def uint_word_of_int Let_def)
qed

lemma answers_last_vote:
  assumes "st_status s = VIEW_CHANGE" and "st_view s = v" and "j \<in> {0..<256}"
    and "card (insert j (st_start_view_change_received s)) \<ge> quorum s" and "get_primary_id_for_view v s = i" and "i \<noteq> st_id s"
  shows "answers s (prepared_message no_hash (vote v j)) (s\<lparr>st_start_view_change_received := {}\<rparr>)
     [Send_to_peer i (do_view_change_message s)]"
proof -
  have "quorum (s\<lparr>st_start_view_change_received := A\<rparr>) = quorum s"
    "get_primary_id_for_view v (s\<lparr>st_start_view_change_received := A\<rparr>) = i" for A
    using assms(5) by (simp_all add: quorum_eq get_primary_id_for_view_def)
  with assms(1-4,6) show ?thesis
    by (simp add: answers_def is_stale_def can_process_def check_can_process_start_view_change_def dispatch_def
        handle_start_view_change_def do_view_change_message_def uint_word_of_int Let_def)
qed

text \<open>A promise of a replica that has logged nothing, as it is sent and as it is received.\<close>

definition blank_promise :: "vsr_message \<Rightarrow> bool" where
  "blank_promise m \<longleftrightarrow> h_op (msg_header m) = 0 \<and> h_commit (msg_header m) = 0 \<and>
     (\<forall>junk. do_view_change_deserialize (msg_payload m) \<lparr>dvc_last_normal_view = junk, dvc_log = []\<rparr> =
        (True, \<lparr>dvc_last_normal_view = 0, dvc_log = []\<rparr>))"

lemma blank_promise_message:
  assumes "st_op s = 0" and "st_commit s = 0" and "st_log s = []" and "st_last_normal_view s = 0"
  shows "blank_promise (do_view_change_message s)" and "blank_promise (prepared_message no_hash (do_view_change_message s))"
  using assms do_view_change_roundtrip [of "\<lparr>dvc_last_normal_view = 0, dvc_log = []\<rparr>"]
  by (simp_all add: blank_promise_def do_view_change_message_def wf_log_def om_ok_def strip_log_def)

lemma blank_selection:
  assumes "\<forall>m \<in> set ms. blank_promise m" and "ms \<noteq> []" and "commit = 0"
  shows "fold (select_next junk) (tl ms) (select_first junk commit (hd ms)) = (\<lparr>dvc_last_normal_view = 0, dvc_log = []\<rparr>, 0, 0)"
proof -
  have "fold (select_next junk) ms (\<lparr>dvc_last_normal_view = 0, dvc_log = []\<rparr>, 0, 0) = (\<lparr>dvc_last_normal_view = 0, dvc_log = []\<rparr>, 0, 0)"
    if "\<forall>m \<in> set ms. blank_promise m" for ms
    using that by (induction ms) (simp_all add: select_next_def blank_promise_def)
  moreover from assms have "select_first junk commit (hd ms) = (\<lparr>dvc_last_normal_view = 0, dvc_log = []\<rparr>, 0, 0)"
    by (simp add: select_first_def blank_promise_def)
  ultimately show ?thesis
    using assms(1) by (metis list.set_sel(2) assms(2))
qed

definition started :: "ReplicaState \<Rightarrow> ReplicaState" where
  "started s = s\<lparr>st_do_view_change_received := [], st_log := [], st_op := 0, st_commit := 0, st_status := NORMAL\<rparr>"

lemma handle_blank_promise:
  assumes "\<forall>m \<in> set (st_do_view_change_received (r_state r) @ [in_message inbound]). blank_promise m"
    and "st_commit (r_state r) = 0" and "st_last_executed_op (r_state r) = 0"
  shows "handle_do_view_change env inbound r =
    (if Suc (length (st_do_view_change_received (r_state r))) \<ge> quorum (r_state r)
     then emit (Broadcast_to_peers (start_view_message (started (r_state r)))) (r\<lparr>r_state := started (r_state r)\<rparr>)
     else set_state (\<lambda>s. s\<lparr>st_do_view_change_received := st_do_view_change_received s @ [in_message inbound]\<rparr>) r)"
proof -
  have "quorum ((r_state r)\<lparr>st_do_view_change_received := ms\<rparr>) = quorum (r_state r)" for ms
    by (simp add: quorum_eq)
  then show ?thesis
    using assms
    by (simp add: handle_do_view_change_def blank_selection Let_def started_def execute_commited_ops_exit del: set_append)
qed

lemma answers_promise:
  assumes "st_status s = VIEW_CHANGE" and "h_command (msg_header m) = command_do_view_change" and "h_view (msg_header m) = st_view s"
    and "get_primary_id_for_view (st_view s) s = st_id s" and "st_commit s = 0" and "st_last_executed_op s = 0"
    and "\<forall>m' \<in> set (st_do_view_change_received s @ [m]). blank_promise m'"
  shows "Suc (length (st_do_view_change_received s)) < quorum s \<Longrightarrow>
      answers s m (s\<lparr>st_do_view_change_received := st_do_view_change_received s @ [m]\<rparr>) []"
    and "Suc (length (st_do_view_change_received s)) \<ge> quorum s \<Longrightarrow>
      answers s m (started s) [Broadcast_to_peers (start_view_message (started s))]"
  using assms
  by (simp_all add: answers_def is_stale_def can_process_def check_can_process_do_view_change_def dispatch_def
      handle_blank_promise)

lemma answers_own_promise:
  assumes "st_status s = VIEW_CHANGE" and "st_view s = v" and "j \<in> {0..<256}"
    and "card (insert j (st_start_view_change_received s)) \<ge> quorum s" and "get_primary_id_for_view v s = st_id s"
    and "st_commit s = 0" and "st_last_executed_op s = 0"
    and "\<forall>m \<in> set (st_do_view_change_received s @ [do_view_change_message s]). blank_promise m"
  defines "s1 \<equiv> s\<lparr>st_start_view_change_received := {}\<rparr>"
  shows "Suc (length (st_do_view_change_received s)) < quorum s \<Longrightarrow>
      answers s (prepared_message no_hash (vote v j))
        (s1\<lparr>st_do_view_change_received := st_do_view_change_received s @ [do_view_change_message s]\<rparr>) []"
    and "Suc (length (st_do_view_change_received s)) \<ge> quorum s \<Longrightarrow>
      answers s (prepared_message no_hash (vote v j)) (started s1) [Broadcast_to_peers (start_view_message (started s1))]"
proof -
  have q: "quorum (s\<lparr>st_start_view_change_received := A\<rparr>) = quorum s"
    "get_primary_id_for_view v (s\<lparr>st_start_view_change_received := A\<rparr>) = st_id s"
    "do_view_change_message (s\<lparr>st_start_view_change_received := A\<rparr>) = do_view_change_message s" for A
    using assms(5) by (simp_all add: quorum_eq get_primary_id_for_view_def do_view_change_message_def)
  have handle: "dispatch (sample_env 0) (received (prepared_message no_hash (vote v j))) r =
      handle_do_view_change (sample_env 0) \<lparr>in_connection = None, in_message = do_view_change_message s\<rparr> (r\<lparr>r_state := s1\<rparr>)"
    if "r_state r = s" for r
    using assms(2-4) q that by (simp add: dispatch_def handle_start_view_change_def uint_word_of_int Let_def s1_def)
  show "Suc (length (st_do_view_change_received s)) < quorum s \<Longrightarrow>
      answers s (prepared_message no_hash (vote v j))
        (s1\<lparr>st_do_view_change_received := st_do_view_change_received s @ [do_view_change_message s]\<rparr>) []"
    and "Suc (length (st_do_view_change_received s)) \<ge> quorum s \<Longrightarrow>
      answers s (prepared_message no_hash (vote v j)) (started s1) [Broadcast_to_peers (start_view_message (started s1))]"
    using assms(1,2,6-8) q handle
    by (simp_all add: answers_def is_stale_def can_process_def check_can_process_start_view_change_def handle_blank_promise s1_def)
qed

lemma answers_start_view:
  assumes "st_status s = VIEW_CHANGE" and "st_view s = st_view p" and "get_primary_id_for_view (st_view s) s = st_id p"
    and "st_id p \<in> {0..<256}" and "st_log p = []" and "st_op p = 0" and "st_commit p = 0" and "st_last_executed_op s = 0"
  shows "answers s (prepared_message no_hash (start_view_message p))
    (s\<lparr>st_op := 0, st_commit := 0, st_log := [], st_status := NORMAL\<rparr>) []"
proof -
  have "start_view_deserialize (start_view_serialize \<lparr>sv_log = []\<rparr>) \<lparr>sv_log = []\<rparr> = (True, \<lparr>sv_log = []\<rparr>)"
    using start_view_roundtrip [of "\<lparr>sv_log = []\<rparr>" "\<lparr>sv_log = []\<rparr>"] by (simp add: wf_log_def om_ok_def strip_log_def)
  then show ?thesis
    using assms
    by (auto simp: answers_def is_stale_def can_process_def check_can_process_start_view_def dispatch_def
        handle_start_view_def start_view_message_def uint_word_of_int execute_commited_ops_exit retroactive_loop.simps Let_def)
qed

lemma do_view_change_fields [simp]:
  "h_command (msg_header (do_view_change_message s)) = command_do_view_change"
  "h_view (msg_header (do_view_change_message s)) = st_view s"
  by (simp_all add: do_view_change_message_def)

lemma empty_log_small:
  "st_log s = [] \<Longrightarrow> length (msg_payload (do_view_change_message s)) \<le> 65408"
  "st_log s = [] \<Longrightarrow> length (msg_payload (start_view_message s)) \<le> 65408"
  by (simp_all add: do_view_change_message_def do_view_change_serialize_def start_view_message_def start_view_serialize_def
      write_log_to_buffer_def write_pod_def codec_simps)

section \<open>Two commits under one number\<close>

text \<open>
  Replicas 1, 3 and 4 now know of no operation and elect replica 1, which gives the op number that
  replica 0 has committed to another operation.
\<close>

definition electing :: "int \<Rightarrow> int set \<Rightarrow> vsr_message list \<Rightarrow> ReplicaState" where
  "electing j votes promises = (fresh j)\<lparr>st_view := 1, st_status := VIEW_CHANGE,
     st_start_view_change_received := votes, st_do_view_change_received := promises\<rparr>"

lemma electing_simps [simp]:
  "st_status (electing j votes promises) = VIEW_CHANGE" "st_view (electing j votes promises) = 1" "st_id (electing j votes promises) = j"
  "st_start_view_change_received (electing j votes promises) = votes" "st_do_view_change_received (electing j votes promises) = promises"
  "st_commit (electing j votes promises) = 0" "st_last_executed_op (electing j votes promises) = 0"
  "st_op (electing j votes promises) = 0" "st_log (electing j votes promises) = []" "st_last_normal_view (electing j votes promises) = 0"
  "quorum (electing j votes promises) = 3" "get_primary_id_for_view 1 (electing j votes promises) = 1"
  "(electing j votes promises)\<lparr>st_start_view_change_received := votes'\<rparr> = electing j votes' promises"
  "(electing j votes promises)\<lparr>st_do_view_change_received := promises'\<rparr> = electing j votes promises'"
  by (simp_all add: electing_def five_primary)

lemma enter_electing: "enter_new_view 1 (fresh j) = electing j {j} []"
  by (simp add: electing_def enter_new_view_def new_ReplicaState_def Let_def)

abbreviation promise :: "int \<Rightarrow> vsr_message" where
  "promise j \<equiv> do_view_change_message (electing j {} [])"

lemma promise_electing: "do_view_change_message (electing j votes promises) = promise j"
  by (simp add: do_view_change_message_def)

lemma blank_promises: "blank_promise (promise j)" "blank_promise (prepared_message no_hash (promise j))"
  by (simp_all add: blank_promise_message)

lemma five_timeout:
  "\<exists>s. snapshot five (at5 s (fresh 1) (acked_a 2) (electing 3 {3} []) (fresh 4)) {(1, vote 1 3), (4, vote 1 3)} \<and>
     st_commit s = 1 \<and> st_last_executed_op s = 1 \<and> st_log s = st_log (three_ops {2, 1, 0})"
proof -
  obtain s where s: "snapshot five (at5 s (fresh 1) (acked_a 2) (fresh 3) (fresh 4)) {}"
    "st_commit s = 1 \<and> st_last_executed_op s = 1 \<and> st_log s = st_log (three_ops {2, 1, 0})"
    using five_committed by blast
  from snapshot_timeout [OF s(1), of 3]
  have "snapshot five (at5 s (fresh 1) (acked_a 2) (electing 3 {3} []) (fresh 4)) {(1, vote 1 3), (4, vote 1 3)}"
    by (auto simp: five_members five_primary enter_electing five_broadcast elim: snapshot_packets)
  with s(2) show ?thesis by blast
qed

lemma five_join:
  assumes "snapshot five states packets" and "states j = fresh j" and "(j, vote 1 i) \<in> packets"
    and "i \<in> {0, 1, 2, 3, 4}" and "j \<in> {0, 1, 2, 3, 4}" and "i \<noteq> j"
    and "packets' \<subseteq> packets - {(j, vote 1 i)} \<union> sent five j [Broadcast_to_peers (vote 1 j)]"
  shows "snapshot five (states(j := electing j {i, j} [])) packets'"
proof -
  have "answers (enter_new_view (st_view (states j) + 1) (states j)) (prepared_message no_hash (vote 1 i)) (electing j {i, j} []) []"
    using answers_vote [of "electing j {j} []" 1 i] assms(2,4,6) by (auto simp: enter_electing)
  from snapshot_join [OF assms(1) _ assms(3) _ _ _ _ _ this] show ?thesis
    using assms(2,5,7) by (intro snapshot_packets [OF _ assms(7)]) (simp add: five_members sent_def)
qed

lemma five_votes:
  "\<exists>s. snapshot five (at5 s (electing 1 {} [promise 1]) (acked_a 2) (electing 3 {} []) (electing 4 {} []))
       {(1, promise 3), (1, promise 4)} \<and>
     st_commit s = 1 \<and> st_last_executed_op s = 1 \<and> st_log s = st_log (three_ops {2, 1, 0})"
proof -
  note vote_simps = vote_distinct five_broadcast sent_simps
  obtain s where s: "snapshot five (at5 s (fresh 1) (acked_a 2) (electing 3 {3} []) (fresh 4)) {(1, vote 1 3), (4, vote 1 3)}"
    "st_commit s = 1 \<and> st_last_executed_op s = 1 \<and> st_log s = st_log (three_ops {2, 1, 0})"
    using five_timeout by blast
  have "snapshot five (at5 s (fresh 1) (acked_a 2) (electing 3 {3} []) (electing 4 {3, 4} []))
      {(1, vote 1 3), (1, vote 1 4), (3, vote 1 4)}"
    using five_join [OF s(1), of 4 3] by (simp add: vote_simps)
  from five_join [OF this, of 1 3]
  have "snapshot five (at5 s (electing 1 {3, 1} []) (acked_a 2) (electing 3 {3} []) (electing 4 {3, 4} []))
      {(1, vote 1 4), (3, vote 1 4), (3, vote 1 1), (4, vote 1 1)}"
    by (simp add: vote_simps)
  moreover have "answers (electing 1 {3, 1} []) (prepared_message no_hash (vote 1 4)) (electing 1 {} [promise 1]) []"
    using answers_own_promise(1) [of "electing 1 {3, 1} []" 1 4]
    by (simp add: promise_electing [of 1 "{3, 1}"] blank_promises)
  ultimately have "snapshot five (at5 s (electing 1 {} [promise 1]) (acked_a 2) (electing 3 {3} []) (electing 4 {3, 4} []))
      {(3, vote 1 4), (3, vote 1 1), (4, vote 1 1)}"
    using five_deliver [of _ _ 1 "vote 1 4" "electing 1 {} [promise 1]" "[]"] by fastforce
  moreover have "answers (electing 3 {3} []) (prepared_message no_hash (vote 1 4)) (electing 3 {4, 3} []) []"
    using answers_vote [of "electing 3 {3} []" 1 4] by simp
  ultimately have "snapshot five (at5 s (electing 1 {} [promise 1]) (acked_a 2) (electing 3 {4, 3} []) (electing 4 {3, 4} []))
      {(3, vote 1 1), (4, vote 1 1)}"
    using five_deliver [of _ _ 3 "vote 1 4" "electing 3 {4, 3} []" "[]"] by (fastforce simp: vote_distinct)
  from five_deliver [OF this, of 3 "vote 1 1" "electing 3 {} []" "[Send_to_peer 1 (promise 3)]"]
  have "snapshot five (at5 s (electing 1 {} [promise 1]) (acked_a 2) (electing 3 {} []) (electing 4 {3, 4} []))
      {(4, vote 1 1), (1, promise 3)}"
    using answers_last_vote [of "electing 3 {4, 3} []" 1 1 1] by (simp add: promise_electing [of 3 "{4, 3}"] sent_simps)
  from five_deliver [OF this, of 4 "vote 1 1" "electing 4 {} []" "[Send_to_peer 1 (promise 4)]"]
  have "snapshot five (at5 s (electing 1 {} [promise 1]) (acked_a 2) (electing 3 {} []) (electing 4 {} []))
      {(1, promise 3), (1, promise 4)}"
    using answers_last_vote [of "electing 4 {3, 4} []" 1 1 1] by (simp add: promise_electing [of 4 "{3, 4}"] sent_simps)
  with s(2) show ?thesis by blast
qed

definition leader :: ReplicaState where
  "leader = started (electing 1 {} [])"

lemma leader_simps [simp]:
  "st_status leader = NORMAL" "st_view leader = 1" "st_id leader = 1" "st_log leader = []" "st_op leader = 0" "st_commit leader = 0"
  "st_last_executed_op leader = 0" "st_client_table leader = []" "st_f leader = 2"
  by (simp_all add: leader_def started_def) (simp_all add: electing_def)

lemma started_electing: "started (electing 1 {} promises) = leader"
  by (simp add: leader_def started_def)

lemma promise_distinct: "promise 3 \<noteq> promise 4"
  by (auto simp: do_view_change_message_def dest: arg_cong [of _ _ "\<lambda>m. h_replica (msg_header m)"])

lemma five_elected:
  "\<exists>s. snapshot five (at5 s leader (acked_a 2) (electing 3 {} []) (electing 4 {} []))
       {(3, start_view_message leader), (4, start_view_message leader)} \<and>
     st_commit s = 1 \<and> st_last_executed_op s = 1 \<and> st_log s = st_log (three_ops {2, 1, 0})"
proof -
  let ?p = "\<lambda>j. prepared_message no_hash (promise j)"
  obtain s where s: "snapshot five (at5 s (electing 1 {} [promise 1]) (acked_a 2) (electing 3 {} []) (electing 4 {} []))
      {(1, promise 3), (1, promise 4)}"
    "st_commit s = 1 \<and> st_last_executed_op s = 1 \<and> st_log s = st_log (three_ops {2, 1, 0})"
    using five_votes by blast
  have "snapshot five (at5 s (electing 1 {} [promise 1, ?p 3]) (acked_a 2) (electing 3 {} []) (electing 4 {} [])) {(1, promise 4)}"
    using five_deliver [OF s(1), of 1 "promise 3" "electing 1 {} [promise 1, ?p 3]" "[]"] promise_distinct
      answers_promise(1) [of "electing 1 {} [promise 1]" "?p 3"]
    by (simp add: blank_promises empty_log_small)
  from five_deliver [OF this, of 1 "promise 4" leader "[Broadcast_to_peers (start_view_message leader)]"]
  have "snapshot five (at5 s leader (acked_a 2) (electing 3 {} []) (electing 4 {} []))
      {(3, start_view_message leader), (4, start_view_message leader)}"
    using answers_promise(2) [of "electing 1 {} [promise 1, ?p 3]" "?p 4"]
    by (simp add: blank_promises empty_log_small started_electing five_broadcast)
  with s(2) show ?thesis by blast
qed

abbreviation request_d :: vsr_message where "request_d \<equiv> store_request 8 1 ''a 4''"
abbreviation prepare_d :: vsr_message where "prepare_d \<equiv> store_prepare 1 1 1 8 1 ''a 4''"

definition led :: "int set \<Rightarrow> ReplicaState" where
  "led acks = leader\<lparr>st_op := 1, st_client_table := [(UInt128 0 8, opened 1)], st_log := [(1, store_entry 1 8 1 ''a 4'' acks)]\<rparr>"

lemma answers_request_d: "answers leader request_d (led {1}) [Broadcast_to_peers prepare_d]"
proof -
  have "leader\<lparr>st_op := 1, st_log := [(1, store_entry 1 8 1 ''a 4'' {1})], st_client_table := [(UInt128 0 8, opened 1)]\<rparr> = led {1}"
    by (simp add: led_def)
  then show ?thesis
    using answers_store_request [of leader 8 1 "''a 4''"]
    by (simp add: five_primary om_index_def om_find_def new_client_table_entry_def)
qed

text \<open>A backup of the new view, before and after the first Prepare.\<close>

definition follower :: "int \<Rightarrow> ReplicaState" where
  "follower j = (electing j {} [])\<lparr>st_op := 0, st_commit := 0, st_log := [], st_status := NORMAL\<rparr>"

lemma follower_acks:
  assumes "j \<in> {3, 4}"
  shows "\<exists>s. answers (follower j) (prepared_message no_hash prepare_d) s [Send_message (Some 5) (store_ack 1 1 j)]"
  using answers_store_prepare [of "follower j" 1 1 1 8 1 "''a 4''"] assms
  by (auto simp: follower_def electing_def five_primary)

lemma follower_starts: "answers (electing j {} []) (prepared_message no_hash (start_view_message leader)) (follower j) []"
  using answers_start_view [of "electing j {} []" leader] by (simp add: follower_def)

lemma start_view_fields [simp]: "h_command (msg_header (start_view_message s)) = command_start_view"
  by (simp add: start_view_message_def)

lemma five_disagree:
  "\<exists>s s3 s4 s1. snapshot five (at5 s s1 (acked_a 2) s3 s4) {} \<and>
     (st_commit s = 1 \<and> st_last_executed_op s = 1 \<and> st_log s = st_log (three_ops {2, 1, 0})) \<and>
     st_commit s1 = 1 \<and> st_last_executed_op s1 = 1 \<and> st_log s1 = st_log (led {4, 3, 1})"
proof -
  let ?start = "start_view_message leader"
  obtain s where s: "snapshot five (at5 s leader (acked_a 2) (electing 3 {} []) (electing 4 {} [])) {(3, ?start), (4, ?start)}"
    "st_commit s = 1 \<and> st_last_executed_op s = 1 \<and> st_log s = st_log (three_ops {2, 1, 0})"
    using five_elected by blast
  obtain s3 where s3: "answers (follower 3) (prepared_message no_hash prepare_d) s3 [Send_message (Some 5) (store_ack 1 1 3)]"
    using follower_acks [of 3] by auto
  obtain s4 where s4: "answers (follower 4) (prepared_message no_hash prepare_d) s4 [Send_message (Some 5) (store_ack 1 1 4)]"
    using follower_acks [of 4] by auto
  have differ: "?start \<noteq> prepare_d" "store_ack 1 1 3 \<noteq> store_ack 1 1 4"
    by (auto dest: arg_cong [of _ _ "\<lambda>m. h_command (msg_header m)"])
      (auto simp: store_ack_def dest: arg_cong [of _ _ "\<lambda>m. h_replica (msg_header m)"])
  have "snapshot five (at5 s (led {1}) (acked_a 2) (electing 3 {} []) (electing 4 {} []))
      {(3, ?start), (4, ?start), (3, prepare_d), (4, prepare_d)}"
    using five_request [OF s(1), of 1 request_d "led {1}"] answers_request_d
    by (simp add: store_request_ok five_broadcast)
  from five_deliver [OF this, of 3 ?start "follower 3" "[]"]
  have "snapshot five (at5 s (led {1}) (acked_a 2) (follower 3) (electing 4 {} [])) {(4, ?start), (3, prepare_d), (4, prepare_d)}"
    using follower_starts [of 3] differ by (simp add: empty_log_small)
  from five_deliver [OF this, of 4 ?start "follower 4" "[]"]
  have "snapshot five (at5 s (led {1}) (acked_a 2) (follower 3) (follower 4)) {(3, prepare_d), (4, prepare_d)}"
    using follower_starts [of 4] differ by (simp add: empty_log_small)
  from five_deliver [OF this, of 3 prepare_d s3]
  have "snapshot five (at5 s (led {1}) (acked_a 2) s3 (follower 4)) {(4, prepare_d), (1, store_ack 1 1 3)}"
    using s3 by (simp add: five_broadcast)
  from five_deliver [OF this, of 4 prepare_d s4]
  have "snapshot five (at5 s (led {1}) (acked_a 2) s3 s4) {(1, store_ack 1 1 3), (1, store_ack 1 1 4)}"
    using s4 by (simp add: five_broadcast)
  moreover have "answers (led {1}) (prepared_message no_hash (store_ack 1 1 3)) (led {3, 1}) []"
    using answers_early_ack [of "led {1}" 1 8 1 "''a 4''" "{1}" "[]" 3] by (simp add: led_def five_primary)
  ultimately have early: "snapshot five (at5 s (led {3, 1}) (acked_a 2) s3 s4) {(1, store_ack 1 1 4)}"
    using five_deliver [of _ _ 1 "store_ack 1 1 3" "led {3, 1}" "[]"] differ by (fastforce simp: store_ack_def)
  obtain s1 where s1: "answers (led {3, 1}) (prepared_message no_hash (store_ack 1 1 4)) s1 []"
    "st_commit s1 = 1" "st_last_executed_op s1 = 1" "st_log s1 = st_log (led {4, 3, 1})"
    using answers_last_ack [of "led {3, 1}" 1 8 1 "''a 4''" "{3, 1}" "[]" 4]
    by (auto simp: led_def five_primary om_find_def om_index_def)
  have "snapshot five (at5 s s1 (acked_a 2) s3 s4) {}"
    using five_deliver [OF early, of 1 "store_ack 1 1 4" s1 "[]"] s1(1) by (simp add: store_ack_def)
  with s(2) s1(2-4) show ?thesis by blast
qed

text \<open>
  C8: recovery breaks agreement in a cluster of five. There is a run of five replicas, none of
  which is restarted, after which replicas 0 and 1 have both committed and
  executed an operation under op number 1, and the two operations are of different clients. Replica
  1 acknowledges an operation, falls behind, and recovers from three replicas that do not know of
  the operation: \<open>handle_recovery_response\<close> does not wait for the primary. The primary then commits
  with the acknowledgement of a replica that has forgotten what it acknowledged, and a view
  change among the others loses the operation. The safety theorems of \<open>Cluster_Safety\<close> therefore
  need their assumption that no recovery forgets an operation of its view; in the configured
  cluster of three replicas a recovery never does.
\<close>
theorem recovery_breaks_agreement:
  "numbered five \<and>
   (\<exists>c e e'. (cluster_step (\<lambda>_. replicate 32 0) (members five))\<^sup>*\<^sup>* (cluster_start (\<lambda>_. sample_env 0) five) c \<and>
      om_find (st_log (r_state (cs_replica c 0))) 1 = Some e \<and> om_find (st_log (r_state (cs_replica c 1))) 1 = Some e' \<and>
      st_commit (r_state (cs_replica c 0)) = 1 \<and> st_commit (r_state (cs_replica c 1)) = 1 \<and>
      st_last_executed_op (r_state (cs_replica c 0)) = 1 \<and> st_last_executed_op (r_state (cs_replica c 1)) = 1 \<and>
      le_client_id e \<noteq> le_client_id e')"
proof
  show "numbered five"
    by (auto simp: numbered_def members_def five_def)
  obtain s s3 s4 s1 where s: "snapshot five (at5 s s1 (acked_a 2) s3 s4) {} \<and>
      (st_commit s = 1 \<and> st_last_executed_op s = 1 \<and> st_log s = st_log (three_ops {2, 1, 0})) \<and>
      st_commit s1 = 1 \<and> st_last_executed_op s1 = 1 \<and> st_log s1 = st_log (led {4, 3, 1})"
    using five_disagree by (elim exE)
  obtain c where c: "reach five c" "\<forall>j. r_state (cs_replica c j) = at5 s s1 (acked_a 2) s3 s4 j"
    using snapshot_cluster [OF conjunct1 [OF s]] .
  show "\<exists>c e e'. reach five c \<and>
      om_find (st_log (r_state (cs_replica c 0))) 1 = Some e \<and> om_find (st_log (r_state (cs_replica c 1))) 1 = Some e' \<and>
      st_commit (r_state (cs_replica c 0)) = 1 \<and> st_commit (r_state (cs_replica c 1)) = 1 \<and>
      st_last_executed_op (r_state (cs_replica c 0)) = 1 \<and> st_last_executed_op (r_state (cs_replica c 1)) = 1 \<and>
      le_client_id e \<noteq> le_client_id e'"
    using c s
    by (intro exI [of _ c] exI [of _ "store_entry 0 7 1 ''a 1'' {2, 1, 0}"] exI [of _ "store_entry 1 8 1 ''a 4'' {4, 3, 1}"])
      (simp add: three_ops_def led_def om_find_def)
qed

section \<open>A view change that stops the new primary\<close>

lemma blocked_no_turn:
  assumes "queue_step q q'" and "frozen_since r q" and "r_message_queue r = inbound # rest" and "blocks_forever (r_state r) inbound"
  shows False
  using assms by (cases rule: queue_step.cases) (auto simp: frozen_since_def blocks_forever_iff)

lemma cluster_frozen_step:
  assumes "cluster_step blake3 M c c'" and "frozen_since r (cs_replica c j)" and "r_message_queue r = inbound # rest"
    and "blocks_forever (r_state r) inbound"
  shows "frozen_since r (cs_replica c' j)"
proof -
  have "replica_step (cs_replica c j) r' \<Longrightarrow> frozen_since r r'" for r'
    using blocked_step_frozen [OF _ assms(2-4)] .
  then have timers: "frozen_since r (check_primary_liveness env (cs_replica c j))" "frozen_since r (heartbeat (cs_replica c j))" for env
    by (blast intro: replica_step.intros)+
  have queued: "frozen_since r (enqueue_message conn m (cs_replica c j))" for conn m
    using assms(2) by (auto simp: frozen_since_def enqueue_message_def)
  from assms(1) show ?thesis
  proof cases
    case (turn i r')
    with blocked_no_turn [OF _ assms(2-4)] have "i \<noteq> j" by blast
    with turn assms(2) show ?thesis by (simp add: replica_moves_def)
  qed (use assms(2) timers queued in \<open>auto simp: replica_moves_def\<close>)
qed

lemma cluster_frozen:
  assumes "(cluster_step blake3 M)\<^sup>*\<^sup>* c c'" and "r_message_queue (cs_replica c j) = inbound # rest"
    and "blocks_forever (r_state (cs_replica c j)) inbound"
  shows "frozen_since (cs_replica c j) (cs_replica c' j)"
  using assms(1)
  by (induction rule: rtranclp_induct) (simp add: frozen_since_def, rule cluster_frozen_step [OF _ _ assms(2,3)])

abbreviation server_fresh :: "int \<Rightarrow> ReplicaState" where
  "server_fresh j \<equiv> new_ReplicaState j server_cluster_config"

definition elect :: "int \<Rightarrow> int set \<Rightarrow> vsr_message list \<Rightarrow> ReplicaState" where
  "elect j votes promises = (server_fresh j)\<lparr>st_view := 1, st_status := VIEW_CHANGE,
     st_start_view_change_received := votes, st_do_view_change_received := promises\<rparr>"

lemma elect_simps [simp]:
  "st_status (elect j votes promises) = VIEW_CHANGE" "st_view (elect j votes promises) = 1" "st_id (elect j votes promises) = j"
  "st_start_view_change_received (elect j votes promises) = votes" "st_do_view_change_received (elect j votes promises) = promises"
  "st_commit (elect j votes promises) = 0" "st_last_executed_op (elect j votes promises) = 0"
  "st_op (elect j votes promises) = 0" "st_log (elect j votes promises) = []" "st_last_normal_view (elect j votes promises) = 0"
  "quorum (elect j votes promises) = 2" "get_primary_id_for_view 1 (elect j votes promises) = 1"
  "(elect j votes promises)\<lparr>st_start_view_change_received := votes'\<rparr> = elect j votes' promises"
  "(elect j votes promises)\<lparr>st_do_view_change_received := promises'\<rparr> = elect j votes promises'"
  by (simp_all add: elect_def quorum_eq server_next_primary)

lemma enter_elect: "enter_new_view 1 (server_fresh j) = elect j {j} []"
  by (simp add: elect_def enter_new_view_def new_ReplicaState_def Let_def)

abbreviation pledge :: "int \<Rightarrow> vsr_message" where
  "pledge j \<equiv> do_view_change_message (elect j {} [])"

lemma pledge_elect: "do_view_change_message (elect j (insert i votes) promises) = pledge j"
  by (simp add: do_view_change_message_def)

lemma blank_pledges: "blank_promise (pledge j)" "blank_promise (prepared_message no_hash (pledge j))"
  by (simp_all add: blank_promise_message)

lemma server_sent:
  "sent server_cluster_config 1 [Broadcast_to_peers m] = {(0, m), (2, m)}"
  "sent server_cluster_config 2 [Broadcast_to_peers m] = {(0, m), (1, m)}"
  by (simp_all add: sent_simps server_members insert_Diff_if)

lemma server_elected:
  "\<exists>states. snapshot server_cluster_config states {(1, pledge 0)} \<and> states 1 = started (elect 1 {} [])"
proof -
  have start: "snapshot server_cluster_config (server_fresh(1 := elect 1 {1} [])) {(0, vote 1 1), (2, vote 1 1)}"
    using snapshot_timeout [OF snapshot_start, of 1 server_cluster_config]
    by (simp add: server_members server_primary enter_elect server_sent)
  have joins: "answers (elect j {j} []) (prepared_message no_hash (vote 1 1)) (elect j {} []) [Send_to_peer 1 (pledge j)]"
    if "j \<in> {0, 2}" for j
    using answers_last_vote [of "elect j {j} []" 1 1 1] that by (auto simp: pledge_elect)
  let ?S = server_cluster_config
  have two: "snapshot ?S (server_fresh(1 := elect 1 {1} [], 2 := elect 2 {} []))
      {(0, vote 1 1), (1, vote 1 2), (1, pledge 2)}"
    using snapshot_join [OF start, of 2 "vote 1 1" "elect 2 {} []" "[Send_to_peer 1 (pledge 2)]"] joins [of 2]
    by (auto simp: server_members enter_elect server_sent sent_simps elim: snapshot_packets)
  have three: "snapshot ?S (server_fresh(1 := elect 1 {1} [], 2 := elect 2 {} [], 0 := elect 0 {} []))
      {(1, vote 1 2), (1, pledge 2), (1, pledge 0)}"
    using snapshot_join [OF two, of 0 "vote 1 1" "elect 0 {} []" "[Send_to_peer 1 (pledge 0)]"] joins [of 0]
    by (auto simp: server_members enter_elect server_sent sent_simps elim: snapshot_packets)
  have "answers (elect 1 {1} []) (prepared_message no_hash (vote 1 2)) (elect 1 {} [pledge 1]) []"
    using answers_own_promise(1) [of "elect 1 {1} []" 1 2] by (simp add: pledge_elect blank_pledges)
  moreover have "pledge j \<noteq> vote 1 2" for j
    by (auto dest: arg_cong [of _ _ "\<lambda>m. h_command (msg_header m)"])
  ultimately have four: "snapshot ?S (server_fresh(2 := elect 2 {} [], 0 := elect 0 {} [], 1 := elect 1 {} [pledge 1]))
      {(1, pledge 2), (1, pledge 0)}"
    using snapshot_deliver [OF three, of 1 "vote 1 2" "elect 1 {} [pledge 1]" "[]"]
    by (auto simp: server_members fun_upd_twist sent_def elim: snapshot_packets)
  let ?acts = "[Broadcast_to_peers (start_view_message (started (elect 1 {} [])))]"
  have "answers (elect 1 {} [pledge 1]) (prepared_message no_hash (pledge 2)) (started (elect 1 {} [])) ?acts"
    using answers_promise(2) [of "elect 1 {} [pledge 1]" "prepared_message no_hash (pledge 2)"]
    by (simp add: blank_pledges started_def)
  moreover have "pledge 0 \<noteq> pledge 2"
    by (auto simp: do_view_change_message_def dest: arg_cong [of _ _ "\<lambda>m. h_replica (msg_header m)"])
  ultimately have "snapshot ?S (server_fresh(2 := elect 2 {} [], 0 := elect 0 {} [], 1 := started (elect 1 {} []))) {(1, pledge 0)}"
    using snapshot_deliver [OF four, of 1 "pledge 2" "started (elect 1 {} [])" ?acts]
    by (auto simp: server_members empty_log_small elim: snapshot_packets)
  then show ?thesis
    by (intro exI [of _ "server_fresh(2 := elect 2 {} [], 0 := elect 0 {} [], 1 := started (elect 1 {} []))"]) simp
qed

lemma started_blocked:
  assumes "s = started (elect 1 {} [])"
  shows "st_status s = NORMAL" "is_primary s" "st_view s = 1" "blocks_forever s (received (prepared_message no_hash (pledge 0)))"
proof -
  show *: "st_status s = NORMAL" "is_primary s" "st_view s = 1"
    using assms by (simp_all add: started_def is_primary_def get_primary_id_def) (simp_all add: elect_def)
  then show "blocks_forever s (received (prepared_message no_hash (pledge 0)))"
    by (simp add: blocks_forever_def)
qed

text \<open>
  C11: a view change in which all replicas take part stops the new primary. In the cluster of three
  there is a run after which replica 1 is the NORMAL primary of view 1 and has stopped for good:
  in every continuation, whatever is delivered and whichever timers run, its replicated state
  stays as it is, so it accepts no request and commits nothing, while each of its heartbeats still
  sends Commit messages of view 1 to replicas 0 and 2, which keep them from starting another view. The
  message that stops it is the DoViewChange of the third replica, which arrives after the two
  that are enough.
\<close>
theorem late_promise_halts_primary:
  "\<exists>c. (cluster_step (\<lambda>_. replicate 32 0) (members server_cluster_config))\<^sup>*\<^sup>*
       (cluster_start (\<lambda>_. sample_env 0) server_cluster_config) c \<and>
     st_status (r_state (cs_replica c 1)) = NORMAL \<and> is_primary (r_state (cs_replica c 1)) \<and> st_view (r_state (cs_replica c 1)) = 1 \<and>
     (\<forall>c'. (cluster_step (\<lambda>_. replicate 32 0) (members server_cluster_config))\<^sup>*\<^sup>* c c' \<longrightarrow>
        r_state (cs_replica c' 1) = r_state (cs_replica c 1) \<and>
        (\<forall>j \<in> {0, 2}. (j, message_with (zero_header\<lparr>h_command := command_commit, h_view := 1\<rparr>) []) \<in>#
           new_packets (members server_cluster_config) 1 (cs_replica c' 1) (heartbeat (cs_replica c' 1))))"
proof -
  obtain states where s: "snapshot server_cluster_config states {(1, pledge 0)}" "states 1 = started (elect 1 {} [])"
    using server_elected by blast
  have member: "1 \<in> members server_cluster_config" and small: "length (msg_payload (pledge 0)) \<le> 65408"
    by (simp_all add: server_members empty_log_small)
  obtain c where c: "reach server_cluster_config c" "\<forall>j. r_state (cs_replica c j) = states j"
    "\<forall>i. r_message_queue (cs_replica c i) = (if i = 1 then [received (prepared_message no_hash (pledge 0))] else [])"
    using snapshot_arrival [OF s(1) member _ small] by auto
  note state = started_blocked [of "r_state (cs_replica c 1)"]
  have state': "r_state (cs_replica c 1) = started (elect 1 {} [])"
    using c(2) s(2) by simp
  have "r_state (cs_replica c' 1) = r_state (cs_replica c 1) \<and>
      (\<forall>j \<in> {0, 2}. (j, message_with (zero_header\<lparr>h_command := command_commit, h_view := 1\<rparr>) []) \<in>#
         new_packets (members server_cluster_config) 1 (cs_replica c' 1) (heartbeat (cs_replica c' 1)))"
    if "(cluster_step no_hash (members server_cluster_config))\<^sup>*\<^sup>* c c'" for c'
  proof -
    have same: "r_state (cs_replica c' 1) = r_state (cs_replica c 1)"
      using cluster_frozen [OF that, of 1 "received (prepared_message no_hash (pledge 0))" "[]"] c(3) state(4) [OF state']
      by (simp add: frozen_since_def)
    have "st_commit (r_state (cs_replica c 1)) = 0"
      by (simp add: state' started_def)
    with same state(1-3) [OF state'] show ?thesis
      by (simp add: heartbeat_def schedule_heartbeat_def send_commit_message_if_needed_def new_packets_def server_members
          zero_commit Let_def insert_Diff_if)
  qed
  with c(1) state(1-3) [OF state'] show ?thesis by blast
qed

theorem late_promise_halts_primary_witness:
  "\<exists>c :: cluster. st_view (r_state (cs_replica c 1)) = 1 \<and>
     (2, message_with (zero_header\<lparr>h_command := command_commit, h_view := 1\<rparr>) []) \<in>#
       new_packets (members server_cluster_config) 1 (cs_replica c 1) (heartbeat (cs_replica c 1))"
proof -
  obtain c where c: "st_view (r_state (cs_replica c 1)) = 1"
    "\<forall>c'. (cluster_step (\<lambda>_. replicate 32 0) (members server_cluster_config))\<^sup>*\<^sup>* c c' \<longrightarrow>
        r_state (cs_replica c' 1) = r_state (cs_replica c 1) \<and>
        (\<forall>j \<in> {0, 2}. (j, message_with (zero_header\<lparr>h_command := command_commit, h_view := 1\<rparr>) []) \<in>#
           new_packets (members server_cluster_config) 1 (cs_replica c' 1) (heartbeat (cs_replica c' 1)))"
    using late_promise_halts_primary by blast
  from c(2) [rule_format, OF rtranclp.rtrancl_refl] c(1) show ?thesis by blast
qed

end
