(* ===== verification/Cluster_Restart.thy ===== *)
theory Cluster_Restart
  imports Cluster_Failures
begin

text \<open>
  A replica that crashes and is started again. \<open>server_main.cpp\<close> starts every replica as NORMAL in
  view 0 with an empty log; nothing is kept on disk, and recovery begins only when a later message shows
  a gap. A single restart in the cluster of three is enough to lose a committed operation.
\<close>

section \<open>A restart\<close>

text \<open>The packets on their way to and from the replica stay where they are: they may be lost or still arrive.\<close>

definition restarted :: "environment \<Rightarrow> peer_config list \<Rightarrow> int \<Rightarrow> cluster \<Rightarrow> cluster" where
  "restarted env config j c = c\<lparr>cs_replica := (cs_replica c)(j := run env (new_replica j config))\<rparr>"

abbreviation rebooted :: cluster where
  "rebooted \<equiv> restarted (sample_env 0) server_cluster_config 1 sample_cluster"

abbreviation run_after :: "(int \<Rightarrow> ReplicaState) \<Rightarrow> packet set \<Rightarrow> bool" where
  "run_after \<equiv> snapshot_from rebooted server_cluster_config"

text \<open>The states of the three replicas.\<close>

definition at3 :: "ReplicaState \<Rightarrow> ReplicaState \<Rightarrow> ReplicaState \<Rightarrow> int \<Rightarrow> ReplicaState" where
  "at3 a b c = (\<lambda>j. if j = 0 then a else if j = 1 then b else if j = 2 then c else server_fresh j)"

lemma at3_simps [simp]:
  "at3 a b c 0 = a" "at3 a b c 1 = b" "at3 a b c 2 = c"
  "(at3 a b c)(0 := s) = at3 s b c" "(at3 a b c)(1 := s) = at3 a s c" "(at3 a b c)(2 := s) = at3 a b s"
  by (auto simp: at3_def)

abbreviation committed :: ReplicaState where "committed \<equiv> one_op_done 0 {0, 1}"

lemma after_restart: "run_after (at3 committed (server_fresh 1) (server_fresh 2)) {}"
proof (rule snapshot_now)
  show "r_state (cs_replica rebooted j) = at3 committed (server_fresh 1) (server_fresh 2) j" for j
    using sample_quiet(2) [of j] sample_replicas(2)
    by (simp add: restarted_def at3_def run_def schedule_liveness_check_def schedule_heartbeat_def new_replica_def)
  show "r_message_queue (cs_replica rebooted j) = []" for j
    by (simp add: restarted_def sample_quiet(1) run_def schedule_liveness_check_def schedule_heartbeat_def new_replica_def)
qed simp

section \<open>The others elect the restarted replica\<close>

lemma three_deliver:
  assumes "snapshot_from c0 server_cluster_config states packets" and "answers (states j) (prepared_message no_hash m) s' acts"
    and "(j, m) \<in> packets" and "j \<in> {0, 1, 2}" and "length (msg_payload m) \<le> 65408"
    and "packets' \<subseteq> packets - {(j, m)} \<union> sent server_cluster_config j acts"
  shows "snapshot_from c0 server_cluster_config (states(j := s')) packets'"
  using snapshot_packets [OF snapshot_deliver [OF assms(1) _ assms(3,5,2)] assms(6)] assms(4)
  by (simp add: server_members)

lemma server_sent_message: "sent server_cluster_config j [Send_message c m] = {(0, m), (1, m), (2, m)}"
  by (simp add: sent_simps server_members)

abbreviation chosen :: ReplicaState where "chosen \<equiv> started (elect 1 {} [])"

lemma chosen_simps [simp]:
  "st_status chosen = NORMAL" "st_view chosen = 1" "st_id chosen = 1" "st_log chosen = []" "st_op chosen = 0" "st_commit chosen = 0"
  "st_last_executed_op chosen = 0" "st_client_table chosen = []" "st_f chosen = 1" "is_primary chosen"
  using started_blocked(2) by (simp_all add: started_def) (simp_all add: elect_def)

lemma restarted_elected:
  "run_after (at3 committed chosen (elect 2 {} [])) {(2, start_view_message chosen)}"
proof -
  have own: "answers (elect 1 {1} []) (prepared_message no_hash (vote 1 2)) (elect 1 {} [pledge 1]) []"
    using answers_own_promise(1) [of "elect 1 {1} []" 1 2] by (simp add: pledge_elect blank_pledges)
  have "run_after (at3 committed (server_fresh 1) (elect 2 {2} [])) {(1, vote 1 2)}"
    using snapshot_timeout [OF after_restart, of 2]
    by (auto simp: server_members server_primary enter_elect server_sent elim: snapshot_packets)
  from snapshot_join [OF this, of 1 "vote 1 2" "elect 1 {} [pledge 1]" "[]"] own
  have "run_after (at3 committed (elect 1 {} [pledge 1]) (elect 2 {2} [])) {(2, vote 1 1)}"
    by (auto simp: server_members enter_elect server_sent sent_def [of _ _ "[]"] elim: snapshot_packets)
  from three_deliver [OF this, of 2 "vote 1 1" "elect 2 {} []" "[Send_to_peer 1 (pledge 2)]"]
  have "run_after (at3 committed (elect 1 {} [pledge 1]) (elect 2 {} [])) {(1, pledge 2)}"
    using answers_last_vote [of "elect 2 {2} []" 1 1 1] by (simp add: pledge_elect sent_simps)
  from three_deliver [OF this, of 1 "pledge 2" chosen "[Broadcast_to_peers (start_view_message chosen)]"] show ?thesis
    using answers_promise(2) [of "elect 1 {} [pledge 1]" "prepared_message no_hash (pledge 2)"]
    by (simp add: blank_pledges empty_log_small server_sent started_def)
qed

section \<open>The op number is given out again\<close>

definition ruled :: "int set \<Rightarrow> ReplicaState" where
  "ruled acks = chosen\<lparr>st_op := 1, st_log := [(1, store_entry 1 8 1 ''a 4'' acks)], st_client_table := [(UInt128 0 8, opened 1)]\<rparr>"

lemma restarted_commits:
  "\<exists>s1 s2. run_after (at3 committed s1 s2) {} \<and> st_commit s1 = 1 \<and> st_last_executed_op s1 = 1 \<and> st_log s1 = st_log (ruled {2, 1})"
proof -
  let ?start = "start_view_message chosen" and ?f = "(elect 2 {} [])\<lparr>st_op := 0, st_commit := 0, st_log := [], st_status := NORMAL\<rparr>"
  have "answers (elect 2 {} []) (prepared_message no_hash ?start) ?f []"
    using answers_start_view [of "elect 2 {} []" chosen] by simp
  with three_deliver [OF restarted_elected, of 2 ?start ?f "[]"] have joined: "run_after (at3 committed chosen ?f) {}"
    by (simp add: empty_log_small)
  have "answers chosen request_d (ruled {1}) [Broadcast_to_peers prepare_d]"
    using answers_store_request [of chosen 8 1 "''a 4''"]
    by (simp add: ruled_def om_index_def om_find_def new_client_table_entry_def)
  from snapshot_packets [OF snapshot_request [OF joined, of 1 request_d, simplified, OF _ _ this]]
  have asked: "run_after (at3 committed (ruled {1}) ?f) {(2, prepare_d)}"
    by (simp add: server_members store_request_ok server_sent)
  obtain s2 where "answers ?f (prepared_message no_hash prepare_d) s2 [Send_message (Some 5) (store_ack 1 1 2)]"
    using answers_store_prepare [of ?f 1 1 1 8 1 "''a 4''"]
    by (auto simp: is_primary_def get_primary_id_def elect_def)
  with three_deliver [OF asked, of 2 prepare_d s2]
  have acked: "run_after (at3 committed (ruled {1}) s2) {(1, store_ack 1 1 2)}"
    by (simp add: server_sent_message)
  have "quorum (ruled {1}) = 2" "is_primary (ruled {1})"
    using chosen_simps(9,10) by (simp_all add: ruled_def quorum_eq is_primary_def get_primary_id_def)
  then obtain s1 where s1: "answers (ruled {1}) (prepared_message no_hash (store_ack 1 1 2)) s1 []"
    "st_commit s1 = 1" "st_last_executed_op s1 = 1" "st_log s1 = st_log (ruled {2, 1})"
    using answers_last_ack [of "ruled {1}" 1 8 1 "''a 4''" "{1}" "[]" 2]
    by (auto simp: ruled_def om_find_def om_index_def)
  have "run_after (at3 committed s1 s2) {}"
    using three_deliver [OF acked, of 1 "store_ack 1 1 2" s1 "[]"] s1(1) by (simp add: store_ack_def)
  with s1(2-4) show ?thesis by blast
qed

text \<open>
  C9: one restart loses a committed operation in the configured cluster of three. There is a run of the cluster without
  any recovery after which replicas 0 and 1 have both committed and executed a client's operation under op number 1;
  replica 1 crashes and is started again; and in a continuation in which nothing else fails, replica 1, elected by itself and
  replica 2, commits and executes an operation of another client under op number 1, which replica 0 still counts as committed
  with the first. \<open>server_main.cpp\<close> starts a replica as NORMAL, so a restarted one votes and
  promises without recovering first; the comment in \<open>determine_state_action\<close> counts on a gap in the log to
  start the recovery of a rebooted backup.
\<close>
theorem restart_breaks_agreement:
  "\<exists>c c' e e0 e'. calm_run (\<lambda>_. replicate 32 0) server_cluster_config c \<and>
     om_find (st_log (r_state (cs_replica c 1))) 1 = Some e \<and> st_last_executed_op (r_state (cs_replica c 1)) = 1 \<and>
     (cluster_step (\<lambda>_. replicate 32 0) (members server_cluster_config))\<^sup>*\<^sup>* (restarted (sample_env 0) server_cluster_config 1 c) c' \<and>
     om_find (st_log (r_state (cs_replica c' 0))) 1 = Some e0 \<and> strip_acks e0 = strip_acks e \<and>
     om_find (st_log (r_state (cs_replica c' 1))) 1 = Some e' \<and>
     st_last_executed_op (r_state (cs_replica c' 0)) = 1 \<and> st_last_executed_op (r_state (cs_replica c' 1)) = 1 \<and>
     st_commit (r_state (cs_replica c' 0)) = 1 \<and> st_commit (r_state (cs_replica c' 1)) = 1 \<and>
     le_client_id e \<noteq> le_client_id e'"
proof -
  obtain s1 s2 where s: "run_after (at3 committed s1 s2) {}" "st_commit s1 = 1" "st_last_executed_op s1 = 1" "st_log s1 = st_log (ruled {2, 1})"
    using restarted_commits by blast
  obtain c' where c': "reach_from rebooted server_cluster_config c'" "\<forall>j. r_state (cs_replica c' j) = at3 committed s1 s2 j"
    by (rule snapshot_cluster [OF s(1)])
  let ?e' = "store_entry 1 8 1 ''a 4'' {2, 1}"
  have before: "om_find (st_log (r_state (cs_replica sample_cluster 1))) 1 = Some (sample_op {})"
    "st_last_executed_op (r_state (cs_replica sample_cluster 1)) = 1"
    by (simp_all add: sample_replicas om_find_def one_op_done_def one_op_def)
  have zero: "om_find (st_log (r_state (cs_replica c' 0))) 1 = Some (sample_op {0, 1})"
    "st_last_executed_op (r_state (cs_replica c' 0)) = 1" "st_commit (r_state (cs_replica c' 0)) = 1"
    using c'(2) by (simp_all add: om_find_def one_op_done_def one_op_def)
  have one: "om_find (st_log (r_state (cs_replica c' 1))) 1 = Some ?e'"
    "st_last_executed_op (r_state (cs_replica c' 1)) = 1" "st_commit (r_state (cs_replica c' 1)) = 1"
    using c'(2) s(2-4) by (simp_all add: ruled_def om_find_def)
  have "strip_acks (sample_op {0, 1}) = strip_acks (sample_op {})" "le_client_id (sample_op {}) \<noteq> le_client_id ?e'"
    by (simp_all add: sample_op_def strip_acks_def)
  with before zero one c'(1) sample_run show ?thesis by blast
qed

end
