(* ===== verification/Cluster_Stale.thy ===== *)
theory Cluster_Stale
  imports Cluster_Restart
begin

text \<open>
  Recovery and the contents of the store. \<open>handle_recovery_response\<close> sets the number of executed operations back to 0
  and replays the adopted log from there, but keeps the key-value contents it had. A run of three replicas shows that
  two replicas that have executed the same operations may then hold different contents.
\<close>

section \<open>The run up to the recovery\<close>

text \<open>The example run, and then replica 2 logs the operation that the other two have executed.\<close>

lemma packet_waits:
  "p \<in># cs_network c \<Longrightarrow> p \<in># cs_network (handled config j c)" "p \<in># cs_network c \<Longrightarrow> p \<in># cs_network (beaten config j c)"
  "p \<in># cs_network c \<Longrightarrow> p \<noteq> (j, m) \<Longrightarrow> p \<in># cs_network (arrive hash j m c)"
  by (simp_all add: handled_def beaten_def replica_moves_def in_diff_count split: list.splits)

lemma sample_prepare_waits: "(2, sample_prepare) \<in># cs_network sample_cluster"
  using cluster1_prepare(2) by (simp add: sample_cluster_def cluster3_def cluster2_def packet_waits del: arrive_replicas)

lemma sample_prepare_eq: "sample_prepare = store_prepare 0 0 1 7 1 ''k v''"
  by (simp add: sample_prepare_def store_prepare_def) (simp add: zero_header_def)

abbreviation behind :: "ReplicaState" where "behind \<equiv> one_op 2 {} 0"

abbreviation run_on :: "(int \<Rightarrow> ReplicaState) \<Rightarrow> packet set \<Rightarrow> bool" where
  "run_on \<equiv> snapshot_from sample_cluster server_cluster_config"

lemma sample_snapshot: "run_on (at3 committed (one_op_done 1 {}) (server_fresh 2)) {(2, sample_prepare)}"
proof (rule snapshot_now)
  show "r_state (cs_replica sample_cluster j) = at3 committed (one_op_done 1 {}) (server_fresh 2) j" for j
    using sample_quiet(2) [of j] by (simp add: sample_replicas at3_def)
qed (simp_all add: sample_quiet sample_prepare_waits)

lemma backup_logs: "run_on (at3 committed (one_op_done 1 {}) behind) {}"
proof -
  have "(server_fresh 2)\<lparr>st_op := 1, st_log := [(1, store_entry 0 7 1 ''k v'' {})], st_client_table := [(UInt128 0 7, opened 1)]\<rparr> = behind"
    by (rule ReplicaState.equality) (simp_all add: one_op_def store_entry_def sample_op_def)
  then have "answers (server_fresh 2) (prepared_message no_hash sample_prepare) behind [Send_message (Some 5) (store_ack 0 1 2)]"
    using answers_store_prepare [of "server_fresh 2" 1 0 0 7 1 "''k v''"]
    by (simp add: sample_prepare_eq server_primary)
  then show ?thesis
    using three_deliver [OF sample_snapshot, of 2 sample_prepare behind]
    by (simp add: sample_prepare_eq)
qed

definition later_request :: vsr_message where
  "later_request = message_with (zero_header\<lparr>h_command := command_request, h_client := UInt128 0 8, h_request := 1, h_view := 1\<rparr>) []"

definition recovering :: "uint128_t \<Rightarrow> vsr_message list \<Rightarrow> ReplicaState" where
  "recovering nonce ms = (one_op_done 1 {})\<lparr>st_status := RECOVERY, st_recovery_nonce := nonce, st_recovery_responses := ms\<rparr>"

lemma recovering_fields [simp]:
  "st_status (recovering nonce ms) = RECOVERY" "st_view (recovering nonce ms) = 0" "quorum (recovering nonce ms) = 2"
  "st_recovery_nonce (recovering nonce ms) = nonce" "st_recovery_responses (recovering nonce ms) = ms"
  "(recovering nonce ms)\<lparr>st_recovery_responses := ms'\<rparr> = recovering nonce ms'"
  by (simp_all add: recovering_def one_op_done_def one_op_def server_primary)

lemma backup_recovers:
  "\<exists>nonce. run_on (at3 committed (recovering nonce []) behind) {(0, recovery_message 1 nonce), (2, recovery_message 1 nonce)}"
proof -
  have "client_message later_request"
    by (simp add: client_message_def message_ok_def wf_header_def later_request_def zero_header_def)
  moreover have "h_command (msg_header later_request) = command_request" "h_view (msg_header later_request) = 1"
    by (simp_all add: later_request_def)
  moreover have "st_status (one_op_done 1 {}) = NORMAL" "st_view (one_op_done 1 {}) = 0" "\<not> is_primary (one_op_done 1 {})"
    "st_id (one_op_done 1 {}) = 1"
    by (simp_all add: one_op_done_def one_op_def server_primary)
  ultimately show ?thesis
    using snapshot_stray [OF backup_logs, of 1 later_request] unfolding recovering_def
    by (auto simp: server_members server_sent elim: snapshot_packets)
qed

section \<open>The answers\<close>

abbreviation answer :: "ReplicaState \<Rightarrow> uint128_t \<Rightarrow> vsr_message" where
  "answer s nonce \<equiv> recovery_response_message s nonce"

lemma answer_read:
  assumes "s \<in> {committed, behind}"
  shows "recovery_response_deserialize (msg_payload (answer s nonce)) \<lparr>rs_nonce = uint128_zero, rs_log = []\<rparr> =
     (True, \<lparr>rs_nonce = nonce, rs_log = [(1, sample_op {})]\<rparr>)"
proof -
  have "wf_log (st_log s)"
    using assms by (auto simp: one_op_done_def one_op_def wf_log_def om_ok_def wf_entry_def sample_op_def bytes_of_string_def)
  then show ?thesis
    using assms by (auto simp: recovery_response_payload_of one_op_done_def one_op_def strip_log_def strip_acks_def sample_op_def)
qed

lemma answer_small: "s \<in> {committed, behind} \<Longrightarrow> length (msg_payload (answer s nonce)) \<le> 65408"
  by (auto simp: recovery_response_message_def recovery_response_serialize_def
      write_log_to_buffer_def write_log_entry_def write_pod_def codec_simps one_op_done_def one_op_def sample_op_def bytes_of_string_def)

lemma behind_fields: "st_view behind = 0" "st_op behind = 1" "st_commit behind = 0" "st_view committed = 0" "st_op committed = 1"
  by (simp_all add: one_op_done_def one_op_def)

lemma answer_fields:
  "s \<in> {committed, behind} \<Longrightarrow> h_view (msg_header (answer s nonce)) = 0 \<and> h_op (msg_header (answer s nonce)) = 1"
  "h_command (msg_header (answer s nonce)) = command_recovery_response" "h_commit (msg_header (answer behind nonce)) = 0"
  by (auto simp: one_op_done_def one_op_def) (simp add: recovery_response_message_def)

lemma first_answer:
  "answers (recovering nonce []) (prepared_message no_hash (answer behind nonce))
     (recovering nonce [prepared_message no_hash (answer behind nonce)]) []"
  by (auto simp: answers_def is_stale_def can_process_def check_can_process_recovery_response_def dispatch_def
      handle_recovery_response_def answer_read answer_fields Let_def)

text \<open>The answer that came first is adopted: the other one has the same view and op number, and its commit number is not looked at.\<close>

definition replayed :: "ReplicaState" where
  "replayed = (one_op_done 1 {})\<lparr>st_op := 1, st_commit := 0, st_log := [(1, sample_op {})], st_last_executed_op := 0,
     st_client_table := fold raise_request_number [(1, sample_op {})] [],
     st_recovery_nonce := uint128_zero, st_recovery_responses := []\<rparr>"

lemma second_answer:
  "answers (recovering nonce [prepared_message no_hash (answer behind nonce)]) (prepared_message no_hash (answer committed nonce)) replayed []"
proof -
  let ?ms = "[prepared_message no_hash (answer behind nonce), prepared_message no_hash (answer committed nonce)]"
  have "(recovering nonce ?ms)\<lparr>st_view := 0, st_op := 1, st_commit := 0, st_log := [(1, sample_op {})], st_last_executed_op := 0,
      st_status := NORMAL, st_client_table := fold raise_request_number [(1, sample_op {})] [],
      st_recovery_nonce := uint128_zero, st_recovery_responses := []\<rparr> = replayed"
    by (intro ReplicaState.equality) (simp_all add: replayed_def recovering_def one_op_done_def one_op_def)
  then have adopt: "r_state (adopt_recovery (sample_env 0) (prepared_message no_hash (answer behind nonce)) q) = replayed \<and>
      r_outbox (adopt_recovery (sample_env 0) (prepared_message no_hash (answer behind nonce)) q) = r_outbox q"
    if "r_state q = recovering nonce ?ms" for q
    using that by (simp add: adopt_recovery_def answer_read answer_fields behind_fields execute_commited_ops_exit Let_def)
  show ?thesis
    by (auto simp: answers_def is_stale_def can_process_def check_can_process_recovery_response_def dispatch_def
        handle_recovery_response_def answer_read answer_fields behind_fields better_response_def adopt Let_def)
qed

lemma backup_recovered: "run_on (at3 committed replayed behind) {}"
proof -
  obtain nonce where start: "run_on (at3 committed (recovering nonce []) behind)
      {(0, recovery_message 1 nonce), (2, recovery_message 1 nonce)}"
    using backup_recovers by blast
  have asks: "answers s (prepared_message no_hash (recovery_message 1 nonce)) s [Send_to_peer 1 (answer s nonce)]"
    if "s \<in> {committed, behind}" for s
    using that by (intro answers_recovery) (auto simp: one_op_done_def one_op_def)
  have differ: "answer behind nonce \<noteq> answer committed nonce"
    by (auto dest: arg_cong [of _ _ "\<lambda>m. h_commit (msg_header m)"] simp: one_op_done_def one_op_def)
  have "run_on (at3 committed (recovering nonce []) behind) {(0, recovery_message 1 nonce), (1, answer behind nonce)}"
    using three_deliver [OF start, of 2 "recovery_message 1 nonce" behind] asks [of behind]
    by (simp add: recovery_message_small sent_simps)
  from snapshot_packets [OF snapshot_deliver [OF this, of 0 "recovery_message 1 nonce" committed]] asks [of committed]
  have "run_on (at3 committed (recovering nonce []) behind) {(1, answer behind nonce), (1, answer committed nonce)}"
    by (simp add: recovery_message_small sent_simps server_members)
  from three_deliver [OF this, of 1 "answer behind nonce"] first_answer [of nonce] differ
  have "run_on (at3 committed (recovering nonce [prepared_message no_hash (answer behind nonce)]) behind) {(1, answer committed nonce)}"
    by (simp add: answer_small)
  from three_deliver [OF this, of 1 "answer committed nonce" replayed "[]"] second_answer [of nonce] show ?thesis
    by (simp add: answer_small)
qed

section \<open>Different contents\<close>

text \<open>
  C10: a recovery leaves old contents behind. In the configured cluster of three there is a run, without restarts, after which
  replicas 1 and 2 are NORMAL in the same view with the same log and the same commit number and have both executed
  nothing, as far as they know, and yet replica 1 still holds the value of an operation and replica 2 holds nothing. Replica 1 had
  executed the operation and recovered with an answer in which it was not yet committed:
  \<open>handle_recovery_response\<close> resets the count of executed operations but not the store, and of two answers with the same view
  and op number it takes the first, whatever their commit numbers. Agreement of the contents therefore holds
  for runs without recovery only.
\<close>
theorem recovery_keeps_old_contents:
  "\<exists>envs c. (cluster_step (\<lambda>_. replicate 32 0) (members server_cluster_config))\<^sup>*\<^sup>*
       (cluster_start envs server_cluster_config) c \<and>
     st_status (r_state (cs_replica c 1)) = NORMAL \<and> st_status (r_state (cs_replica c 2)) = NORMAL \<and>
     st_view (r_state (cs_replica c 1)) = st_view (r_state (cs_replica c 2)) \<and>
     st_log (r_state (cs_replica c 1)) = st_log (r_state (cs_replica c 2)) \<and>
     st_commit (r_state (cs_replica c 1)) = st_commit (r_state (cs_replica c 2)) \<and>
     st_last_executed_op (r_state (cs_replica c 1)) = 0 \<and> st_last_executed_op (r_state (cs_replica c 2)) = 0 \<and>
     st_state_machine (r_state (cs_replica c 1)) = [''k'' \<mapsto> ''v''] \<and> st_state_machine (r_state (cs_replica c 2)) = Map.empty"
proof -
  obtain c where c: "reach_from sample_cluster server_cluster_config c" "\<forall>j. r_state (cs_replica c j) = at3 committed replayed behind j"
    by (rule snapshot_cluster [OF backup_recovered])
  obtain envs where "reach_from (cluster_start envs server_cluster_config) server_cluster_config sample_cluster"
    using calm_run_reached [OF sample_run] by blast
  then have reach: "reach_from (cluster_start envs server_cluster_config) server_cluster_config c"
    using c(1) by (rule rtranclp_trans)
  have "st_status replayed = NORMAL \<and> st_view replayed = 0 \<and> st_log replayed = [(1, sample_op {})] \<and> st_commit replayed = 0 \<and>
      st_last_executed_op replayed = 0" "st_state_machine replayed = [''k'' \<mapsto> ''v'']"
    "st_status behind = NORMAL \<and> st_view behind = 0 \<and> st_log behind = [(1, sample_op {})] \<and> st_commit behind = 0 \<and>
      st_last_executed_op behind = 0" "st_state_machine behind = Map.empty"
    by (simp_all add: replayed_def one_op_done_def one_op_def)
  with reach c(2) show ?thesis
    by (intro exI [of _ envs] exI [of _ c]) simp
qed

end
