(* ===== verification/Replica_Divergence.thy ===== *)
theory Replica_Divergence
  imports Replica_Liveness
begin

text \<open>
  Whether processing the queue returns. The one loop of the replica that may run for ever is the loop of
  \<open>handle_start_view\<close> that acknowledges adopted operations; here it is a partial function, without the bound
  on its rounds that \<open>retroactive_loop\<close> has, and with it the handler, the dispatch and the two
  loops of \<open>process_message_queue\<close>: \<open>None\<close> means that the call does not return. The lemmas say when the bounded
  and the partial definitions agree.
\<close>

section \<open>The loops without a bound\<close>

partial_function (option) retroactive_acks :: "u64 \<Rightarrow> int \<Rightarrow> replica \<Rightarrow> replica option" where
  "retroactive_acks op_num primary_id r =
     (if op_num \<le> st_op (r_state r) then
        retroactive_acks (op_num + 1) primary_id
          (if om_find (st_log (r_state r)) op_num \<noteq> None
           then emit (Send_to_peer primary_id (prepare_ok_message (r_state r) op_num)) r
           else r)
      else Some r)"

definition handle_start_view_opt :: "environment \<Rightarrow> inbound_message \<Rightarrow> replica \<Rightarrow> replica option" where
  "handle_start_view_opt env inbound r =
     (let h = in_header inbound
      in case start_view_deserialize (in_payload inbound) \<lparr>sv_log = []\<rparr> of
           (False, _) \<Rightarrow> Some r
         | (True, sv_payload) \<Rightarrow>
             let s = (r_state r)\<lparr>st_view := h_view h, st_op := h_op h, st_commit := h_commit h,
                       st_log := sv_log sv_payload, st_status := NORMAL\<rparr>;
                 s1 = s\<lparr>st_client_table := fold raise_request_number (st_log s) (st_client_table s)\<rparr>;
                 r2 = execute_commited_ops (r\<lparr>r_state := s1, r_last_primary_contact := env_now env\<rparr>)
             in retroactive_acks (h_commit h + 1) (get_primary_id (r_state r2)) r2)"

definition dispatch_opt :: "environment \<Rightarrow> inbound_message \<Rightarrow> replica \<Rightarrow> replica option" where
  "dispatch_opt env inbound r =
     (if h_command (in_header inbound) = command_start_view then handle_start_view_opt env inbound r
      else Some (dispatch env inbound r))"

partial_function (option) drain_queue_opt ::
    "(nat \<Rightarrow> environment) \<Rightarrow> nat \<Rightarrow> replica \<Rightarrow> bool \<Rightarrow> (nat \<times> replica \<times> bool) option" where
  "drain_queue_opt envs i r processed =
     (case r_message_queue r of
        [] \<Rightarrow> Some (i, r, processed)
      | inbound # rest \<Rightarrow>
          if is_stale (r_state r) (in_message inbound)
          then drain_queue_opt envs i (r\<lparr>r_message_queue := rest\<rparr>) True
          else if can_process (r_state r) inbound
          then Option.bind (dispatch_opt (envs i) inbound (r\<lparr>r_message_queue := rest\<rparr>))
                 (\<lambda>r1. drain_queue_opt envs (Suc i) r1 True)
          else Some (i, r, processed))"

partial_function (option) process_loop_opt :: "(nat \<Rightarrow> environment) \<Rightarrow> nat \<Rightarrow> replica \<Rightarrow> replica option" where
  "process_loop_opt envs i r =
     Option.bind (drain_queue_opt envs i r False) (\<lambda>(i1, r1, processed_in_pass).
       if processed_in_pass then process_loop_opt envs (Suc i1) (resolve_stuck (envs i1) r1)
       else Some (resolve_stuck (envs i1) r1))"

definition process_message_queue_opt :: "(nat \<Rightarrow> environment) \<Rightarrow> replica \<Rightarrow> replica option" where
  "process_message_queue_opt envs r = process_loop_opt envs 0 r"

section \<open>When the handler returns\<close>

lemma retroactive_acks_loop:
  assumes "st_op (r_state r) \<noteq> - 1" and "unat (st_op (r_state r)) < unat op + n"
  shows "retroactive_acks op p r = Some (retroactive_loop n op p r)"
  using assms
proof (induction n arbitrary: op r)
  case 0
  then show ?case by (simp add: retroactive_acks.simps [of op] word_le_nat_alt)
next
  case (Suc n)
  show ?case
  proof (cases "op \<le> st_op (r_state r)")
    case True
    have "st_op (r_state r) < - 1"
      using Suc.prems(1) by (simp only: word_order.not_eq_extremum)
    then have "unat (op + 1) = Suc (unat op)"
      by (rule unat_Suc_less [OF le_less_trans [OF True]])
    with True Suc.prems show ?thesis
      by (simp add: retroactive_acks.simps [of op] retroactive_loop.simps(2) Suc.IH)
  qed (simp add: retroactive_acks.simps [of op] retroactive_loop.simps(2))
qed

lemma retroactive_acks_returns: "retroactive_acks op p r = Some r' \<Longrightarrow> st_op (r_state r) \<noteq> - 1"
proof (erule retroactive_acks.raw_induct [where P = "\<lambda>op p r r'. st_op (r_state r) \<noteq> - 1", rotated])
  fix acks :: "u64 \<Rightarrow> int \<Rightarrow> replica \<Rightarrow> replica option" and op :: u64 and p :: int and r r' :: replica
  let ?r = "if om_find (st_log (r_state r)) op \<noteq> None
      then emit (Send_to_peer p (prepare_ok_message (r_state r) op)) r else r"
  assume IH: "\<And>op p r r'. acks op p r = Some r' \<Longrightarrow> st_op (r_state r) \<noteq> - 1"
    and body: "(if op \<le> st_op (r_state r) then acks (op + 1) p ?r else Some r) = Some r'"
  show "st_op (r_state r) \<noteq> - 1"
  proof (cases "op \<le> st_op (r_state r)")
    case True
    with body IH [of "op + 1" p ?r r'] show ?thesis by (auto split: if_splits)
  next
    case False
    then show ?thesis by auto
  qed
qed

lemma handle_start_view_opt_eq:
  "handle_start_view_opt env inbound r =
     (if fst (start_view_deserialize (in_payload inbound) \<lparr>sv_log = []\<rparr>) \<and> h_op (in_header inbound) = - 1 then None
      else Some (handle_start_view env inbound r))"
proof -
  obtain ok sv where d: "start_view_deserialize (in_payload inbound) \<lparr>sv_log = []\<rparr> = (ok, sv)"
    by fastforce
  have diverges: "st_op (r_state q) = - 1 \<Longrightarrow> retroactive_acks op p q = None" for op p q
    using retroactive_acks_returns by (cases "retroactive_acks op p q") auto
  show ?thesis
    by (cases ok)
      (auto simp: handle_start_view_opt_def handle_start_view_def d Let_def diverges intro: retroactive_acks_loop)
qed

section \<open>When processing the queue returns\<close>

definition ends :: "inbound_message \<Rightarrow> bool" where
  "ends inbound \<longleftrightarrow> (h_command (in_header inbound) = command_start_view \<longrightarrow> h_op (in_header inbound) \<noteq> - 1)"

lemma dispatch_opt_ends: "ends inbound \<Longrightarrow> dispatch_opt env inbound r = Some (dispatch env inbound r)"
  by (auto simp: dispatch_opt_def ends_def handle_start_view_opt_eq dispatch_def)

lemma drain_queue_opt_ends:
  "\<forall>inbound \<in> set (r_message_queue r). ends inbound \<Longrightarrow> drain_queue_opt envs i r p = Some (drain_queue envs i r p)"
proof (induction envs i r p rule: drain_queue.induct)
  case (1 envs i r p)
  then show ?case
    by (subst drain_queue_opt.simps, subst drain_queue.simps)
      (auto simp: dispatch_opt_ends split: list.splits)
qed

lemma drain_queue_subset:
  "drain_queue envs i r p = (i', r', p') \<Longrightarrow> set (r_message_queue r') \<subseteq> set (r_message_queue r)"
proof (induction envs i r p rule: drain_queue.induct)
  case (1 envs i r p)
  then show ?case
    by (subst (asm) (3) drain_queue.simps) (fastforce split: list.splits if_splits)
qed

lemma resolve_stuck_subset: "set (r_message_queue (resolve_stuck env r)) \<subseteq> set (r_message_queue r)"
  by (auto simp: resolve_stuck_def initiate_view_change_def Let_def split: list.splits StateAction.splits)

lemma process_loop_opt_ends:
  "\<forall>inbound \<in> set (r_message_queue r). ends inbound \<Longrightarrow> process_loop_opt envs i r = Some (process_loop envs i r)"
proof (induction envs i r rule: process_loop.induct)
  case (1 envs i r)
  obtain i1 r1 p where d: "drain_queue envs i r False = (i1, r1, p)"
    by (metis prod.exhaust)
  have "\<forall>inbound \<in> set (r_message_queue (resolve_stuck (envs i1) r1)). ends inbound"
    using "1.prems" drain_queue_subset [OF d] resolve_stuck_subset [of "envs i1" r1] by blast
  with "1.IH" [OF d [symmetric] refl] d drain_queue_opt_ends [OF "1.prems"] show ?case
    by (simp add: process_loop_opt.simps [of envs i r] process_loop.simps [of envs i r])
qed

text \<open>
  C27: processing the queue returns unless a StartView in it carries the largest op number. If no queued StartView has op
  number \<open>2 ^ 64 - 1\<close>, a run of \<open>process_message_queue\<close>, with no bound on the loop of \<open>handle_start_view\<close> (the commit
  loop, the only other one with a bound, leaves by its own exit: \<open>advance_loop_stops\<close>), comes to an end,
  and it ends in one of three ways: the queue is empty; its head is neither stale nor processable, and if the replica
  is NORMAL it has also decided that this calls for no action; or the replica, NORMAL and stuck on a view
  change message of the next view, has just entered that view. On the other hand, a replica that gets to a readable StartView
  with that op number never returns from it.
\<close>
theorem process_queue_returns:
  fixes envs :: "nat \<Rightarrow> environment" and r :: replica
  shows "((\<forall>inbound \<in> set (r_message_queue r). h_command (in_header inbound) = command_start_view \<longrightarrow>
        h_op (in_header inbound) \<noteq> - 1) \<longrightarrow>
     (\<exists>r'. process_message_queue_opt envs r = Some r' \<and>
       (r_message_queue r' = [] \<or>
        (head_blocked r' \<and> (st_status (r_state r') \<noteq> NORMAL \<or>
           determine_state_action (r_state r') (in_message (hd (r_message_queue r'))) = PROCESS_NORMALLY)) \<or>
        (\<exists>q. head_blocked q \<and> st_status (r_state q) = NORMAL \<and>
           determine_state_action (r_state q) (in_message (hd (r_message_queue q))) = INITIATE_VIEW_CHANGE \<and>
           r' = initiate_view_change q)))) \<and>
    (\<forall>inbound rest. r_message_queue r = inbound # rest \<longrightarrow> h_command (in_header inbound) = command_start_view \<longrightarrow>
       can_process (r_state r) inbound \<longrightarrow> fst (start_view_deserialize (in_payload inbound) \<lparr>sv_log = []\<rparr>) \<longrightarrow>
       h_op (in_header inbound) = - 1 \<longrightarrow> process_message_queue_opt envs r = None)"
proof (intro conjI impI allI)
  assume "\<forall>inbound \<in> set (r_message_queue r). h_command (in_header inbound) = command_start_view \<longrightarrow> h_op (in_header inbound) \<noteq> - 1"
  then have "process_message_queue_opt envs r = Some (process_message_queue envs r)"
    by (simp add: process_message_queue_opt_def process_message_queue_def process_loop_opt_ends ends_def)
  with process_queue_outcome [of envs r]
  show "\<exists>r'. process_message_queue_opt envs r = Some r' \<and>
       (r_message_queue r' = [] \<or>
        (head_blocked r' \<and> (st_status (r_state r') \<noteq> NORMAL \<or>
           determine_state_action (r_state r') (in_message (hd (r_message_queue r'))) = PROCESS_NORMALLY)) \<or>
        (\<exists>q. head_blocked q \<and> st_status (r_state q) = NORMAL \<and>
           determine_state_action (r_state q) (in_message (hd (r_message_queue q))) = INITIATE_VIEW_CHANGE \<and>
           r' = initiate_view_change q))"
    by blast
next
  fix inbound rest
  assume a: "r_message_queue r = inbound # rest" "h_command (in_header inbound) = command_start_view"
    "can_process (r_state r) inbound" "fst (start_view_deserialize (in_payload inbound) \<lparr>sv_log = []\<rparr>)"
    "h_op (in_header inbound) = - 1"
  have "\<not> is_stale (r_state r) (in_message inbound)"
    using a(2,3) by (auto simp: is_stale_def can_process_def check_can_process_start_view_def Let_def split: if_splits)
  with a have "drain_queue_opt envs 0 r False = None"
    by (subst drain_queue_opt.simps) (simp add: dispatch_opt_def handle_start_view_opt_eq)
  then show "process_message_queue_opt envs r = None"
    by (simp add: process_message_queue_opt_def process_loop_opt.simps [of envs 0 r])
qed

text \<open>A replica in a view change with one StartView in its queue: it returns for op number 0, and does not for the last.\<close>

definition lone_start_view :: "u64 \<Rightarrow> replica" where
  "lone_start_view op = (set_state (\<lambda>s. s\<lparr>st_view := 1, st_status := VIEW_CHANGE\<rparr>) (new_replica 2 server_cluster_config))
     \<lparr>r_message_queue := [\<lparr>in_connection = Some 4, in_message = message_with (zero_header\<lparr>h_command := command_start_view,
       h_view := 1, h_replica := 1, h_op := op\<rparr>) (start_view_serialize \<lparr>sv_log = []\<rparr>)\<rparr>]\<rparr>"

theorem process_queue_returns_witness:
  "(\<exists>r'. process_message_queue_opt (\<lambda>_. sample_env 0) (lone_start_view 0) = Some r') \<and>
   process_message_queue_opt (\<lambda>_. sample_env 0) (lone_start_view (- 1)) = None"
proof
  show "\<exists>r'. process_message_queue_opt (\<lambda>_. sample_env 0) (lone_start_view 0) = Some r'"
    using process_queue_returns [THEN conjunct1, rule_format, of "lone_start_view 0" "\<lambda>_. sample_env 0"]
    by (auto simp: lone_start_view_def)
  have "start_view_deserialize (start_view_serialize \<lparr>sv_log = []\<rparr>) \<lparr>sv_log = []\<rparr> = (True, \<lparr>sv_log = []\<rparr>)"
    using start_view_roundtrip [of "\<lparr>sv_log = []\<rparr>" "\<lparr>sv_log = []\<rparr>"] by (simp add: wf_log_def om_ok_def strip_log_def)
  moreover have "get_primary_id_for_view 1 (r_state (lone_start_view (- 1))) = 1"
    by (simp add: lone_start_view_def get_primary_id_for_view_eq new_replica_def new_ReplicaState_def server_cluster_config_def)
  ultimately show "process_message_queue_opt (\<lambda>_. sample_env 0) (lone_start_view (- 1)) = None"
    by (intro process_queue_returns [THEN conjunct2, rule_format,
          where inbound = "hd (r_message_queue (lone_start_view (- 1)))" and rest = "[]"])
      (simp_all add: lone_start_view_def message_with_def can_process_def check_can_process_start_view_def Let_def)
qed

end
