(* ===== verification/Tcp_Client.thy ===== *)
theory Tcp_Client
  imports Tcp_Connection
begin

text \<open>
  The client's connection to one replica, \<open>src/common/tcp_client.cpp\<close>. Tasks posted to the event
  loop and requests submitted to it are recorded in order in \<open>tcl_calls\<close>, the user's callbacks too;
  \<open>connect_task\<close>, \<open>write_task\<close> and the \<open>done\<close> functions are the bodies the loop runs later.
  A connection is identified by its socket. \<open>None\<close> is the dereference of a null \<open>connection_\<close>: the
  callback of a read uses that member, which may have been reset since the read was submitted.
\<close>

datatype client_status = CL_DISCONNECTED | CL_CONNECTING | CL_CONNECTED

datatype client_call =
    Post_connect
  | Post_write "byte list"
  | Cl_submit_connect int string int
  | Cl_submit_read int
  | Cl_submit_write int "byte list"
  | Cl_close int
  | Post_reconnect nat
  | On_connect int
  | On_connect_failed
  | On_disconnect "int option"
  | On_message "byte list"

record TcpClient =
  tcl_host :: string
  tcl_port :: int
  tcl_connection :: "int option"
  tcl_state :: client_status
  tcl_calls :: "client_call list"

definition new_TcpClient :: "string \<Rightarrow> int \<Rightarrow> TcpClient" where
  "new_TcpClient host port = \<lparr>tcl_host = host, tcl_port = port, tcl_connection = None,
     tcl_state = CL_DISCONNECTED, tcl_calls = []\<rparr>"

definition cl_call :: "client_call \<Rightarrow> TcpClient \<Rightarrow> TcpClient" where
  "cl_call a t = t\<lparr>tcl_calls := tcl_calls t @ [a]\<rparr>"

definition is_connected :: "TcpClient \<Rightarrow> bool" where
  "is_connected t \<longleftrightarrow> tcl_state t = CL_CONNECTED"

definition cl_schedule_reconnect :: "TcpClient \<Rightarrow> TcpClient" where
  "cl_schedule_reconnect t = cl_call (Post_reconnect 5) t"

definition connect :: "TcpClient \<Rightarrow> TcpClient" where
  "connect t =
     (if tcl_state t \<noteq> CL_DISCONNECTED then t
      else cl_call Post_connect (t\<lparr>tcl_state := CL_CONNECTING\<rparr>))"

definition connect_task :: "int \<Rightarrow> TcpClient \<Rightarrow> TcpClient" where
  "connect_task sock t =
     (if sock < 0
      then cl_schedule_reconnect ((cl_call On_connect_failed t)\<lparr>tcl_state := CL_DISCONNECTED\<rparr>)
      else cl_call (Cl_submit_connect sock (tcl_host t) (tcl_port t)) t)"

definition cl_start_reading :: "TcpClient \<Rightarrow> TcpClient option" where
  "cl_start_reading t =
     (case tcl_connection t of Some c \<Rightarrow> Some (cl_call (Cl_submit_read c) t) | None \<Rightarrow> None)"

definition cl_connect_done :: "int \<Rightarrow> int \<Rightarrow> TcpClient \<Rightarrow> TcpClient option" where
  "cl_connect_done sock result t =
     (if result \<ge> 0
      then cl_start_reading (cl_call (On_connect sock)
             (t\<lparr>tcl_connection := Some sock, tcl_state := CL_CONNECTED\<rparr>))
      else Some (cl_schedule_reconnect
             ((cl_call On_connect_failed (cl_call (Cl_close sock) t))\<lparr>tcl_state := CL_DISCONNECTED\<rparr>)))"

definition cl_send :: "byte list \<Rightarrow> TcpClient \<Rightarrow> TcpClient" where
  "cl_send data t =
     (if \<not> is_connected t \<or> tcl_connection t = None then t else cl_call (Post_write data) t)"

definition write_task :: "byte list \<Rightarrow> TcpClient \<Rightarrow> TcpClient" where
  "write_task data t =
     (case tcl_connection t of Some c \<Rightarrow> cl_call (Cl_submit_write c data) t | None \<Rightarrow> t)"

definition handle_disconnect :: "TcpClient \<Rightarrow> TcpClient" where
  "handle_disconnect t =
     (if tcl_state t \<noteq> CL_CONNECTED then t
      else cl_schedule_reconnect
             ((cl_call (On_disconnect (tcl_connection t)) (t\<lparr>tcl_state := CL_DISCONNECTED\<rparr>))
               \<lparr>tcl_connection := None\<rparr>))"

definition cl_write_done :: "int \<Rightarrow> TcpClient \<Rightarrow> TcpClient" where
  "cl_write_done result t = (if result < 0 then handle_disconnect t else t)"

definition cl_read_done :: "byte list option \<Rightarrow> TcpClient \<Rightarrow> TcpClient option" where
  "cl_read_done result t =
     (case result of
        Some received_data \<Rightarrow>
          if tcl_connection t = None then None
          else cl_start_reading (cl_call (On_message received_data) t)
      | None \<Rightarrow> Some (handle_disconnect t))"

section \<open>The connection as a state machine\<close>

inductive client_step :: "TcpClient \<Rightarrow> TcpClient \<Rightarrow> bool" where
  connect: "client_step t (connect t)"
| connecting: "tcl_state t = CL_CONNECTING \<Longrightarrow> client_step t (connect_task sock t)"
| connected: "tcl_state t = CL_CONNECTING \<Longrightarrow> cl_connect_done sock result t = Some t' \<Longrightarrow> client_step t t'"
| send: "client_step t (cl_send data t)"
| submit: "client_step t (write_task data t)"
| written: "client_step t (cl_write_done result t)"
| read: "cl_read_done result t = Some t' \<Longrightarrow> client_step t t'"

lemma cl_call_simps [simp]:
  "tcl_host (cl_call a t) = tcl_host t" "tcl_port (cl_call a t) = tcl_port t"
  "tcl_connection (cl_call a t) = tcl_connection t" "tcl_state (cl_call a t) = tcl_state t"
  "tcl_calls (cl_call a t) = tcl_calls t @ [a]"
  by (simp_all add: cl_call_def)

lemma client_step_connection:
  assumes "client_step t t'" and "tcl_state t = CL_CONNECTED \<longleftrightarrow> tcl_connection t \<noteq> None"
  shows "tcl_state t' = CL_CONNECTED \<longleftrightarrow> tcl_connection t' \<noteq> None"
  using assms
  by (induction rule: client_step.induct)
    (auto simp: connect_def connect_task_def cl_connect_done_def cl_send_def write_task_def cl_write_done_def
      cl_read_done_def handle_disconnect_def cl_start_reading_def cl_schedule_reconnect_def is_connected_def
      split: option.splits if_splits)

lemma client_reachable_connection:
  "client_step\<^sup>*\<^sup>* (new_TcpClient host port) t \<Longrightarrow> tcl_state t = CL_CONNECTED \<longleftrightarrow> tcl_connection t \<noteq> None"
  by (induction rule: rtranclp_induct) (simp add: new_TcpClient_def, rule client_step_connection)

text \<open>
  A read that was submitted before a write failed uses \<open>connection_\<close> after it has been reset:
  when it then delivers data, the client crashes.
\<close>

lemma data_after_write_error:
  assumes "tcl_state t = CL_CONNECTED" and "result < 0"
  shows "cl_read_done (Some data) (cl_write_done result t) = None"
  using assms by (simp add: cl_read_done_def cl_write_done_def handle_disconnect_def cl_schedule_reconnect_def)

end
