(* ===== verification/Protocol_Handler.thy ===== *)
theory Protocol_Handler
  imports Tcp_Connection
begin

text \<open>
  The framing layer \<open>src/server/protocol_handler.cpp\<close>: it collects the bytes of each socket in a
  buffer and cuts them into messages. The digest function is a parameter.
\<close>

section \<open>Cutting a buffer into messages\<close>

text \<open>
  The loop of \<open>handle_raw_data\<close>: the messages it hands on, and the bytes it keeps, or \<open>None\<close>
  where it gives the connection up.
\<close>

function frame_loop ::
    "(byte list \<Rightarrow> byte list) \<Rightarrow> byte list \<Rightarrow> vsr_message list \<times> byte list option" where
  "frame_loop blake3 buffer =
     (if length buffer < sizeof_vsr_header then ([], Some buffer)
      else
        let expected_size = unat (h_size (dec_header (take sizeof_vsr_header buffer)))
        in if expected_size = 0 \<or> expected_size > 65536 then ([], None)
           else if length buffer < expected_size then ([], Some buffer)
           else case deserialize blake3 (take expected_size buffer) new_message of
                  (True, msg) \<Rightarrow>
                    (case frame_loop blake3 (drop expected_size buffer) of
                       (msgs, rest) \<Rightarrow> (msg # msgs, rest))
                | (False, _) \<Rightarrow> ([], None))"
  by pat_completeness auto
termination
  by (relation "measure (\<lambda>(blake3, buffer). length buffer)") auto

declare frame_loop.simps [simp del]

type_synonym buffers = "(int, byte list) omap"

record handler_result =
  hr_connection :: tcp_connection
  hr_buffers :: buffers
  hr_received :: "vsr_message list"
  hr_closed :: "int option"

definition handle_raw_data ::
    "(byte list \<Rightarrow> byte list) \<Rightarrow> tcp_connection \<Rightarrow> byte list \<Rightarrow> buffers \<Rightarrow> handler_result" where
  "handle_raw_data blake3 connection data connection_buffers =
     (let socket_fd = tc_socket connection
      in if socket_fd = - 1
         then \<lparr>hr_connection = connection, hr_buffers = connection_buffers, hr_received = [], hr_closed = None\<rparr>
         else
           let buffer = om_index [] connection_buffers socket_fd @ data
           in case frame_loop blake3 buffer of
                (msgs, Some rest) \<Rightarrow>
                  \<lparr>hr_connection = connection, hr_buffers = om_assign socket_fd rest connection_buffers,
                   hr_received = msgs, hr_closed = None\<rparr>
              | (msgs, None) \<Rightarrow>
                  \<lparr>hr_connection = fst (close_socket connection),
                   hr_buffers = om_erase socket_fd connection_buffers,
                   hr_received = msgs, hr_closed = snd (close_socket connection)\<rparr>)"

definition ph_on_disconnect :: "tcp_connection option \<Rightarrow> buffers \<Rightarrow> buffers" where
  "ph_on_disconnect connection connection_buffers =
     (case connection of Some c \<Rightarrow> om_erase (tc_socket c) connection_buffers | None \<Rightarrow> connection_buffers)"

section \<open>Reading a stream in chunks\<close>

text \<open>
  A parser that keeps what it could not use yet. Feeding it chunk by chunk, and stopping for
  good at an error, is the same as giving it everything at once.
\<close>

primrec feed :: "('b list \<Rightarrow> 'm list \<times> 'b list option) \<Rightarrow> 'b list option \<Rightarrow> 'b list list \<Rightarrow> 'm list \<times> 'b list option" where
  "feed parse buffer [] = ([], buffer)"
| "feed parse buffer (chunk # chunks) =
     (case buffer of
        None \<Rightarrow> feed parse None chunks
      | Some b \<Rightarrow> (case parse (b @ chunk) of
          (ms, b') \<Rightarrow> (case feed parse b' chunks of (ms', b'') \<Rightarrow> (ms @ ms', b''))))"

locale stream_parser =
  fixes parse :: "'b list \<Rightarrow> 'm list \<times> 'b list option"
  assumes parse_wait: "parse a = (ms, Some rest) \<Longrightarrow> parse (rest @ b) = (ms', r) \<Longrightarrow> parse (a @ b) = (ms @ ms', r)"
    and parse_error: "parse a = (ms, None) \<Longrightarrow> parse (a @ b) = (ms, None)"
begin

lemma feed_dead [simp]: "feed parse None chunks = ([], None)"
  by (induction chunks) simp_all

lemma feed_once: "chunks \<noteq> [] \<Longrightarrow> feed parse (Some b) chunks = parse (b @ concat chunks)"
proof (induction chunks arbitrary: b)
  case (Cons c cs)
  obtain ms r where p: "parse (b @ c) = (ms, r)" by (metis prod.exhaust)
  show ?case
  proof (cases r)
    case None
    with p show ?thesis using parse_error [of "b @ c" ms "concat cs"] by simp
  next
    case (Some rest)
    show ?thesis
    proof (cases "cs = []")
      case True
      with p Some show ?thesis by simp
    next
      case False
      obtain ms' r' where q: "parse (rest @ concat cs) = (ms', r')" by (metis prod.exhaust)
      from parse_wait [of "b @ c" ms rest "concat cs" ms' r'] p Some q have "parse ((b @ c) @ concat cs) = (ms @ ms', r')"
        by simp
      with p Some q Cons.IH [OF False, of rest] show ?thesis by simp
    qed
  qed
qed simp

lemma feed_chunking:
  "concat chunks = concat chunks' \<Longrightarrow> chunks \<noteq> [] \<Longrightarrow> chunks' \<noteq> [] \<Longrightarrow>
     feed parse (Some b) chunks = feed parse (Some b) chunks'"
  by (simp add: feed_once)

end

text \<open>The size a buffer announces for its first message, and the four ways a turn of the loop goes.\<close>

definition frame_size :: "byte list \<Rightarrow> nat" where
  "frame_size buffer = unat (h_size (dec_header (take 128 buffer)))"

lemma frame_size_append: "128 \<le> length a \<Longrightarrow> frame_size (a @ b) = frame_size a"
  by (simp add: frame_size_def)

lemma frame_loop_short: "length a < 128 \<Longrightarrow> frame_loop blake3 a = ([], Some a)"
  by (simp add: frame_loop.simps [of blake3 a])

lemma frame_loop_bad_size:
  "128 \<le> length a \<Longrightarrow> frame_size a = 0 \<or> 65536 < frame_size a \<Longrightarrow> frame_loop blake3 a = ([], None)"
  by (auto simp: frame_loop.simps [of blake3 a] frame_size_def Let_def)

lemma frame_loop_partial:
  "128 \<le> length a \<Longrightarrow> 0 < frame_size a \<Longrightarrow> frame_size a \<le> 65536 \<Longrightarrow> length a < frame_size a \<Longrightarrow>
     frame_loop blake3 a = ([], Some a)"
  by (simp add: frame_loop.simps [of blake3 a] frame_size_def)

lemma frame_loop_message:
  "128 \<le> length a \<Longrightarrow> 0 < frame_size a \<Longrightarrow> frame_size a \<le> 65536 \<Longrightarrow> frame_size a \<le> length a \<Longrightarrow>
     frame_loop blake3 a =
       (case deserialize blake3 (take (frame_size a) a) new_message of
          (True, msg) \<Rightarrow> (case frame_loop blake3 (drop (frame_size a) a) of (msgs, rest) \<Rightarrow> (msg # msgs, rest))
        | (False, _) \<Rightarrow> ([], None))"
  unfolding frame_size_def by (simp add: frame_loop.simps [of blake3 a] Let_def)

lemma frame_loop_append:
  "frame_loop blake3 a = (ms, r) \<Longrightarrow>
     frame_loop blake3 (a @ b) =
       (case r of None \<Rightarrow> (ms, None)
        | Some rest \<Rightarrow> (case frame_loop blake3 (rest @ b) of (ms', r') \<Rightarrow> (ms @ ms', r')))"
proof (induction "length a" arbitrary: a ms r rule: less_induct)
  case less
  consider (short) "length a < 128"
    | (bad) "128 \<le> length a" "frame_size a = 0 \<or> 65536 < frame_size a"
    | (partial) "128 \<le> length a" "0 < frame_size a" "frame_size a \<le> 65536" "length a < frame_size a"
    | (whole) "128 \<le> length a" "0 < frame_size a" "frame_size a \<le> 65536" "frame_size a \<le> length a"
    by linarith
  then show ?case
  proof cases
    case short
    with less.prems frame_loop_short [of a blake3] show ?thesis by auto
  next
    case bad
    with less.prems frame_loop_bad_size [of a blake3] frame_loop_bad_size [of "a @ b" blake3] show ?thesis
      by (auto simp: frame_size_append)
  next
    case partial
    with less.prems frame_loop_partial [of a blake3] show ?thesis by auto
  next
    case whole
    let ?n = "frame_size a"
    obtain good msg where d: "deserialize blake3 (take ?n a) new_message = (good, msg)"
      by (metis prod.exhaust)
    obtain ms1 r1 where rest: "frame_loop blake3 (drop ?n a) = (ms1, r1)"
      by (metis prod.exhaust)
    have "frame_loop blake3 (a @ b) = (case (good, msg) of
        (True, msg) \<Rightarrow> (case frame_loop blake3 (drop ?n a @ b) of (msgs, rest) \<Rightarrow> (msg # msgs, rest))
      | (False, _) \<Rightarrow> ([], None))"
      using whole d frame_loop_message [of "a @ b" blake3] by (cases good) (simp_all add: frame_size_append)
    moreover have "(ms, r) = (case (good, msg) of (True, msg) \<Rightarrow> (msg # ms1, r1) | (False, _) \<Rightarrow> ([], None))"
      using whole d rest frame_loop_message [of a blake3] less.prems by (cases good) simp_all
    ultimately show ?thesis
      using less.hyps [OF _ rest] whole by (cases good) (auto split: option.splits prod.splits)
  qed
qed

interpretation framing: stream_parser "frame_loop blake3" for blake3
proof
  fix a b :: "byte list" and ms ms' rest r
  show "frame_loop blake3 a = (ms, Some rest) \<Longrightarrow> frame_loop blake3 (rest @ b) = (ms', r) \<Longrightarrow>
      frame_loop blake3 (a @ b) = (ms @ ms', r)"
    using frame_loop_append [of blake3 a ms "Some rest" b] by simp
  show "frame_loop blake3 a = (ms, None) \<Longrightarrow> frame_loop blake3 (a @ b) = (ms, None)"
    using frame_loop_append [of blake3 a ms None b] by simp
qed

text \<open>Receiving a stream: the chunks are handled one by one.\<close>

primrec receive ::
    "(byte list \<Rightarrow> byte list) \<Rightarrow> tcp_connection \<Rightarrow> buffers \<Rightarrow> byte list list \<Rightarrow>
     vsr_message list \<times> tcp_connection \<times> buffers" where
  "receive blake3 c bufs [] = ([], c, bufs)"
| "receive blake3 c bufs (chunk # chunks) =
     (let r = handle_raw_data blake3 c chunk bufs
      in case receive blake3 (hr_connection r) (hr_buffers r) chunks of
           (ms, c', bufs') \<Rightarrow> (hr_received r @ ms, c', bufs'))"

lemma receive_closed: "tc_socket c = - 1 \<Longrightarrow> receive blake3 c bufs chunks = ([], c, bufs)"
  by (induction chunks) (simp_all add: handle_raw_data_def)

lemma receive_feed:
  assumes "tc_socket c \<noteq> - 1" and "chunks \<noteq> []"
    and "feed (frame_loop blake3) (Some (om_index [] bufs (tc_socket c))) chunks = (ms, r)"
  shows "\<exists>bufs'. receive blake3 c bufs chunks =
       (ms, if r = None then fst (close_socket c) else c, bufs') \<and>
     om_find bufs' = (om_find bufs)(tc_socket c := r)"
  using assms(2,3)
proof (induction chunks arbitrary: bufs ms r)
  case (Cons chunk chunks)
  obtain ms1 r1 where p: "frame_loop blake3 (om_index [] bufs (tc_socket c) @ chunk) = (ms1, r1)"
    by (metis prod.exhaust)
  show ?case
  proof (cases r1)
    case None
    with p Cons.prems assms(1) show ?thesis
      by (auto simp: handle_raw_data_def receive_closed)
  next
    case (Some rest)
    define bufs1 where "bufs1 = om_assign (tc_socket c) rest bufs"
    have h: "handle_raw_data blake3 c chunk bufs =
        \<lparr>hr_connection = c, hr_buffers = bufs1, hr_received = ms1, hr_closed = None\<rparr>"
      using p Some assms(1) by (simp add: handle_raw_data_def bufs1_def)
    have b1: "om_index [] bufs1 (tc_socket c) = rest" "om_find bufs1 = (om_find bufs)(tc_socket c := Some rest)"
      by (simp_all add: bufs1_def om_index_def)
    obtain ms2 where ms: "ms = ms1 @ ms2"
      and f: "feed (frame_loop blake3) (Some rest) chunks = (ms2, r)"
      using Cons.prems p Some by (auto split: prod.splits)
    show ?thesis
    proof (cases "chunks = []")
      case True
      with f ms h b1 show ?thesis by auto
    next
      case False
      obtain bufs' where "receive blake3 c bufs1 chunks =
          (ms2, if r = None then fst (close_socket c) else c, bufs')"
        "om_find bufs' = (om_find bufs1)(tc_socket c := r)"
        using Cons.IH [OF False, of bufs1 ms2 r] f b1(1) by blast
      with h ms b1(2) show ?thesis by (simp add: fun_eq_iff)
    qed
  qed
qed simp

lemma frame_message:
  assumes "wf_message m" and "128 + length (msg_payload m) \<le> 65536" and "serialize blake3 m = Some bs"
  shows "frame_loop blake3 (bs @ rest) =
     (case frame_loop blake3 rest of (ms, r) \<Rightarrow> (prepared_message blake3 m # ms, r))"
proof -
  have small: "128 + length (msg_payload m) < 2 ^ 32"
    using assms(2) by simp
  have bs: "bs = enc_header (msg_header (prepared_message blake3 m)) @ msg_payload m"
    using assms(3) serialize_ok [OF small, of blake3] by simp
  have size: "unat (of_nat (128 + length (msg_payload m)) :: u32) = 128 + length (msg_payload m)"
    using small by (intro unat_of_nat_small) simp
  have len: "length bs = 128 + length (msg_payload m)"
    by (simp add: bs)
  have "dec_header (take 128 (bs @ rest)) = msg_header (prepared_message blake3 m)"
    using assms(1) prepared_wf [of blake3 m] by (simp add: bs pod_header.dec_enc wf_message_def)
  then have head: "unat (h_size (dec_header (take 128 (bs @ rest)))) = length bs"
    using size by (simp add: len)
  have "deserialize blake3 bs new_message = (True, prepared_message blake3 m)"
    unfolding bs by (rule deserialize_prepared [OF assms(1) small])
  then show ?thesis
    using head len assms(2) by (simp add: frame_loop.simps [of blake3 "bs @ rest"])
qed

lemma frame_messages:
  assumes "\<forall>m \<in> set ms. wf_message m \<and> 128 + length (msg_payload m) \<le> 65536"
  shows "frame_loop blake3 (concat (map (\<lambda>m. the (serialize blake3 m)) ms)) =
     (map (prepared_message blake3) ms, Some [])"
  using assms
proof (induction ms)
  case Nil
  then show ?case by (simp add: frame_loop.simps)
next
  case (Cons m ms)
  then have "serialize blake3 m = Some (the (serialize blake3 m))"
    using serialize_ok [of m blake3] by simp
  from frame_message [OF _ _ this] Cons show ?case by simp
qed

section \<open>Properties of the framing layer\<close>

text \<open>
  C16: stream reassembly. However TCP cuts the bytes of a sequence of well-formed messages of at
  most 64 KB into chunks, handling the chunks one after the other hands on exactly these
  messages (as sealed by the sender), in order, keeps nothing in the socket's buffer, leaves
  every other buffer alone and the connection open.
\<close>
theorem stream_reassembly:
  assumes "\<forall>m \<in> set ms. wf_message m \<and> 128 + length (msg_payload m) \<le> 65536"
    and "concat chunks = concat (map (\<lambda>m. the (serialize blake3 m)) ms)" and "chunks \<noteq> []"
    and "tc_socket c \<noteq> - 1" and "om_index [] bufs (tc_socket c) = []"
  shows "\<exists>bufs'. receive blake3 c bufs chunks = (map (prepared_message blake3) ms, c, bufs') \<and>
     om_find bufs' = (om_find bufs)(tc_socket c \<mapsto> [])"
proof -
  have "feed (frame_loop blake3) (Some (om_index [] bufs (tc_socket c))) chunks =
      (map (prepared_message blake3) ms, Some [])"
    using framing.feed_once [OF assms(3)] frame_messages [OF assms(1)] assms(2,5) by simp
  from receive_feed [OF assms(4,3) this] show ?thesis by simp
qed

theorem stream_reassembly_witness:
  "fst (receive (\<lambda>_. replicate 32 7) (new_TcpConnection 5) []
     [take 100 (the (serialize (\<lambda>_. replicate 32 7) new_message)),
      drop 100 (the (serialize (\<lambda>_. replicate 32 7) new_message)) @
        the (serialize (\<lambda>_. replicate 32 7) (new_message\<lparr>msg_payload := [1]\<rparr>))]) =
   [prepared_message (\<lambda>_. replicate 32 7) new_message,
    prepared_message (\<lambda>_. replicate 32 7) (new_message\<lparr>msg_payload := [1]\<rparr>)]"
  using stream_reassembly [of "[new_message, new_message\<lparr>msg_payload := [1]\<rparr>]"
      "[take 100 (the (serialize (\<lambda>_. replicate 32 7) new_message)),
      drop 100 (the (serialize (\<lambda>_. replicate 32 7) new_message)) @
        the (serialize (\<lambda>_. replicate 32 7) (new_message\<lparr>msg_payload := [1]\<rparr>))]"
      "\<lambda>_. replicate 32 7" "new_TcpConnection 5" "[]"]
  by (auto simp: new_message_def zero_header_def wf_message_def wf_header_def new_TcpConnection_def
      om_index_def)

text \<open>
  The cutting of the stream never matters, for any bytes whatsoever, malformed ones
  included: two ways to cut the same bytes lead to the same messages handed on, the same
  connection (open, or closed at the same error) and the same buffers.
\<close>
theorem chunking_irrelevant:
  assumes "concat chunks = concat chunks'" and "chunks \<noteq> []" and "chunks' \<noteq> []"
    and "receive blake3 c bufs chunks = (ms, d, b)" and "receive blake3 c bufs chunks' = (ms', d', b')"
  shows "ms = ms' \<and> d = d' \<and> om_find b = om_find b'"
proof (cases "tc_socket c = - 1")
  case True
  with assms(4,5) show ?thesis by (simp add: receive_closed)
next
  case False
  obtain m r where f: "feed (frame_loop blake3) (Some (om_index [] bufs (tc_socket c))) chunks = (m, r)"
    by (metis prod.exhaust)
  have f': "feed (frame_loop blake3) (Some (om_index [] bufs (tc_socket c))) chunks' = (m, r)"
    using framing.feed_chunking [OF assms(1-3)] f by simp
  from receive_feed [OF False assms(2) f] receive_feed [OF False assms(3) f'] show ?thesis
    using assms(4,5) by auto
qed

theorem chunking_irrelevant_witness:
  "fst (receive (\<lambda>_. replicate 32 7) (new_TcpConnection 5) [] [replicate 200 0]) =
   fst (receive (\<lambda>_. replicate 32 7) (new_TcpConnection 5) [] [replicate 130 0, replicate 70 0])"
proof -
  obtain ms d b ms' d' b' where
    r: "receive (\<lambda>_. replicate 32 7) (new_TcpConnection 5) [] [replicate 200 0] = (ms, d, b)"
      "receive (\<lambda>_. replicate 32 7) (new_TcpConnection 5) [] [replicate 130 0, replicate 70 0] = (ms', d', b')"
    by (metis prod.exhaust)
  have "concat [replicate 200 0] = concat [replicate 130 (0 :: byte), replicate 70 0]"
    by (simp flip: replicate_add)
  from chunking_irrelevant [OF this _ _ r] show ?thesis
    unfolding r by simp
qed

lemma frame_oversize:
  assumes "wf_message m" and "65536 < 128 + length (msg_payload m)" and "128 + length (msg_payload m) < 2 ^ 32"
  shows "frame_loop blake3 (the (serialize blake3 m)) = ([], None)"
proof -
  have "unat (of_nat (128 + length (msg_payload m)) :: u32) = 128 + length (msg_payload m)"
    using assms(3) by (intro unat_of_nat_small) simp
  moreover have "dec_header (enc_header (msg_header (prepared_message blake3 m))) =
      msg_header (prepared_message blake3 m)"
    using assms(1) prepared_wf [of blake3 m] by (simp add: pod_header.dec_enc wf_message_def)
  ultimately show ?thesis
    using assms(2) by (simp add: serialize_ok [OF assms(3)] frame_loop.simps)
qed

text \<open>
  C29: a message of more than 64 KB (and less than 4 GB) is serialized by the sender without
  complaint, but no receiver ever gets it: as soon as its header has arrived the receiver
  closes the connection and hands on nothing. This is what happens to the DoViewChange,
  StartView and RecoveryResponse of a replica whose log has grown past that size.
\<close>
theorem oversize_message_closes_connection:
  assumes "wf_message m" and "65536 < 128 + length (msg_payload m)"
    and "128 + length (msg_payload m) < 2 ^ 32"
    and "tc_socket c \<noteq> - 1" and "om_index [] bufs (tc_socket c) = []" and "chunks \<noteq> []"
    and "concat chunks = the (serialize blake3 m)"
  shows "serialize blake3 m \<noteq> None \<and>
     (\<exists>bufs'. receive blake3 c bufs chunks = ([], c\<lparr>tc_socket := - 1\<rparr>, bufs'))"
proof -
  have ser: "serialize blake3 m = Some (enc_header (msg_header (prepared_message blake3 m)) @ msg_payload m)"
    by (rule serialize_ok [OF assms(3)])
  have "frame_loop blake3 (the (serialize blake3 m)) = ([], None)"
    by (rule frame_oversize [OF assms(1-3)])
  then have "feed (frame_loop blake3) (Some (om_index [] bufs (tc_socket c))) chunks = ([], None)"
    using framing.feed_once [OF assms(6)] assms(5,7) by simp
  from receive_feed [OF assms(4,6) this] assms(4) show ?thesis
    by (auto simp: ser close_socket_def)
qed

theorem oversize_message_closes_connection_witness:
  "fst (receive (\<lambda>_. replicate 32 7) (new_TcpConnection 5) []
     [the (serialize (\<lambda>_. replicate 32 7) (new_message\<lparr>msg_payload := replicate 65409 1\<rparr>))]) = []"
  using oversize_message_closes_connection [of "new_message\<lparr>msg_payload := replicate 65409 1\<rparr>"
      "new_TcpConnection 5" "[]" "[the (serialize (\<lambda>_. replicate 32 7) (new_message\<lparr>msg_payload := replicate 65409 1\<rparr>))]"
      "\<lambda>_. replicate 32 7"]
  by (auto simp: new_message_def zero_header_def wf_message_def wf_header_def new_TcpConnection_def
      om_index_def)

end
