(* ===== verification/Replica_Manager.thy ===== *)
theory Replica_Manager
  imports Protocol_Handler
begin

text \<open>
  The peers of a replica, \<open>src/server/replica_manager.cpp\<close>, and the part of
  \<open>src/server/tcp_server.cpp\<close> it calls. The state of the server object, of its peer manager and of
  its protocol handler is one record, since their methods call each other; connection objects
  are contents of a store, addressed by their identity. What is handed to the event loop and to
  the operating system is recorded in order in \<open>sv_calls\<close>. Descriptors come from the operating
  system and are arguments.
\<close>

section \<open>State\<close>

datatype peer_status = DISCONNECTED | CONNECTING | CONNECTED

record Peer =
  peer_id :: int
  peer_host :: string
  peer_port :: int
  peer_state :: peer_status
  peer_connection :: "connection option"

definition new_Peer :: "int \<Rightarrow> string \<Rightarrow> int \<Rightarrow> Peer" where
  "new_Peer i host port = \<lparr>peer_id = i, peer_host = host, peer_port = port,
     peer_state = DISCONNECTED, peer_connection = None\<rparr>"

datatype net_call =
    Submit_accept
  | Submit_read connection
  | Submit_write connection "byte list"
  | Submit_connect int int string int
  | Submit_reconnect nat int
  | Close_fd int
  | Received connection vsr_message

record server =
  sv_store :: "connection \<Rightarrow> tcp_connection"
  sv_fresh :: connection
  sv_connections :: "(int, connection) omap"
  sv_buffers :: buffers
  sv_self_id :: int
  sv_peers_by_id :: "(int, Peer) omap"
  sv_socket_to_peer_id :: "(int, int) omap"
  sv_port_to_peer_id :: "(int, int) omap"
  sv_calls :: "net_call list"

definition call :: "net_call \<Rightarrow> server \<Rightarrow> server" where
  "call a sv = sv\<lparr>sv_calls := sv_calls sv @ [a]\<rparr>"

definition set_connection :: "connection \<Rightarrow> tcp_connection \<Rightarrow> server \<Rightarrow> server" where
  "set_connection c t sv = sv\<lparr>sv_store := (sv_store sv)(c := t)\<rparr>"

definition set_peer :: "int \<Rightarrow> (Peer \<Rightarrow> Peer) \<Rightarrow> server \<Rightarrow> server" where
  "set_peer i f sv =
     (case om_find (sv_peers_by_id sv) i of
        Some p \<Rightarrow> sv\<lparr>sv_peers_by_id := om_assign i (f p) (sv_peers_by_id sv)\<rparr>
      | None \<Rightarrow> sv)"

definition make_connection :: "int \<Rightarrow> server \<Rightarrow> connection \<times> server" where
  "make_connection sock sv =
     (sv_fresh sv, (set_connection (sv_fresh sv) (new_TcpConnection sock) sv)\<lparr>sv_fresh := Suc (sv_fresh sv)\<rparr>)"

definition close_connection :: "connection \<Rightarrow> server \<Rightarrow> server" where
  "close_connection c sv =
     (case close_socket (sv_store sv c) of
        (t, Some fd) \<Rightarrow> call (Close_fd fd) (set_connection c t sv)
      | (t, None) \<Rightarrow> set_connection c t sv)"

section \<open>Decimal numbers\<close>

text \<open>\<open>std::to_string\<close> and \<open>std::stoi\<close>; \<open>None\<close> is either exception of \<open>stoi\<close>.\<close>

definition digit_char :: "nat \<Rightarrow> char" where
  "digit_char d = char_of (48 + d)"

definition is_digit :: "char \<Rightarrow> bool" where
  "is_digit c \<longleftrightarrow> 48 \<le> (of_char c :: nat) \<and> (of_char c :: nat) \<le> 57"

fun string_of_nat :: "nat \<Rightarrow> string" where
  "string_of_nat n =
     (if n < 10 then [digit_char n] else string_of_nat (n div 10) @ [digit_char (n mod 10)])"

declare string_of_nat.simps [simp del]

definition to_string :: "int \<Rightarrow> string" where
  "to_string i = (if i < 0 then CHR ''-'' # string_of_nat (nat (- i)) else string_of_nat (nat i))"

definition digits_value :: "string \<Rightarrow> nat" where
  "digits_value = foldl (\<lambda>acc c. 10 * acc + (of_char c - 48)) 0"

definition stoi :: "string \<Rightarrow> int option" where
  "stoi str =
     (let s = dropWhile is_space str;
          (neg, s1) = (case s of c # cs \<Rightarrow> if c = CHR ''-'' then (True, cs)
                         else if c = CHR ''+'' then (False, cs) else (False, s) | [] \<Rightarrow> (False, []));
          ds = takeWhile is_digit s1;
          v = (if neg then - int (digits_value ds) else int (digits_value ds))
      in if ds = [] then None
         else if v < - (2 ^ 31) \<or> v \<ge> 2 ^ 31 then None
         else Some v)"

section \<open>Calls on the server\<close>

definition server_send :: "connection \<Rightarrow> byte list \<Rightarrow> server \<Rightarrow> server" where
  "server_send c data sv = call (Submit_write c data) sv"

definition start_reading :: "connection \<Rightarrow> server \<Rightarrow> server" where
  "start_reading c sv = call (Submit_read c) sv"

definition register_new_connection :: "connection \<Rightarrow> server \<Rightarrow> server" where
  "register_new_connection c sv =
     start_reading c (sv\<lparr>sv_connections := om_assign (tc_socket (sv_store sv c)) c (sv_connections sv)\<rparr>)"

section \<open>The peer manager\<close>

definition reconnect_delay :: nat where "reconnect_delay = 5"

definition schedule_reconnect :: "int \<Rightarrow> server \<Rightarrow> server" where
  "schedule_reconnect i sv = call (Submit_reconnect reconnect_delay i) sv"

definition new_ReplicaManager :: "int \<Rightarrow> Peer list \<Rightarrow> server" where
  "new_ReplicaManager self_id peers =
     \<lparr>sv_store = (\<lambda>_. new_TcpConnection (- 1)), sv_fresh = 0, sv_connections = [], sv_buffers = [],
      sv_self_id = self_id,
      sv_peers_by_id = fold (\<lambda>p m. if om_find m (peer_id p) = None then om_assign (peer_id p) p m else m) peers [],
      sv_socket_to_peer_id = [],
      sv_port_to_peer_id = fold (\<lambda>p. om_assign (peer_port p) (peer_id p)) peers [],
      sv_calls = []\<rparr>"

definition attempt_connection :: "int \<Rightarrow> int \<Rightarrow> server \<Rightarrow> server" where
  "attempt_connection sock i sv =
     (case om_find (sv_peers_by_id sv) i of
        None \<Rightarrow> sv
      | Some peer \<Rightarrow>
          if peer_state peer \<noteq> DISCONNECTED then sv
          else
            let sv1 = set_peer i (\<lambda>p. p\<lparr>peer_state := CONNECTING\<rparr>) sv
            in if sock < 0
               then schedule_reconnect i (set_peer i (\<lambda>p. p\<lparr>peer_state := DISCONNECTED\<rparr>) sv1)
               else call (Submit_connect i sock (peer_host peer) (peer_port peer)) sv1)"

definition connect_to_peers :: "(int \<Rightarrow> int) \<Rightarrow> server \<Rightarrow> server" where
  "connect_to_peers socks sv =
     fold (\<lambda>(i, peer) acc. if sv_self_id acc > i then attempt_connection (socks i) i acc else acc)
       (sv_peers_by_id sv) sv"

definition send_handshake :: "int \<Rightarrow> server \<Rightarrow> server" where
  "send_handshake i sv =
     (case om_find (sv_peers_by_id sv) i of
        Some peer \<Rightarrow>
          (case peer_connection peer of
             Some c \<Rightarrow> server_send c (bytes_of_string (''HANDSHAKE_ID:'' @ to_string (sv_self_id sv))) sv
           | None \<Rightarrow> sv)
      | None \<Rightarrow> sv)"

text \<open>The callback of the connect request.\<close>

definition connect_done :: "int \<Rightarrow> int \<Rightarrow> int \<Rightarrow> server \<Rightarrow> server" where
  "connect_done i sock result sv =
     (if result \<ge> 0 then
        let (c, sv1) = make_connection sock sv;
            sv2 = set_peer i (\<lambda>p. p\<lparr>peer_state := CONNECTED, peer_connection := Some c\<rparr>) sv1;
            sv3 = sv2\<lparr>sv_socket_to_peer_id := om_assign sock i (sv_socket_to_peer_id sv2)\<rparr>
        in send_handshake i (register_new_connection c sv3)
      else
        schedule_reconnect i (call (Close_fd sock) (set_peer i (\<lambda>p. p\<lparr>peer_state := DISCONNECTED\<rparr>) sv)))"

definition register_identified_peer :: "int \<Rightarrow> connection \<Rightarrow> server \<Rightarrow> server" where
  "register_identified_peer i c sv =
     (case om_find (sv_peers_by_id sv) i of
        None \<Rightarrow> close_connection c sv
      | Some peer \<Rightarrow>
          (set_peer i (\<lambda>p. p\<lparr>peer_state := CONNECTED, peer_connection := Some c\<rparr>) sv)
            \<lparr>sv_socket_to_peer_id :=
               om_assign (tc_socket (sv_store sv c)) (peer_id peer) (sv_socket_to_peer_id sv)\<rparr>)"

text \<open>
  \<open>None\<close> is the exception of \<open>peers_by_id_.at\<close>, which nothing catches before the event loop ends.
\<close>

definition on_disconnect :: "connection \<Rightarrow> server \<Rightarrow> server option" where
  "on_disconnect c sv =
     (let socket_fd = tc_socket (sv_store sv c)
      in case om_find (sv_socket_to_peer_id sv) socket_fd of
           None \<Rightarrow> Some sv
         | Some i \<Rightarrow>
             (case om_find (sv_peers_by_id sv) i of
                None \<Rightarrow> None
              | Some peer \<Rightarrow>
                  let sv1 = set_peer i (\<lambda>p. p\<lparr>peer_state := DISCONNECTED, peer_connection := None\<rparr>) sv;
                      sv2 = sv1\<lparr>sv_socket_to_peer_id := om_erase socket_fd (sv_socket_to_peer_id sv1)\<rparr>
                  in Some (if sv_self_id sv2 > peer_id peer then schedule_reconnect i sv2 else sv2)))"

definition mgr_send_to_peer :: "int \<Rightarrow> byte list \<Rightarrow> server \<Rightarrow> server" where
  "mgr_send_to_peer i data sv =
     (case om_find (sv_peers_by_id sv) i of
        None \<Rightarrow> sv
      | Some peer \<Rightarrow>
          (case peer_connection peer of
             None \<Rightarrow> sv
           | Some c \<Rightarrow> if peer_state peer \<noteq> CONNECTED then sv else server_send c data sv))"

definition add_peer :: "int \<Rightarrow> Peer \<Rightarrow> server \<Rightarrow> server" where
  "add_peer sock new_peer sv =
     (if om_find (sv_peers_by_id sv) (peer_id new_peer) \<noteq> None then sv
      else
        let sv1 = sv\<lparr>sv_port_to_peer_id := om_assign (peer_port new_peer) (peer_id new_peer) (sv_port_to_peer_id sv),
                     sv_peers_by_id := om_assign (peer_id new_peer) new_peer (sv_peers_by_id sv)\<rparr>
        in if sv_self_id sv1 > peer_id new_peer then attempt_connection sock (peer_id new_peer) sv1 else sv1)"

definition remove_peer :: "int \<Rightarrow> server \<Rightarrow> server" where
  "remove_peer i sv =
     (case om_find (sv_peers_by_id sv) i of
        None \<Rightarrow> sv
      | Some peer \<Rightarrow>
          let sv1 = (case peer_connection peer of Some c \<Rightarrow> close_connection c sv | None \<Rightarrow> sv)
          in sv1\<lparr>sv_port_to_peer_id := om_erase (peer_port peer) (sv_port_to_peer_id sv1),
                 sv_peers_by_id := om_erase i (sv_peers_by_id sv1)\<rparr>)"

definition mgr_broadcast_to_peers :: "byte list \<Rightarrow> int \<Rightarrow> server \<Rightarrow> server" where
  "mgr_broadcast_to_peers data exclude_id sv =
     fold (\<lambda>(i, peer) acc. if i = exclude_id then acc else mgr_send_to_peer i data acc)
       (sv_peers_by_id sv) sv"

definition is_peer_connection :: "connection option \<Rightarrow> server \<Rightarrow> bool" where
  "is_peer_connection connection sv =
     (case connection of
        None \<Rightarrow> False
      | Some c \<Rightarrow> om_find (sv_socket_to_peer_id sv) (tc_socket (sv_store sv c)) \<noteq> None)"

end
