(* ===== verification/Client.thy ===== *)
theory Client
  imports Replica_Normal Tcp_Client Replica_Manager
begin

text \<open>
  The interactive client \<open>src/client/client_main.cpp\<close>: the command line, the choice of the
  replica to talk to, and what it shows of a reply. Requests and replies are those of the
  replicas; what a replica computes for a request is \<open>apply_operation\<close>.
\<close>

section \<open>State\<close>

record client =
  cl_clients :: "(int, TcpClient) omap"
  cl_current_target_replica_id :: int
  cl_next_request_number :: u32

definition self_client_id :: uint128_t where
  "self_client_id = UInt128 3735928559 3405705229"

definition CLUSTER_CONFIG :: "(int \<times> string \<times> int) list" where
  "CLUSTER_CONFIG = [(0, ''localhost'', 8080), (1, ''localhost'', 8081), (2, ''localhost'', 8082)]"

text \<open>The clients that \<open>main\<close> creates and starts to connect.\<close>

definition start_clients :: client where
  "start_clients =
     \<lparr>cl_clients = fold (\<lambda>(i, host, port). om_assign i (connect (new_TcpClient host port))) CLUSTER_CONFIG [],
      cl_current_target_replica_id = 0, cl_next_request_number = 1\<rparr>"

section \<open>Sending with failover\<close>

definition advance_to_next_replica :: "int \<Rightarrow> client \<Rightarrow> client" where
  "advance_to_next_replica total_replicas cl =
     cl\<lparr>cl_current_target_replica_id := (cl_current_target_replica_id cl + 1) smod total_replicas\<rparr>"

primrec attempt_send ::
    "(byte list \<Rightarrow> byte list) \<Rightarrow> vsr_message \<Rightarrow> int \<Rightarrow> nat \<Rightarrow> client \<Rightarrow> (int \<times> byte list option) option \<times> client" where
  "attempt_send blake3 msg total_replicas 0 cl = (None, cl)"
| "attempt_send blake3 msg total_replicas (Suc attempts) cl =
     (let target_id = cl_current_target_replica_id cl
      in case om_find (cl_clients cl) target_id of
           Some t \<Rightarrow>
             if is_connected t then
               (Some (target_id, serialize blake3 msg),
                case serialize blake3 msg of
                  Some data \<Rightarrow> cl\<lparr>cl_clients := om_assign target_id (cl_send data t) (cl_clients cl)\<rparr>
                | None \<Rightarrow> cl)
             else attempt_send blake3 msg total_replicas attempts (advance_to_next_replica total_replicas cl)
         | None \<Rightarrow> attempt_send blake3 msg total_replicas attempts (advance_to_next_replica total_replicas cl))"

text \<open>The result is the replica sent to and the bytes (\<open>None\<close>: all replicas are down).\<close>

definition client_send_message ::
    "(byte list \<Rightarrow> byte list) \<Rightarrow> vsr_message \<Rightarrow> int \<Rightarrow> client \<Rightarrow> (int \<times> byte list option) option \<times> client" where
  "client_send_message blake3 msg total_replicas cl =
     (let msg' = msg\<lparr>msg_header := (msg_header msg)\<lparr>h_client := self_client_id,
                     h_request := cl_next_request_number cl\<rparr>\<rparr>;
          cl' = cl\<lparr>cl_next_request_number := cl_next_request_number cl + 1\<rparr>
      in attempt_send blake3 msg' total_replicas (nat total_replicas) cl')"

section \<open>The command line\<close>

datatype client_action =
    Quit
  | Ignore_line
  | Show_help
  | Show_status
  | Usage string
  | Unknown_command string
  | Send vsr_message

definition handle_line :: "string \<Rightarrow> client_action" where
  "handle_line line =
     (if line = ''exit'' \<or> line = ''quit'' then Quit
      else
        let (command, ss) = extract_word line
        in if command = [] then Ignore_line
           else if command = ''help'' then Show_help
           else if command = ''status'' then Show_status
           else if command = ''ping'' then
             Send (new_message\<lparr>msg_header := zero_header\<lparr>h_command := command_ping\<rparr>\<rparr>)
           else if command = ''get'' then
             let (key, _) = extract_word ss
             in if key = [] then Usage ''Usage: get <key>''
                else Send \<lparr>msg_header = zero_header\<lparr>h_command := command_request, h_operation := operation_get\<rparr>,
                           msg_payload = bytes_of_string key\<rparr>
           else if command = ''set'' then
             let (key, ss1) = extract_word ss; (val, _) = extract_word ss1
             in if key = [] \<or> val = [] then Usage ''Usage: set <key> <value>''
                else Send \<lparr>msg_header = zero_header\<lparr>h_command := command_request, h_operation := operation_set\<rparr>,
                           msg_payload = bytes_of_string (key @ '' '' @ val)\<rparr>
           else Unknown_command command)"

text \<open>What the client shows of the bytes of one read; \<open>None\<close> is the failure message.\<close>

definition client_on_message :: "(byte list \<Rightarrow> byte list) \<Rightarrow> byte list \<Rightarrow> string option" where
  "client_on_message blake3 data =
     (case deserialize blake3 data new_message of
        (True, msg) \<Rightarrow> Some (string_of_bytes (msg_payload msg))
      | (False, _) \<Rightarrow> None)"

definition status_lines :: "client \<Rightarrow> (int \<times> bool) list" where
  "status_lines cl = map (\<lambda>(i, host, port).
     (i, case om_find (cl_clients cl) i of Some t \<Rightarrow> is_connected t | None \<Rightarrow> False)) CLUSTER_CONFIG"

section \<open>The console\<close>

text \<open>What the input thread writes to the console, as the strings in order, both streams together.\<close>

definition newline :: string where "newline = [CHR 0x0A]"

definition help_text :: string where
  "help_text = newline @ ''Available commands:'' @ newline
     @ ''  status           - Show connection status and current target.'' @ newline
     @ ''  ping             - Send a ping to the current target replica.'' @ newline
     @ ''  get <key>        - Request a key from the cluster.'' @ newline
     @ ''  set <key> <val>  - Set a key-value via the cluster.'' @ newline
     @ ''  help             - Show this help message.'' @ newline
     @ ''  exit / quit      - Close the client.'' @ newline @ newline"

definition prompt_text :: string where "prompt_text = ''> ''"

definition status_text :: "client \<Rightarrow> string" where
  "status_text cl = ''--- Client Status ---'' @ newline
     @ ''  Current Target: Replica '' @ to_string (cl_current_target_replica_id cl) @ newline
     @ concat (map (\<lambda>(i, host, port). ''  Replica '' @ to_string i @ '' ('' @ host @ '':'' @ to_string port @ ''): ''
         @ (case om_find (cl_clients cl) i of Some t \<Rightarrow> if is_connected t then ''CONNECTED'' else ''DISCONNECTED''
             | None \<Rightarrow> ''DISCONNECTED'') @ newline) CLUSTER_CONFIG)
     @ ''---------------------'' @ newline"

text \<open>The targets that \<open>send_message\<close> announces as disconnected before it sends or gives up.\<close>

primrec announced :: "int \<Rightarrow> nat \<Rightarrow> client \<Rightarrow> int list" where
  "announced total_replicas 0 cl = []"
| "announced total_replicas (Suc attempts) cl =
     (if (case om_find (cl_clients cl) (cl_current_target_replica_id cl) of Some t \<Rightarrow> is_connected t | None \<Rightarrow> False) then []
      else cl_current_target_replica_id cl # announced total_replicas attempts (advance_to_next_replica total_replicas cl))"

definition failover_text :: "int \<Rightarrow> string" where
  "failover_text i = newline @ ''[FAILOVER] Target '' @ to_string i @ '' is disconnected. Advancing...'' @ newline @ prompt_text"

definition all_down_text :: string where
  "all_down_text = newline @ ''[ERROR] Could not send message. All replicas appear to be down.'' @ newline @ prompt_text"

definition perform :: "(byte list \<Rightarrow> byte list) \<Rightarrow> client_action \<Rightarrow> client \<Rightarrow> string list \<times> client" where
  "perform blake3 act cl =
     (let total_replicas = int (length CLUSTER_CONFIG)
      in case act of
           Send msg \<Rightarrow>
             (case client_send_message blake3 msg total_replicas cl of
                (sent, cl') \<Rightarrow>
                  (map failover_text (announced total_replicas (nat total_replicas) cl) @
                     (if sent = None then [all_down_text] else []), cl'))
         | Show_help \<Rightarrow> ([help_text], cl)
         | Show_status \<Rightarrow> ([status_text cl], cl)
         | Usage u \<Rightarrow> ([u @ newline], cl)
         | Unknown_command c \<Rightarrow>
             ([''Unknown command: '' @ [CHR 0x27] @ c @ [CHR 0x27] @ ''. Type '' @ [CHR 0x27] @ ''help'' @ [CHR 0x27] @
               '' for a list of commands.'' @ newline], cl)
         | _ \<Rightarrow> ([], cl))"

text \<open>The lines of standard input, until it ends or the user leaves.\<close>

primrec input_loop :: "(byte list \<Rightarrow> byte list) \<Rightarrow> string list \<Rightarrow> client \<Rightarrow> string list \<times> client" where
  "input_loop blake3 [] cl = ([prompt_text], cl)"
| "input_loop blake3 (line # lines) cl =
     (if handle_line line = Quit then ([prompt_text], cl)
      else case perform blake3 (handle_line line) cl of
             (out, cl1) \<Rightarrow> (case input_loop blake3 lines cl1 of (outs, cl2) \<Rightarrow> (prompt_text # out @ outs, cl2)))"

definition handle_user_input :: "(byte list \<Rightarrow> byte list) \<Rightarrow> string list \<Rightarrow> client \<Rightarrow> string list \<times> client" where
  "handle_user_input blake3 lines cl = (case input_loop blake3 lines cl of (outs, cl') \<Rightarrow> (help_text # outs, cl'))"

section \<open>Failover\<close>

definition target_up :: "client \<Rightarrow> int \<Rightarrow> bool" where
  "target_up cl i \<longleftrightarrow> (\<exists>t. om_find (cl_clients cl) i = Some t \<and> is_connected t)"

lemma smod_pos: "0 \<le> a \<Longrightarrow> 0 < b \<Longrightarrow> a smod b = a mod (b :: int)"
  by (cases "a = 0") (simp_all add: smod_int_alt_def)

lemma advance_simps [simp]:
  "cl_clients (advance_to_next_replica n cl) = cl_clients cl"
  "cl_next_request_number (advance_to_next_replica n cl) = cl_next_request_number cl"
  "target_up (advance_to_next_replica n cl) = target_up cl"
  by (simp_all add: advance_to_next_replica_def target_up_def fun_eq_iff)

lemma advance_target:
  assumes "0 \<le> cl_current_target_replica_id cl" and "0 < n"
  shows "cl_current_target_replica_id (advance_to_next_replica n cl) = (cl_current_target_replica_id cl + 1) mod n"
  using assms by (simp add: advance_to_next_replica_def smod_pos)

lemma attempt_send_up:
  assumes "0 \<le> cl_current_target_replica_id cl" and "cl_current_target_replica_id cl < n" and "j < attempts"
    and "target_up cl ((cl_current_target_replica_id cl + int j) mod n)"
    and "\<forall>k < j. \<not> target_up cl ((cl_current_target_replica_id cl + int k) mod n)"
  shows "fst (attempt_send blake3 msg n attempts cl) =
       Some ((cl_current_target_replica_id cl + int j) mod n, serialize blake3 msg) \<and>
     cl_current_target_replica_id (snd (attempt_send blake3 msg n attempts cl)) =
       (cl_current_target_replica_id cl + int j) mod n"
  using assms
proof (induction attempts arbitrary: cl j)
  case (Suc attempts)
  let ?t = "cl_current_target_replica_id cl"
  have n: "0 < n" using Suc.prems(1,2) by simp
  show ?case
  proof (cases j)
    case 0
    then obtain t where "om_find (cl_clients cl) ?t = Some t" "is_connected t"
      using Suc.prems(1,2,4) by (auto simp: target_up_def)
    with 0 Suc.prems(1,2) show ?thesis
      by (simp add: Let_def split: option.splits)
  next
    case (Suc k)
    let ?cl = "advance_to_next_replica n cl"
    have shift: "((?t + 1) mod n + int i) mod n = (?t + int (Suc i)) mod n" for i
      by (simp add: mod_add_left_eq add.assoc)
    have target: "cl_current_target_replica_id ?cl = (?t + 1) mod n"
      by (rule advance_target [OF Suc.prems(1) n])
    have down: "\<not> target_up cl ?t"
      using Suc.prems(1,2) Suc.prems(5) [rule_format, of 0] Suc by simp
    have "fst (attempt_send blake3 msg n attempts ?cl) = Some ((?t + int j) mod n, serialize blake3 msg) \<and>
        cl_current_target_replica_id (snd (attempt_send blake3 msg n attempts ?cl)) = (?t + int j) mod n"
    proof -
      have up: "target_up ?cl ((cl_current_target_replica_id ?cl + int k) mod n)"
        using Suc.prems(4) Suc by (simp only: target shift advance_simps)
      have before: "\<forall>i<k. \<not> target_up ?cl ((cl_current_target_replica_id ?cl + int i) mod n)"
        using Suc.prems(5) Suc by (auto simp only: target shift advance_simps)
      from Suc.IH [OF _ _ _ up before] n Suc.prems(3) Suc show ?thesis
        by (simp only: target shift) simp
    qed
    with down show ?thesis
      by (auto simp: Let_def target_up_def split: option.splits)
  qed
qed simp

lemma attempt_send_down:
  assumes "0 \<le> cl_current_target_replica_id cl" and "cl_current_target_replica_id cl < n"
    and "\<forall>k < attempts. \<not> target_up cl ((cl_current_target_replica_id cl + int k) mod n)"
  shows "fst (attempt_send blake3 msg n attempts cl) = None \<and>
     cl_clients (snd (attempt_send blake3 msg n attempts cl)) = cl_clients cl \<and>
     cl_current_target_replica_id (snd (attempt_send blake3 msg n attempts cl)) =
       (cl_current_target_replica_id cl + int attempts) mod n"
  using assms
proof (induction attempts arbitrary: cl)
  case (Suc attempts)
  let ?t = "cl_current_target_replica_id cl"
  let ?cl = "advance_to_next_replica n cl"
  have n: "0 < n" using Suc.prems(1,2) by simp
  have shift: "((?t + 1) mod n + int i) mod n = (?t + int (Suc i)) mod n" for i
    by (simp add: mod_add_left_eq add.assoc)
  have target: "cl_current_target_replica_id ?cl = (?t + 1) mod n"
    by (rule advance_target [OF Suc.prems(1) n])
  have down: "\<not> target_up cl ?t"
    using Suc.prems(1,2) Suc.prems(3) [rule_format, of 0] by simp
  have "\<forall>i<attempts. \<not> target_up ?cl ((cl_current_target_replica_id ?cl + int i) mod n)"
    using Suc.prems(3) by (auto simp only: target shift advance_simps)
  from Suc.IH [OF _ _ this] n have "fst (attempt_send blake3 msg n attempts ?cl) = None \<and>
      cl_clients (snd (attempt_send blake3 msg n attempts ?cl)) = cl_clients cl \<and>
      cl_current_target_replica_id (snd (attempt_send blake3 msg n attempts ?cl)) = (?t + int (Suc attempts)) mod n"
    by (simp only: target shift advance_simps) simp
  with down show ?case
    by (auto simp: Let_def target_up_def split: option.splits)
qed simp

lemma attempt_send_number [simp]:
  "cl_next_request_number (snd (attempt_send blake3 msg n attempts cl)) = cl_next_request_number cl"
  by (induction attempts arbitrary: cl) (simp_all add: Let_def split: option.splits)

text \<open>Every message of a session has a request number of its own: each command that sends uses up one.\<close>

definition sends_message :: "string \<Rightarrow> bool" where
  "sends_message line \<longleftrightarrow> (case handle_line line of Send msg \<Rightarrow> True | _ \<Rightarrow> False)"

lemma session_numbers:
  "cl_next_request_number (snd (handle_user_input blake3 lines cl)) = cl_next_request_number cl +
     of_nat (length (filter sends_message (takeWhile (\<lambda>line. handle_line line \<noteq> Quit) lines)))"
proof -
  have "cl_next_request_number (snd (perform blake3 (handle_line line) cl)) =
      cl_next_request_number cl + (if sends_message line then 1 else 0)" for line cl
  proof (cases "handle_line line")
    case (Send msg)
    have "cl_next_request_number (snd (client_send_message blake3 msg n cl)) = cl_next_request_number cl + 1" for n
      by (simp add: client_send_message_def Let_def)
    with Send show ?thesis
      by (simp add: perform_def sends_message_def Let_def split: prod.splits) (metis snd_conv)
  qed (simp_all add: perform_def sends_message_def)
  then have "cl_next_request_number (snd (input_loop blake3 lines cl)) = cl_next_request_number cl +
      of_nat (length (filter sends_message (takeWhile (\<lambda>line. handle_line line \<noteq> Quit) lines)))"
    by (induction lines arbitrary: cl) (simp_all add: case_prod_beta add.assoc)
  then show ?thesis
    by (simp add: handle_user_input_def case_prod_beta)
qed

section \<open>Properties of the client\<close>

text \<open>
  Failover. With replicas numbered from 0 to \<open>n - 1\<close> the client sends a message to the first
  connected replica at or after its current target, in cyclic order, and that replica becomes
  the target; the message is not sent, and the target is unchanged, exactly when no replica is
  connected. Every call uses up one request number.
\<close>
theorem failover_finds_connected_replica:
  fixes cl :: client and n :: nat and msg :: vsr_message and blake3 :: "byte list \<Rightarrow> byte list"
  defines "t \<equiv> cl_current_target_replica_id cl"
  defines "up \<equiv> \<lambda>j. \<exists>c. om_find (cl_clients cl) ((t + int j) mod int n) = Some c \<and> is_connected c"
  defines "out \<equiv> client_send_message blake3 msg (int n) cl"
  defines "msg' \<equiv> msg\<lparr>msg_header := (msg_header msg)\<lparr>h_client := self_client_id,
      h_request := cl_next_request_number cl\<rparr>\<rparr>"
  assumes "0 \<le> t" and "t < int n"
  shows "(\<forall>j < n. up j \<longrightarrow> (\<forall>k < j. \<not> up k) \<longrightarrow>
        fst out = Some ((t + int j) mod int n, serialize blake3 msg') \<and>
        cl_current_target_replica_id (snd out) = (t + int j) mod int n) \<and>
     ((\<forall>j < n. \<not> up j) \<longrightarrow> fst out = None \<and> cl_current_target_replica_id (snd out) = t)"
proof -
  define cl' where "cl' = cl\<lparr>cl_next_request_number := cl_next_request_number cl + 1\<rparr>"
  have out: "out = attempt_send blake3 msg' (int n) n cl'"
    by (simp add: out_def client_send_message_def msg'_def cl'_def Let_def)
  have up: "up j = target_up cl' ((cl_current_target_replica_id cl' + int j) mod int n)" for j
    by (simp add: up_def target_up_def cl'_def t_def)
  have t: "cl_current_target_replica_id cl' = t" "0 \<le> t" "t < int n"
    using assms(5,6) by (simp_all add: cl'_def t_def)
  show ?thesis
  proof (intro conjI allI impI)
    fix j assume "j < n" "up j" "\<forall>k<j. \<not> up k"
    then show "fst out = Some ((t + int j) mod int n, serialize blake3 msg')"
      and "cl_current_target_replica_id (snd out) = (t + int j) mod int n"
      using attempt_send_up [of cl' "int n" j n blake3 msg'] t unfolding out up by simp_all
  next
    assume "\<forall>j<n. \<not> up j"
    then show "fst out = None" and "cl_current_target_replica_id (snd out) = t"
      using attempt_send_down [of cl' "int n" n blake3 msg'] t unfolding out up by simp_all
  qed
qed

definition sample_client :: client where
  "sample_client = \<lparr>cl_clients = [(0, new_TcpClient ''localhost'' 8080),
      (1, (new_TcpClient ''localhost'' 8081)\<lparr>tcl_state := CL_CONNECTED, tcl_connection := Some 3\<rparr>)],
     cl_current_target_replica_id = 0, cl_next_request_number = 1\<rparr>"

theorem failover_finds_connected_replica_witness:
  "cl_current_target_replica_id (snd (client_send_message (\<lambda>_. []) new_message (int 2) sample_client)) = 1"
proof -
  have "\<forall>k < 1. \<not> (\<exists>c. om_find (cl_clients sample_client) ((0 + int k) mod int 2) = Some c \<and> is_connected c)"
    "\<exists>c. om_find (cl_clients sample_client) ((0 + int 1) mod int 2) = Some c \<and> is_connected c"
    by (simp_all add: sample_client_def om_find_def new_TcpClient_def is_connected_def)
  moreover have "cl_current_target_replica_id sample_client = 0"
    by (simp add: sample_client_def)
  ultimately show ?thesis
    using failover_finds_connected_replica [of sample_client 2 "\<lambda>_. []" new_message,
        THEN conjunct1, THEN spec, of 1] by simp
qed

text \<open>
  C38: what the user types is what the store sees. For any key and value without whitespace,
  \<open>set key value\<close> becomes a request whose execution by a replica binds the key to the value, and
  \<open>get key\<close> a request whose execution returns the value bound to the key.
\<close>
theorem typed_set_then_get:
  assumes "is_word k" and "is_word v"
  shows "\<exists>ms mg. handle_line (''set '' @ k @ '' '' @ v) = Send ms \<and> handle_line (''get '' @ k) = Send mg \<and>
     h_command (msg_header ms) = command_request \<and> h_command (msg_header mg) = command_request \<and>
     apply_operation (h_operation (msg_header ms)) (msg_payload ms) kv = (kv(k \<mapsto> v), ''SET '' @ k @ ''='' @ v) \<and>
     apply_operation (h_operation (msg_header mg)) (msg_payload mg) (kv(k \<mapsto> v)) = (kv(k \<mapsto> v), v)"
proof -
  have kw: "is_word ''set''" "is_word ''get''"
    by (simp_all add: is_word_def is_space_def)
  have ne: "k \<noteq> []" "v \<noteq> []"
    using assms by (simp_all add: is_word_def)
  have cmd: "extract_word (''set '' @ k @ '' '' @ v) = (''set'', '' '' @ k @ '' '' @ v)"
    "extract_word (''get '' @ k) = (''get'', '' '' @ k)"
    using extract_word_first [OF kw(1), of "'' '' @ k @ '' '' @ v"] extract_word_first [OF kw(2), of "'' '' @ k"]
    by simp_all
  have keyv: "extract_word (k @ '' '' @ v) = (k, '' '' @ v)" "extract_word k = (k, [])" "extract_word v = (v, [])"
    using extract_word_first [OF assms(1), of "'' '' @ v"] extract_word_first [OF assms(1), of "[]"]
      extract_word_first [OF assms(2), of "[]"] by simp_all
  have skip: "extract_word ('' '' @ s) = extract_word s" for s
    by (simp add: extract_word_blank)
  define ms where "ms = \<lparr>msg_header = zero_header\<lparr>h_command := command_request, h_operation := operation_set\<rparr>,
      msg_payload = bytes_of_string (k @ '' '' @ v)\<rparr>"
  define mg where "mg = \<lparr>msg_header = zero_header\<lparr>h_command := command_request, h_operation := operation_get\<rparr>,
      msg_payload = bytes_of_string k\<rparr>"
  have "handle_line (''set '' @ k @ '' '' @ v) = Send ms"
    unfolding handle_line_def cmd Let_def prod.case skip keyv by (simp add: ms_def ne)
  moreover have "handle_line (''get '' @ k) = Send mg"
    unfolding handle_line_def cmd Let_def prod.case skip keyv by (simp add: mg_def ne)
  moreover have "apply_operation (h_operation (msg_header ms)) (msg_payload ms) kv = (kv(k \<mapsto> v), ''SET '' @ k @ ''='' @ v)"
    unfolding apply_operation_def ms_def vsr_message.select_convs string_of_bytes_of_string Let_def
    by (simp add: keyv [simplified] skip [simplified])
  moreover have "apply_operation (h_operation (msg_header mg)) (msg_payload mg) (kv(k \<mapsto> v)) = (kv(k \<mapsto> v), v)"
    by (simp add: apply_operation_def mg_def keyv)
  ultimately show ?thesis
    by (intro exI [of _ ms] exI [of _ mg]) (simp add: ms_def mg_def)
qed

theorem typed_set_then_get_witness:
  "\<exists>ms. handle_line (''set '' @ ''k'' @ '' '' @ ''v'') = Send ms \<and>
     apply_operation (h_operation (msg_header ms)) (msg_payload ms) Map.empty = ([''k'' \<mapsto> ''v''], ''SET '' @ ''k'' @ ''='' @ ''v'')"
proof -
  have "is_word ''k''" "is_word ''v''"
    by (simp_all add: is_word_def is_space_def)
  from typed_set_then_get [OF this, of Map.empty] show ?thesis by blast
qed

end
