(* ===== verification/Client_Session.thy ===== *)
theory Client_Session
  imports Client Protocol_Handler Replica_Liveness
begin

text \<open>
  Sessions of the client and what the primary makes of them: the states a started client goes through
  with the byte strings it has sent, and the path of such a byte string through the framing layer and the message
  queue of a replica.
\<close>

section \<open>Sessions\<close>

text \<open>
  \<open>client_session blake3 k cl sent\<close>: since its start the client has taken \<open>k\<close> commands that send, is now in state \<open>cl\<close>, and
  has handed over the byte strings \<open>sent\<close>. Its connections change between the commands; a command that finds all
  replicas down uses up its number too.
\<close>

inductive client_session :: "(byte list \<Rightarrow> byte list) \<Rightarrow> nat \<Rightarrow> client \<Rightarrow> byte list list \<Rightarrow> bool" for blake3 where
  start: "client_session blake3 0 start_clients []"
| network: "client_session blake3 k cl sent \<Longrightarrow> om_find (cl_clients cl) i = Some t \<Longrightarrow> client_step t t' \<Longrightarrow>
     client_session blake3 k (cl\<lparr>cl_clients := om_assign i t' (cl_clients cl)\<rparr>) sent"
| command: "client_session blake3 k cl sent \<Longrightarrow> handle_line line = Send msg \<Longrightarrow>
     client_send_message blake3 msg (int (length CLUSTER_CONFIG)) cl = (Some (i, Some data), cl') \<Longrightarrow>
     client_session blake3 (Suc k) cl' (sent @ [data])"
| all_down: "client_session blake3 k cl sent \<Longrightarrow> handle_line line = Send msg \<Longrightarrow>
     client_send_message blake3 msg (int (length CLUSTER_CONFIG)) cl = (None, cl') \<Longrightarrow>
     client_session blake3 (Suc k) cl' sent"

text \<open>What a replica does with the bytes of one message from a client.\<close>

definition serve :: "(byte list \<Rightarrow> byte list) \<Rightarrow> (nat \<Rightarrow> environment) \<Rightarrow> connection \<Rightarrow> byte list \<Rightarrow> replica \<Rightarrow> replica" where
  "serve blake3 envs c data r =
     fold (\<lambda>m r. process_message_queue envs (enqueue_message (Some c) m r)) (fst (frame_loop blake3 data)) r"

primrec serve_all :: "(byte list \<Rightarrow> byte list) \<Rightarrow> (nat \<Rightarrow> nat \<Rightarrow> environment) \<Rightarrow> connection \<Rightarrow> byte list list \<Rightarrow> replica \<Rightarrow> replica" where
  "serve_all blake3 es c [] r = r"
| "serve_all blake3 es c (data # datas) r = serve_all blake3 (\<lambda>i. es (Suc i)) c datas (serve blake3 (es 0) c data r)"

section \<open>The messages of a session\<close>

definition client_request :: "nat \<Rightarrow> vsr_message \<Rightarrow> bool" where
  "client_request k m \<longleftrightarrow> wf_message m \<and> h_client (msg_header m) = self_client_id \<and>
     (\<exists>j. 1 \<le> j \<and> j \<le> k \<and> h_request (msg_header m) = of_nat j) \<and> h_command (msg_header m) \<in> {command_request, command_ping}"

lemma handle_line_message:
  "handle_line line = Send msg \<Longrightarrow> wf_message msg \<and> h_command (msg_header msg) \<in> {command_request, command_ping}"
  by (auto simp: handle_line_def wf_message_def wf_header_def zero_header_def new_message_def Let_def
      split: if_splits prod.splits)

lemma attempt_send_data: "fst (attempt_send blake3 msg n attempts cl) = Some (i, data) \<Longrightarrow> data = serialize blake3 msg"
  by (induction attempts arbitrary: cl) (auto simp: Let_def split: option.splits if_splits)

lemma send_message_data:
  assumes "client_send_message blake3 msg n cl = (Some (i, data), cl')"
  shows "data = serialize blake3 (msg\<lparr>msg_header := (msg_header msg)\<lparr>h_client := self_client_id,
      h_request := cl_next_request_number cl\<rparr>\<rparr>)"
  using assms attempt_send_data by (simp add: client_send_message_def Let_def) (metis fst_conv)

lemma send_message_number: "cl_next_request_number (snd (client_send_message blake3 msg n cl)) = cl_next_request_number cl + 1"
  by (simp add: client_send_message_def Let_def)

lemma client_request_later: "client_request k m \<Longrightarrow> client_request (Suc k) m"
  by (auto simp: client_request_def intro: le_SucI)

lemma session_messages:
  assumes "client_session blake3 k cl sent"
  shows "cl_next_request_number cl = of_nat (Suc k) \<and>
    (\<forall>data \<in> set sent. \<exists>m. client_request k m \<and> serialize blake3 m = Some data)"
  using assms
proof (induction rule: client_session.induct)
  case (command k cl sent line msg i data cl')
  let ?m = "msg\<lparr>msg_header := (msg_header msg)\<lparr>h_client := self_client_id, h_request := of_nat (Suc k)\<rparr>\<rparr>"
  have "serialize blake3 ?m = Some data"
    using send_message_data [OF command.hyps(3)] command.IH by simp
  moreover have "client_request (Suc k) ?m"
    using handle_line_message [OF command.hyps(2)]
    by (auto simp: client_request_def wf_message_def wf_header_def intro: exI [of _ "Suc k"])
  moreover have "cl_next_request_number cl' = of_nat (Suc (Suc k))"
    using send_message_number [of blake3 msg "int (length CLUSTER_CONFIG)" cl] command.hyps(3) command.IH by simp
  ultimately show ?case
    using command.IH client_request_later by (simp del: of_nat_Suc) blast
next
  case (all_down k cl sent line msg cl')
  have "cl_next_request_number cl' = of_nat (Suc (Suc k))"
    using send_message_number [of blake3 msg "int (length CLUSTER_CONFIG)" cl] all_down.hyps(3) all_down.IH by simp
  with all_down.IH client_request_later show ?case by blast
qed (simp_all add: start_clients_def)

lemma unat_u32_less: "unat (w :: u32) < 2 ^ 32"
  using unsigned_less [of w] by simp

lemma serialize_Some: "serialize blake3 m = Some data \<Longrightarrow> 128 + length (msg_payload m) < 2 ^ 32"
proof -
  assume "serialize blake3 m = Some data"
  then have "128 + length (msg_payload m) \<le> unat (h_size (msg_header (prepared_message blake3 m)))"
    by (simp add: serialize_def Let_def split: if_splits)
  also have "\<dots> < 2 ^ 32"
    using unat_u32_less by simp
  finally show ?thesis .
qed

lemma frame_one:
  assumes "serialize blake3 m = Some data" and "wf_message m"
  shows "fst (frame_loop blake3 data) \<in> {[prepared_message blake3 m], []}"
proof (cases "128 + length (msg_payload m) \<le> 65536")
  case True
  with frame_messages [of "[m]" blake3] assms show ?thesis by simp
next
  case False
  have "frame_loop blake3 data = ([], None)"
    using frame_oversize [OF assms(2) _ serialize_Some [OF assms(1)], of blake3] False assms(1) by simp
  then show ?thesis by simp
qed

section \<open>The primary\<close>

definition session_number :: "replica \<Rightarrow> u32" where
  "session_number r = ct_request_number (om_index new_client_table_entry (st_client_table (r_state r)) self_client_id)"

definition idle_primary :: "replica \<Rightarrow> bool" where
  "idle_primary r \<longleftrightarrow> st_status (r_state r) = NORMAL \<and> is_primary (r_state r) \<and> r_message_queue r = []"

lemma process_one:
  fixes r :: replica and m :: vsr_message and c :: connection
  assumes "idle_primary r" and "h_command (msg_header m) \<in> {command_request, command_ping}"
  defines "q \<equiv> (enqueue_message (Some c) m r)\<lparr>r_message_queue := []\<rparr>"
  shows "process_message_queue envs (enqueue_message (Some c) m r) =
    (if is_stale (r_state r) m then q else dispatch (envs 0) \<lparr>in_connection = Some c, in_message = m\<rparr> q)"
proof -
  have empty: "r_message_queue r' = [] \<Longrightarrow> drain_queue envs i r' p = (i, r', p)" for i r' p
    by (simp add: drain_queue.simps [of envs i r' p])
  have final: "r_message_queue r' = [] \<Longrightarrow> process_loop envs i (resolve_stuck env r') = r'" for i r' env
    by (simp add: process_loop.simps [of envs i r'] empty resolve_stuck_def)
  have "can_process (r_state r) \<lparr>in_connection = Some c, in_message = m\<rparr>"
    using assms(1,2) by (auto simp: can_process_def check_can_process_request_def idle_primary_def)
  moreover have "r_state (enqueue_message (Some c) m r) = r_state r"
    "r_message_queue (enqueue_message (Some c) m r) = [\<lparr>in_connection = Some c, in_message = m\<rparr>]"
    using assms(1) by (simp_all add: enqueue_message_def idle_primary_def)
  ultimately show ?thesis
    by (simp add: q_def process_message_queue_def process_loop.simps [of envs 0 "enqueue_message (Some c) m r"]
        drain_queue.simps [of envs 0 "enqueue_message (Some c) m r"] empty final)
qed

text \<open>A request raises the number of its client's session to its own at least.\<close>

lemma serve_request:
  assumes "idle_primary r" and "h_command (msg_header m) = command_request" and "h_client (msg_header m) = self_client_id"
    and "fst (frame_loop blake3 data) = [m]"
  shows "idle_primary (serve blake3 envs c data r)" and "h_request (msg_header m) \<le> session_number (serve blake3 envs c data r)"
proof -
  have r': "serve blake3 envs c data r = handle_request \<lparr>in_connection = Some c, in_message = m\<rparr>
      ((enqueue_message (Some c) m r)\<lparr>r_message_queue := []\<rparr>)"
    using process_one [OF assms(1), of m envs c] assms(2,4) by (simp add: serve_def is_stale_def dispatch_def)
  show "idle_primary (serve blake3 envs c data r)"
    unfolding r' using assms(1)
    by (simp add: handle_request_def idle_primary_def enqueue_message_def is_primary_def get_primary_id_def Let_def)
  show "h_request (msg_header m) \<le> session_number (serve blake3 envs c data r)"
    unfolding r' session_number_def using assms(3)
    by (auto simp: handle_request_def enqueue_message_def om_index_def Let_def)
qed

text \<open>What a message below the number of the session changes: nothing; the only answers are Pongs.\<close>

definition unserved :: "replica \<Rightarrow> replica \<Rightarrow> bool" where
  "unserved r r' \<longleftrightarrow> idle_primary r' \<and> session_number r' = session_number r \<and> st_log (r_state r') = st_log (r_state r) \<and>
     st_op (r_state r') = st_op (r_state r) \<and> st_state_machine (r_state r') = st_state_machine (r_state r) \<and>
     (\<exists>acts. r_outbox r' = r_outbox r @ acts \<and> (\<forall>a \<in> set acts. a = Post_process_queue \<or>
        (\<exists>conn m. a = Send_message conn m \<and> h_command (msg_header m) = command_pong)))"

lemma unserved_refl: "idle_primary r \<Longrightarrow> unserved r r"
  by (simp add: unserved_def)

lemma unserved_trans: "unserved r r' \<Longrightarrow> unserved r' r'' \<Longrightarrow> unserved r r''"
  by (auto simp: unserved_def)

lemma old_message_unserved:
  assumes "idle_primary r" and "client_request k m" and "of_nat k < session_number r" and "k < 2 ^ 32"
  shows "unserved r (process_message_queue envs (enqueue_message (Some c) (prepared_message blake3 m) r))"
proof -
  let ?m = "prepared_message blake3 m"
  let ?in = "\<lparr>in_connection = Some c, in_message = ?m\<rparr>" and ?q = "(enqueue_message (Some c) ?m r)\<lparr>r_message_queue := []\<rparr>"
  obtain j where j: "j \<le> k" "h_request (msg_header m) = of_nat j"
    using assms(2) by (auto simp: client_request_def)
  have m: "h_client (msg_header m) = self_client_id" "h_command (msg_header m) \<in> {command_request, command_ping}"
    using assms(2) by (auto simp: client_request_def)
  have "h_request (msg_header m) \<le> of_nat k"
    using j assms(4) by (simp add: word_le_nat_alt unat_of_nat_small)
  then have old: "h_request (msg_header ?m) < session_number ?q"
    using assms(3) by (simp add: session_number_def enqueue_message_def)
  have eq: "process_message_queue envs (enqueue_message (Some c) ?m r) =
      (if is_stale (r_state r) ?m then ?q else dispatch (envs 0) ?in ?q)"
    using m(2) by (intro process_one [OF assms(1)]) simp
  have q: "unserved r ?q"
    using assms(1) by (simp add: unserved_def idle_primary_def session_number_def enqueue_message_def)
  moreover have "unserved ?q (dispatch (envs 0) ?in ?q)"
  proof (cases "h_command (msg_header m) = command_request")
    case True
    then have "dispatch (envs 0) ?in ?q = set_state (\<lambda>s. s\<lparr>st_client_table := om_assign self_client_id
        (om_index new_client_table_entry (st_client_table s) self_client_id) (st_client_table s)\<rparr>) ?q"
      using old m(1) by (simp add: dispatch_def handle_request_def session_number_def enqueue_message_def)
    then show ?thesis
      using assms(1)
      by (simp add: unserved_def idle_primary_def session_number_def enqueue_message_def om_index_def is_primary_def get_primary_id_def)
  next
    case False
    with m(2) q show ?thesis
      by (simp add: dispatch_def handle_ping_def unserved_def session_number_def idle_primary_def Let_def)
  qed
  ultimately show ?thesis
    unfolding eq using unserved_trans by auto
qed

lemma serve_unserved:
  assumes "idle_primary r" and "client_request k m" and "serialize blake3 m = Some data" and "of_nat k < session_number r" and "k < 2 ^ 32"
  shows "unserved r (serve blake3 envs c data r)"
proof -
  have "fst (frame_loop blake3 data) \<in> {[prepared_message blake3 m], []}"
    using assms(2,3) by (intro frame_one) (simp_all add: client_request_def)
  then show ?thesis
    using old_message_unserved [OF assms(1,2,4,5)] unserved_refl [OF assms(1)] by (auto simp: serve_def)
qed

lemma serve_all_unserved:
  assumes "\<forall>data \<in> set datas. \<exists>m. client_request k m \<and> serialize blake3 m = Some data"
    and "idle_primary r" and "of_nat k < session_number r" and "k < 2 ^ 32"
  shows "unserved r (serve_all blake3 es c datas r)"
  using assms(1-3)
proof (induction datas arbitrary: es r)
  case (Cons data datas)
  have "unserved r (serve blake3 (es 0) c data r)"
    using Cons.prems serve_unserved [OF Cons.prems(2) _ _ Cons.prems(3) assms(4)] by fastforce
  moreover from this have "unserved (serve blake3 (es 0) c data r) (serve_all blake3 (\<lambda>i. es (Suc i)) c datas (serve blake3 (es 0) c data r))"
    using Cons.prems by (intro Cons.IH) (simp_all add: unserved_def)
  ultimately show ?case
    using unserved_trans by auto
qed (simp add: unserved_refl)

section \<open>A second session\<close>

text \<open>
  C40: a client that is started again is not served until it has caught up with its last session. Suppose an
  idle primary gets the bytes of a request that some session of the client has sent, under number \<open>n\<close>. Then from any later session
  whose commands so far are fewer than \<open>n\<close> the primary serves nothing: after taking in everything that session has
  sent, it has logged and executed nothing more, and the only messages it has sent back are Pongs. All clients
  use one client id and number their requests from 1.
\<close>
theorem second_session_not_served:
  fixes blake3 :: "byte list \<Rightarrow> byte list" and r :: replica and envs :: "nat \<Rightarrow> environment" and c :: connection and data :: "byte list"
  defines "r1 \<equiv> serve blake3 envs c data r"
  assumes "client_session blake3 k1 cl1 sent1" and "data \<in> set sent1" and "fst (frame_loop blake3 data) = [m]"
    and "h_command (msg_header m) = command_request"
    and "st_status (r_state r) = NORMAL" and "is_primary (r_state r)" and "r_message_queue r = []"
    and "client_session blake3 k2 cl2 sent2" and "k2 < unat (h_request (msg_header m))"
  shows "st_log (r_state (serve_all blake3 es d sent2 r1)) = st_log (r_state r1) \<and>
    st_state_machine (r_state (serve_all blake3 es d sent2 r1)) = st_state_machine (r_state r1) \<and>
    (\<exists>acts. r_outbox (serve_all blake3 es d sent2 r1) = r_outbox r1 @ acts \<and> (\<forall>a \<in> set acts. a = Post_process_queue \<or>
        (\<exists>conn m. a = Send_message conn m \<and> h_command (msg_header m) = command_pong)))"
proof -
  have idle: "idle_primary r"
    using assms(6-8) by (simp add: idle_primary_def)
  obtain m' where m': "client_request k1 m'" "serialize blake3 m' = Some data"
    using session_messages [OF assms(2)] assms(3) by blast
  then have "m = prepared_message blake3 m'"
    using frame_one [OF m'(2)] assms(4) by (auto simp: client_request_def)
  then have "h_client (msg_header m) = self_client_id"
    using m'(1) by (simp add: client_request_def)
  note first = serve_request [OF idle assms(5) this assms(4), of envs c, folded r1_def]
  have k2: "k2 < 2 ^ 32"
    using assms(10) unat_u32_less [of "h_request (msg_header m)"] by simp
  then have "of_nat k2 < h_request (msg_header m)"
    using assms(10) by (simp add: word_less_nat_alt unat_of_nat_small)
  then have "of_nat k2 < session_number r1"
    using first(2) by (rule less_le_trans)
  from serve_all_unserved [OF session_messages [OF assms(9), THEN conjunct2] first(1) this k2, of es d]
  show ?thesis
    by (simp add: unserved_def)
qed

text \<open>A session on one connected replica, in which \<open>set k v\<close> is typed again and again.\<close>

definition online :: client where
  "online = start_clients\<lparr>cl_clients := om_assign 0
     (the (cl_connect_done 5 0 (the (om_find (cl_clients start_clients) 0)))) (cl_clients start_clients)\<rparr>"

lemma online_target: "cl_current_target_replica_id online = 0" "\<exists>t. om_find (cl_clients online) 0 = Some t \<and> is_connected t"
  by (simp_all add: online_def start_clients_def CLUSTER_CONFIG_def om_find_def connect_def new_TcpClient_def cl_connect_done_def
      cl_start_reading_def is_connected_def cl_call_def)

lemma online_session: "client_session blake3 0 online []"
proof -
  let ?t = "connect (new_TcpClient ''localhost'' 8080)"
  have t: "om_find (cl_clients start_clients) 0 = Some ?t"
    by (simp add: start_clients_def CLUSTER_CONFIG_def om_find_def)
  have "cl_connect_done 5 0 ?t = Some (the (cl_connect_done 5 0 ?t))"
    by (simp add: cl_connect_done_def cl_start_reading_def)
  then have "client_step ?t (the (cl_connect_done 5 0 ?t))"
    by (intro client_step.connected [of _ 5 0]) (simp_all add: connect_def new_TcpClient_def)
  from client_session.network [OF client_session.start t this] show ?thesis
    by (simp add: online_def t)
qed

definition typed :: "u32 \<Rightarrow> vsr_message" where
  "typed n = \<lparr>msg_header = zero_header\<lparr>h_command := command_request, h_operation := operation_set, h_client := self_client_id,
     h_request := n\<rparr>, msg_payload = bytes_of_string ''k v''\<rparr>"

lemma typed_session:
  assumes "client_session blake3 k cl sent" and "cl_current_target_replica_id cl = 0"
    and "\<exists>t. om_find (cl_clients cl) 0 = Some t \<and> is_connected t"
  obtains cl' where "client_session blake3 (Suc k) cl' (sent @ [the (serialize blake3 (typed (of_nat (Suc k))))])"
    "cl_current_target_replica_id cl' = 0" "\<exists>t. om_find (cl_clients cl') 0 = Some t \<and> is_connected t"
proof -
  obtain t where t: "om_find (cl_clients cl) 0 = Some t" "is_connected t"
    using assms(3) by blast
  let ?msg = "\<lparr>msg_header = zero_header\<lparr>h_command := command_request, h_operation := operation_set\<rparr>, msg_payload = bytes_of_string ''k v''\<rparr>"
  have line: "handle_line ''set k v'' = Send ?msg"
    by (simp add: handle_line_def extract_word_def is_space_def Let_def)
  have number: "cl_next_request_number cl = of_nat (Suc k)"
    using session_messages [OF assms(1)] by simp
  have msg: "?msg\<lparr>msg_header := (msg_header ?msg)\<lparr>h_client := self_client_id, h_request := of_nat (Suc k)\<rparr>\<rparr> = typed (of_nat (Suc k))"
    by (simp add: typed_def)
  obtain data where data: "serialize blake3 (typed (of_nat (Suc k))) = Some data"
    by (simp add: serialize_ok typed_def bytes_of_string_def)
  let ?cl = "cl\<lparr>cl_next_request_number := of_nat (Suc k) + 1\<rparr>"
  have "client_send_message blake3 ?msg (int (length CLUSTER_CONFIG)) cl =
      attempt_send blake3 (typed (of_nat (Suc k))) 3 (Suc 2) ?cl"
    unfolding client_send_message_def Let_def number msg by (simp add: CLUSTER_CONFIG_def eval_nat_numeral)
  also have "\<dots> = (Some (0, Some data), ?cl\<lparr>cl_clients := om_assign 0 (cl_send data t) (cl_clients cl)\<rparr>)"
    unfolding attempt_send.simps(2) using assms(2) t data by (simp add: Let_def del: of_nat_Suc attempt_send.simps)
  finally have "client_send_message blake3 ?msg (int (length CLUSTER_CONFIG)) cl =
      (Some (0, Some data), ?cl\<lparr>cl_clients := om_assign 0 (cl_send data t) (cl_clients cl)\<rparr>)" .
  note next_session = client_session.command [OF assms(1) line this]
  show thesis
  proof (rule that)
    show "client_session blake3 (Suc k) (?cl\<lparr>cl_clients := om_assign 0 (cl_send data t) (cl_clients cl)\<rparr>)
        (sent @ [the (serialize blake3 (typed (of_nat (Suc k))))])"
      using next_session unfolding data by simp
  qed (use assms(2) t(2) in \<open>simp_all add: cl_send_def is_connected_def\<close>)
qed

theorem second_session_not_served_witness:
  "\<exists>sent. client_session (\<lambda>_. []) 1 (snd sent) [fst sent] \<and>
     st_log (r_state (serve_all (\<lambda>_. []) (\<lambda>_ _. sample_env 0) 8 [fst sent]
       (serve (\<lambda>_. []) (\<lambda>_. sample_env 0) 7 (the (serialize (\<lambda>_. []) (typed 2))) (new_replica 0 server_cluster_config)))) =
     st_log (r_state (serve (\<lambda>_. []) (\<lambda>_. sample_env 0) 7 (the (serialize (\<lambda>_. []) (typed 2))) (new_replica 0 server_cluster_config)))"
proof -
  let ?d = "\<lambda>n. the (serialize (\<lambda>_. []) (typed n))"
  obtain cl1 where one: "client_session (\<lambda>_. []) 1 cl1 [?d 1]" "cl_current_target_replica_id cl1 = 0"
    "\<exists>t. om_find (cl_clients cl1) 0 = Some t \<and> is_connected t"
    using typed_session [OF online_session online_target, of "\<lambda>_. []"] by auto
  obtain cl2 where two: "client_session (\<lambda>_. []) 2 cl2 [?d 1, ?d 2]"
    using typed_session [OF one] by (auto simp: eval_nat_numeral)
  have "fst (frame_loop (\<lambda>_. []) (?d 2)) = [prepared_message (\<lambda>_. []) (typed 2)]"
    using frame_messages [of "[typed 2]" "\<lambda>_. []"]
    by (simp add: typed_def wf_message_def wf_header_def zero_header_def bytes_of_string_def)
  from second_session_not_served [OF two _ this _ _ _ _ one(1), of "new_replica 0 server_cluster_config"
      "\<lambda>_ _. sample_env 0" 8 "\<lambda>_. sample_env 0" 7]
  have "st_log (r_state (serve_all (\<lambda>_. []) (\<lambda>_ _. sample_env 0) 8 [?d 1]
       (serve (\<lambda>_. []) (\<lambda>_. sample_env 0) 7 (?d 2) (new_replica 0 server_cluster_config)))) =
     st_log (r_state (serve (\<lambda>_. []) (\<lambda>_. sample_env 0) 7 (?d 2) (new_replica 0 server_cluster_config)))"
    by (simp add: typed_def new_replica_def new_ReplicaState_def is_primary_def get_primary_id_def)
  with one(1) show ?thesis
    by (intro exI [of _ "(?d 1, cl1)"]) simp
qed

end
