(* ===== verification/Tcp_Server.thy ===== *)
theory Tcp_Server
  imports Replica_Manager
begin

text \<open>
  The server side of \<open>src/server/tcp_server.cpp\<close>: accepting, reading with the identification of
  peers, removal of connections, and the sending calls of the protocol handler. A value \<open>None\<close>
  of the server is an exception that leaves the event loop, or undefined behaviour.
\<close>

section \<open>Accepting and reading\<close>

definition start_accept :: "server \<Rightarrow> server" where
  "start_accept sv = call Submit_accept sv"

definition server_start :: "(int \<Rightarrow> int) \<Rightarrow> server \<Rightarrow> server" where
  "server_start socks sv = connect_to_peers socks (start_accept sv)"

definition handle_new_connection :: "int \<Rightarrow> server \<Rightarrow> server" where
  "handle_new_connection client_socket sv =
     (case make_connection client_socket sv of
        (c, sv1) \<Rightarrow> start_reading c (sv1\<lparr>sv_connections := om_assign client_socket c (sv_connections sv1)\<rparr>))"

text \<open>The callback of the accept request; the listening socket stays open while the server lives.\<close>

definition accept_done :: "int \<Rightarrow> server \<Rightarrow> server" where
  "accept_done client_socket sv =
     start_accept (if client_socket \<ge> 0 then handle_new_connection client_socket sv else sv)"

definition set_conn_state :: "connection \<Rightarrow> connection_state \<Rightarrow> server \<Rightarrow> server" where
  "set_conn_state c s sv = set_connection c (set_connection_state s (sv_store sv c)) sv"

text \<open>\<open>on_message_\<close> is \<open>handle_raw_data\<close> of the protocol handler.\<close>

definition on_message :: "(byte list \<Rightarrow> byte list) \<Rightarrow> connection \<Rightarrow> byte list \<Rightarrow> server \<Rightarrow> server" where
  "on_message blake3 c data sv =
     (let res = handle_raw_data blake3 (sv_store sv c) data (sv_buffers sv);
          sv1 = (set_connection c (hr_connection res) sv)\<lparr>sv_buffers := hr_buffers res\<rparr>;
          sv2 = fold (\<lambda>m. call (Received c m)) (hr_received res) sv1
      in case hr_closed res of Some fd \<Rightarrow> call (Close_fd fd) sv2 | None \<Rightarrow> sv2)"

definition remove_connection :: "connection option \<Rightarrow> server \<Rightarrow> server option" where
  "remove_connection connection sv =
     (case connection of
        None \<Rightarrow> Some sv
      | Some c \<Rightarrow>
          (case on_disconnect c sv of
             None \<Rightarrow> None
           | Some sv1 \<Rightarrow>
               Some (sv1\<lparr>sv_connections := om_erase (tc_socket (sv_store sv1 c)) (sv_connections sv1)\<rparr>)))"

definition handshake_prefix :: string where "handshake_prefix = ''HANDSHAKE_ID:''"

text \<open>
  The callback of the read request: \<open>Some bytes\<close> for a positive result, the bytes that the read
  has put into the connection's buffer, \<open>None\<close> for end of file or an error.
\<close>

definition read_done ::
    "(byte list \<Rightarrow> byte list) \<Rightarrow> connection \<Rightarrow> byte list option \<Rightarrow> server \<Rightarrow> server option" where
  "read_done blake3 c result sv =
     (case result of
        Some bytes \<Rightarrow>
          let sv = set_connection c (fill_buffer bytes (sv_store sv c)) sv;
              received_data = received_from (sv_store sv c) (length bytes)
          in Some (start_reading c
            (if tc_state (sv_store sv c) = UNIDENTIFIED then
               let message = string_of_bytes received_data
               in if take (length handshake_prefix) message = handshake_prefix then
                    case stoi (drop 13 message) of
                      Some i \<Rightarrow> register_identified_peer i c (set_conn_state c PEER sv)
                    | None \<Rightarrow> on_message blake3 c received_data (set_conn_state c CLIENT sv)
                  else on_message blake3 c received_data (set_conn_state c CLIENT sv)
             else on_message blake3 c received_data sv))
      | None \<Rightarrow>
          remove_connection (Some c)
            (sv\<lparr>sv_buffers := ph_on_disconnect (Some (sv_store sv c)) (sv_buffers sv)\<rparr>))"

definition write_done :: "connection \<Rightarrow> int \<Rightarrow> server \<Rightarrow> server option" where
  "write_done c result sv = (if result < 0 then remove_connection (Some c) sv else Some sv)"

section \<open>Sending\<close>

definition send_message ::
    "(byte list \<Rightarrow> byte list) \<Rightarrow> connection \<Rightarrow> vsr_message \<Rightarrow> server \<Rightarrow> server option" where
  "send_message blake3 c msg sv =
     (case serialize blake3 msg of Some data \<Rightarrow> Some (server_send c data sv) | None \<Rightarrow> None)"

definition send_to_peer ::
    "(byte list \<Rightarrow> byte list) \<Rightarrow> int \<Rightarrow> vsr_message \<Rightarrow> server \<Rightarrow> server option" where
  "send_to_peer blake3 i msg sv =
     (case serialize blake3 msg of Some data \<Rightarrow> Some (mgr_send_to_peer i data sv) | None \<Rightarrow> None)"

definition broadcast_to_peers ::
    "(byte list \<Rightarrow> byte list) \<Rightarrow> vsr_message \<Rightarrow> server \<Rightarrow> server option" where
  "broadcast_to_peers blake3 msg sv =
     (case serialize blake3 msg of Some data \<Rightarrow> Some (mgr_broadcast_to_peers data (- 1) sv) | None \<Rightarrow> None)"

section \<open>Decimal round trip\<close>

lemma of_char_digit [simp]: "d < 10 \<Longrightarrow> of_char (digit_char d) = 48 + d"
  by (simp add: digit_char_def)

lemma is_digit_digit [simp]: "d < 10 \<Longrightarrow> is_digit (digit_char d)"
  by (simp add: is_digit_def)

lemma digits_value_snoc: "digits_value (s @ [c]) = 10 * digits_value s + (of_char c - 48)"
  by (simp add: digits_value_def)

lemma string_of_nat_digits:
  "list_all is_digit (string_of_nat n) \<and> digits_value (string_of_nat n) = n \<and> string_of_nat n \<noteq> []"
proof (induction n rule: string_of_nat.induct)
  case (1 n)
  show ?case
  proof (cases "n < 10")
    case True
    then show ?thesis
      by (simp add: string_of_nat.simps [of n] digits_value_def)
  next
    case False
    with 1 show ?thesis
      by (simp add: string_of_nat.simps [of n] digits_value_snoc)
  qed
qed

lemma takeWhile_digits:
  "rest = [] \<or> \<not> is_digit (hd rest) \<Longrightarrow> takeWhile is_digit (string_of_nat n @ rest) = string_of_nat n"
  using string_of_nat_digits [of n] by (cases rest) (auto simp: list_all_iff takeWhile_append)

lemma digit_not_special:
  "is_digit c \<Longrightarrow> \<not> is_space c" "is_digit c \<Longrightarrow> c \<noteq> CHR ''-''" "is_digit c \<Longrightarrow> c \<noteq> CHR ''+''"
  by (auto simp: is_digit_def is_space_def)

lemma stoi_to_string:
  assumes "- (2 ^ 31) \<le> i" and "i < 2 ^ 31" and "rest = [] \<or> \<not> is_digit (hd rest)"
  shows "stoi (to_string i @ rest) = Some i"
proof (cases "i < 0")
  case True
  have "stoi (CHR ''-'' # string_of_nat (nat (- i)) @ rest) = Some i"
    using True assms string_of_nat_digits [of "nat (- i)"]
    by (simp add: stoi_def takeWhile_digits is_space_def)
  with True show ?thesis by (simp add: to_string_def)
next
  case False
  obtain c cs where s: "string_of_nat (nat i) = c # cs" "is_digit c"
    using string_of_nat_digits [of "nat i"] by (cases "string_of_nat (nat i)") auto
  have "takeWhile is_digit (c # cs @ rest) = c # cs" "digits_value (c # cs) = nat i"
    using takeWhile_digits [OF assms(3), of "nat i"] string_of_nat_digits [of "nat i"] s(1) by simp_all
  with False assms s digit_not_special [OF s(2)] show ?thesis
    by (simp add: to_string_def stoi_def)
qed

section \<open>Frame lemmas\<close>

lemma call_simps [simp]:
  "sv_store (call a sv) = sv_store sv" "sv_fresh (call a sv) = sv_fresh sv"
  "sv_connections (call a sv) = sv_connections sv" "sv_buffers (call a sv) = sv_buffers sv"
  "sv_self_id (call a sv) = sv_self_id sv" "sv_peers_by_id (call a sv) = sv_peers_by_id sv"
  "sv_socket_to_peer_id (call a sv) = sv_socket_to_peer_id sv"
  "sv_port_to_peer_id (call a sv) = sv_port_to_peer_id sv"
  "sv_calls (call a sv) = sv_calls sv @ [a]"
  by (simp_all add: call_def)

lemma set_connection_simps [simp]:
  "sv_store (set_connection c t sv) = (sv_store sv)(c := t)" "sv_fresh (set_connection c t sv) = sv_fresh sv"
  "sv_connections (set_connection c t sv) = sv_connections sv" "sv_buffers (set_connection c t sv) = sv_buffers sv"
  "sv_self_id (set_connection c t sv) = sv_self_id sv" "sv_peers_by_id (set_connection c t sv) = sv_peers_by_id sv"
  "sv_socket_to_peer_id (set_connection c t sv) = sv_socket_to_peer_id sv"
  "sv_port_to_peer_id (set_connection c t sv) = sv_port_to_peer_id sv"
  "sv_calls (set_connection c t sv) = sv_calls sv"
  by (simp_all add: set_connection_def)

lemma set_connection_twice [simp]: "set_connection c t (set_connection c u sv) = set_connection c t sv"
  by (simp add: set_connection_def)

lemma set_peer_simps [simp]:
  "sv_store (set_peer i f sv) = sv_store sv" "sv_fresh (set_peer i f sv) = sv_fresh sv"
  "sv_connections (set_peer i f sv) = sv_connections sv" "sv_buffers (set_peer i f sv) = sv_buffers sv"
  "sv_self_id (set_peer i f sv) = sv_self_id sv"
  "sv_socket_to_peer_id (set_peer i f sv) = sv_socket_to_peer_id sv"
  "sv_port_to_peer_id (set_peer i f sv) = sv_port_to_peer_id sv"
  "sv_calls (set_peer i f sv) = sv_calls sv"
  by (simp_all add: set_peer_def split: option.splits)

lemma om_find_set_peer [simp]:
  "om_find (sv_peers_by_id (set_peer i f sv)) =
     (om_find (sv_peers_by_id sv))(i := map_option f (om_find (sv_peers_by_id sv) i))"
  by (auto simp: set_peer_def split: option.splits)

lemma close_connection_simps [simp]:
  "sv_peers_by_id (close_connection c sv) = sv_peers_by_id sv"
  "sv_connections (close_connection c sv) = sv_connections sv"
  "sv_buffers (close_connection c sv) = sv_buffers sv"
  "sv_socket_to_peer_id (close_connection c sv) = sv_socket_to_peer_id sv"
  "sv_self_id (close_connection c sv) = sv_self_id sv"
  "sv_store (close_connection c sv) = (sv_store sv)(c := fst (close_socket (sv_store sv c)))"
  by (simp_all add: close_connection_def close_socket_def)

lemma fold_received [simp]:
  "sv_peers_by_id (fold (\<lambda>m. call (Received c m)) ms sv) = sv_peers_by_id sv"
  "sv_store (fold (\<lambda>m. call (Received c m)) ms sv) = sv_store sv"
  "sv_buffers (fold (\<lambda>m. call (Received c m)) ms sv) = sv_buffers sv"
  "sv_connections (fold (\<lambda>m. call (Received c m)) ms sv) = sv_connections sv"
  "sv_socket_to_peer_id (fold (\<lambda>m. call (Received c m)) ms sv) = sv_socket_to_peer_id sv"
  "sv_self_id (fold (\<lambda>m. call (Received c m)) ms sv) = sv_self_id sv"
  "sv_calls (fold (\<lambda>m. call (Received c m)) ms sv) = sv_calls sv @ map (Received c) ms"
  by (induction ms arbitrary: sv) simp_all

lemma on_message_simps [simp]:
  "sv_peers_by_id (on_message blake3 c data sv) = sv_peers_by_id sv"
  "sv_connections (on_message blake3 c data sv) = sv_connections sv"
  "sv_socket_to_peer_id (on_message blake3 c data sv) = sv_socket_to_peer_id sv"
  "sv_self_id (on_message blake3 c data sv) = sv_self_id sv"
  by (simp_all add: on_message_def Let_def split: option.splits)

section \<open>Properties of the peer connections\<close>

text \<open>
  C31: the handshake identifies its sender. When the first bytes read from a new connection are the
  handshake that \<open>send_handshake\<close> writes for replica \<open>i\<close>, the connection becomes a peer
  connection, peer \<open>i\<close> is CONNECTED over it, its socket is filed under \<open>i\<close>, and reading goes
  on; nothing is handed to the replica. Bytes that arrive in the same read behind the handshake
  are dropped (here: any bytes that do not extend the number).
\<close>
theorem handshake_identifies_peer:
  assumes "tc_state (sv_store sv c) = UNIDENTIFIED"
    and "- (2 ^ 31) \<le> i" and "i < 2 ^ 31" and "om_find (sv_peers_by_id sv) i = Some peer"
    and "extra = [] \<or> \<not> is_digit (hd (string_of_bytes extra))"
  shows "\<exists>sv'. read_done blake3 c (Some (bytes_of_string (''HANDSHAKE_ID:'' @ to_string i) @ extra)) sv = Some sv' \<and>
     om_find (sv_peers_by_id sv') = (om_find (sv_peers_by_id sv))
       (i \<mapsto> peer\<lparr>peer_state := CONNECTED, peer_connection := Some c\<rparr>) \<and>
     om_find (sv_socket_to_peer_id sv') = (om_find (sv_socket_to_peer_id sv))
       (tc_socket (sv_store sv c) \<mapsto> peer_id peer) \<and>
     tc_state (sv_store sv' c) = PEER \<and> tc_socket (sv_store sv' c) = tc_socket (sv_store sv c) \<and>
     sv_buffers sv' = sv_buffers sv \<and> sv_calls sv' = sv_calls sv @ [Submit_read c]"
proof -
  define data where "data = bytes_of_string (''HANDSHAKE_ID:'' @ to_string i) @ extra"
  have msg: "string_of_bytes data = handshake_prefix @ to_string i @ string_of_bytes extra"
    using string_of_bytes_of_string [of "''HANDSHAKE_ID:'' @ to_string i"]
    by (simp add: string_of_bytes_def data_def handshake_prefix_def)
  have "string_of_bytes extra = [] \<or> \<not> is_digit (hd (string_of_bytes extra))"
    using assms(5) by (auto simp: string_of_bytes_def)
  then have num: "stoi (to_string i @ string_of_bytes extra) = Some i"
    by (rule stoi_to_string [OF assms(2,3)])
  have len: "length handshake_prefix = 13"
    by (simp add: handshake_prefix_def)
  show ?thesis
    unfolding data_def [symmetric] using assms(1,4)
    by (simp add: read_done_def msg num len Let_def register_identified_peer_def set_conn_state_def
        start_reading_def)
qed

definition sample_server :: server where
  "sample_server = handle_new_connection 7
     (new_ReplicaManager 0 [new_Peer 1 ''localhost'' 8081, new_Peer 2 ''localhost'' 8082])"

lemma sample_server_simps:
  "tc_state (sv_store sample_server 0) = UNIDENTIFIED" "tc_socket (sv_store sample_server 0) = 7"
  "om_find (sv_peers_by_id sample_server) 2 = Some (new_Peer 2 ''localhost'' 8082)"
  by (simp_all add: sample_server_def handle_new_connection_def new_ReplicaManager_def make_connection_def
      start_reading_def new_TcpConnection_def new_Peer_def om_find_def)

theorem handshake_identifies_peer_witness:
  "\<exists>sv'. read_done (\<lambda>_. []) 0 (Some (bytes_of_string (''HANDSHAKE_ID:'' @ to_string 2) @ [])) sample_server = Some sv' \<and>
     om_find (sv_peers_by_id sv') 2 =
       Some ((new_Peer 2 ''localhost'' 8082)\<lparr>peer_state := CONNECTED, peer_connection := Some 0\<rparr>)"
  using handshake_identifies_peer [OF sample_server_simps(1) _ _ sample_server_simps(3), of "[]" "\<lambda>_. []"]
  by fastforce

text \<open>
  A broadcast writes the bytes exactly once to each peer that is CONNECTED and has a
  connection, in the order of the peer ids, leaving out the excluded id; it changes nothing else.
\<close>
theorem broadcast_reaches_connected_peers:
  fixes sv :: server
  assumes "om_ok (sv_peers_by_id sv)"
  defines "reached \<equiv> \<lambda>x. [c. (i, p) \<leftarrow> sv_peers_by_id sv, i \<noteq> x, peer_state p = CONNECTED,
      c \<leftarrow> (case peer_connection p of Some c \<Rightarrow> [c] | None \<Rightarrow> [])]"
  shows "mgr_broadcast_to_peers data x sv =
     sv\<lparr>sv_calls := sv_calls sv @ map (\<lambda>c. Submit_write c data) (reached x)\<rparr>"
proof -
  have find: "om_find (sv_peers_by_id sv) i = Some p" if "(i, p) \<in> set (sv_peers_by_id sv)" for i p
    using om_find_mem [OF assms(1)] that by blast
  have "fold (\<lambda>(i, peer) acc. if i = x then acc else mgr_send_to_peer i data acc) ps
      (sv\<lparr>sv_calls := cs\<rparr>) =
    sv\<lparr>sv_calls := cs @ map (\<lambda>c. Submit_write c data) [c. (i, p) \<leftarrow> ps, i \<noteq> x, peer_state p = CONNECTED,
      c \<leftarrow> (case peer_connection p of Some c \<Rightarrow> [c] | None \<Rightarrow> [])]\<rparr>"
    if "set ps \<subseteq> set (sv_peers_by_id sv)" for ps cs
    using that
  proof (induction ps arbitrary: cs)
    case (Cons ip ps)
    obtain i p where "ip = (i, p)" by (metis prod.exhaust)
    with Cons find [of i p] show ?case
      by (cases "peer_connection p")
        (auto simp: mgr_send_to_peer_def server_send_def call_def)
  qed simp
  from this [of "sv_peers_by_id sv" "sv_calls sv"] show ?thesis
    by (simp add: mgr_broadcast_to_peers_def reached_def)
qed

definition sample_connected :: server where
  "sample_connected = set_peer 2 (\<lambda>p. p\<lparr>peer_state := CONNECTED, peer_connection := Some 0\<rparr>)
     (sample_server\<lparr>sv_socket_to_peer_id := [(7, 2)]\<rparr>)"

lemma sample_connected_peers:
  "sv_peers_by_id sample_connected = [(1, new_Peer 1 ''localhost'' 8081),
     (2, (new_Peer 2 ''localhost'' 8082)\<lparr>peer_state := CONNECTED, peer_connection := Some 0\<rparr>)]"
  "sv_store sample_connected 0 = new_TcpConnection 7" "sv_calls sample_connected = [Submit_read 0]"
  "sv_socket_to_peer_id sample_connected = [(7, 2)]" "sv_buffers sample_connected = []"
  by (simp_all add: sample_connected_def sample_server_def handle_new_connection_def new_ReplicaManager_def
      make_connection_def start_reading_def set_peer_def om_find_def new_Peer_def)

theorem broadcast_reaches_connected_peers_witness:
  "sv_calls (mgr_broadcast_to_peers [1, 2] (- 1) sample_connected) = [Submit_read 0, Submit_write 0 [1, 2]]"
proof -
  have ok: "om_ok (sv_peers_by_id sample_connected)"
    by (simp add: sample_connected_peers om_ok_def)
  show ?thesis
    unfolding broadcast_reaches_connected_peers [OF ok]
    by (simp add: sample_connected_peers new_Peer_def)
qed

text \<open>
  When the connection to a peer is lost (end of file or a read error), the peer becomes
  DISCONNECTED without connection, its socket is forgotten in all tables, and a new attempt is
  scheduled exactly when the peer has the lower id; the other side reconnects otherwise.
\<close>
theorem lost_peer_is_reset:
  assumes "om_find (sv_socket_to_peer_id sv) (tc_socket (sv_store sv c)) = Some i"
    and "om_find (sv_peers_by_id sv) i = Some peer"
  shows "\<exists>sv'. read_done blake3 c None sv = Some sv' \<and>
     om_find (sv_peers_by_id sv') = (om_find (sv_peers_by_id sv))
       (i \<mapsto> peer\<lparr>peer_state := DISCONNECTED, peer_connection := None\<rparr>) \<and>
     om_find (sv_socket_to_peer_id sv') (tc_socket (sv_store sv c)) = None \<and>
     om_find (sv_connections sv') (tc_socket (sv_store sv c)) = None \<and>
     om_find (sv_buffers sv') (tc_socket (sv_store sv c)) = None \<and>
     sv_calls sv' = sv_calls sv @ (if sv_self_id sv > peer_id peer then [Submit_reconnect 5 i] else [])"
  using assms
  by (simp add: read_done_def remove_connection_def on_disconnect_def ph_on_disconnect_def Let_def
      schedule_reconnect_def reconnect_delay_def)

theorem lost_peer_is_reset_witness:
  "\<exists>sv'. read_done (\<lambda>_. []) 0 None sample_connected = Some sv' \<and>
     om_find (sv_peers_by_id sv') 2 = Some (new_Peer 2 ''localhost'' 8082)"
proof -
  have "om_find (sv_socket_to_peer_id sample_connected) (tc_socket (sv_store sample_connected 0)) = Some 2"
    "om_find (sv_peers_by_id sample_connected) 2 =
      Some ((new_Peer 2 ''localhost'' 8082)\<lparr>peer_state := CONNECTED, peer_connection := Some 0\<rparr>)"
    by (simp_all add: sample_connected_peers new_TcpConnection_def om_find_def)
  from lost_peer_is_reset [OF this, of "\<lambda>_. []"] show ?thesis
    by (auto simp: new_Peer_def)
qed

text \<open>
  C30: a connection that the protocol handler gives up is not cleaned up. If bytes from a CONNECTED
  peer fail the framing checks, its socket is closed and the connection object forgets its
  descriptor; when the pending read then fails, the tables are searched for descriptor \<open>-1\<close>.
  The peer stays CONNECTED over the dead connection, no reconnection is scheduled, the old
  descriptor stays in the connection table, and later messages to the peer are written to the
  dead connection.
\<close>
theorem protocol_error_strands_peer:
  assumes "tc_state (sv_store sv c) = PEER" and "tc_socket (sv_store sv c) = fd" and "fd \<noteq> - 1"
    and "om_find (sv_peers_by_id sv) i = Some peer"
    and "peer_state peer = CONNECTED" and "peer_connection peer = Some c"
    and "om_find (sv_socket_to_peer_id sv) (- 1) = None"
    and "om_find (sv_connections sv) fd = Some c"
    and "frame_loop blake3 (om_index [] (sv_buffers sv) fd @ data) = (ms, None)"
  shows "\<exists>sv1 sv2. read_done blake3 c (Some data) sv = Some sv1 \<and> read_done blake3 c None sv1 = Some sv2 \<and>
     tc_socket (sv_store sv2 c) = - 1 \<and> om_find (sv_peers_by_id sv2) i = Some peer \<and>
     om_find (sv_connections sv2) fd = Some c \<and>
     sv_calls sv2 = sv_calls sv @ map (Received c) ms @ [Close_fd fd, Submit_read c] \<and>
     sv_calls (mgr_send_to_peer i bs sv2) = sv_calls sv2 @ [Submit_write c bs]"
  using assms
  by (simp add: read_done_def on_message_def handle_raw_data_def Let_def start_reading_def close_socket_def
      remove_connection_def on_disconnect_def mgr_send_to_peer_def server_send_def)

theorem protocol_error_strands_peer_witness:
  "\<exists>sv1 sv2. read_done (\<lambda>_. []) 0 (Some (replicate 128 0))
       (set_conn_state 0 PEER (sample_connected\<lparr>sv_connections := [(7, 0)]\<rparr>)) = Some sv1 \<and>
     read_done (\<lambda>_. []) 0 None sv1 = Some sv2 \<and> tc_socket (sv_store sv2 0) = - 1"
proof -
  let ?sv = "set_conn_state 0 PEER (sample_connected\<lparr>sv_connections := [(7, 0)]\<rparr>)"
  have zero: "dec_word (replicate n 0) = (0 :: u32)" for n
  proof -
    have "le_val (replicate n (0 :: byte)) = 0"
      by (induction n) simp_all
    then show ?thesis by (simp add: dec_word_def)
  qed
  have "h_size (dec_header (replicate 128 0)) = 0"
    using zero by (simp add: dec_header_def field_def take_replicate drop_replicate)
  then have f: "frame_loop (\<lambda>_. []) (om_index [] (sv_buffers ?sv) 7 @ replicate 128 0) = ([], None)"
    by (simp add: frame_loop.simps set_conn_state_def sample_connected_peers om_index_def)
  have s: "tc_state (sv_store ?sv 0) = PEER" "tc_socket (sv_store ?sv 0) = 7" "(7 :: int) \<noteq> - 1"
    "om_find (sv_peers_by_id ?sv) 2 =
      Some ((new_Peer 2 ''localhost'' 8082)\<lparr>peer_state := CONNECTED, peer_connection := Some 0\<rparr>)"
    "om_find (sv_socket_to_peer_id ?sv) (- 1) = None" "om_find (sv_connections ?sv) 7 = Some 0"
    by (simp_all add: set_conn_state_def sample_connected_peers new_TcpConnection_def om_find_def)
  from protocol_error_strands_peer [OF s(1-4) _ _ s(5,6) f, of "[]"] show ?thesis
    by auto
qed

section \<open>The peer table as a state machine\<close>

definition peer_ok :: "int \<Rightarrow> Peer \<Rightarrow> bool" where
  "peer_ok i p \<longleftrightarrow> peer_id p = i \<and> (peer_state p = CONNECTED \<longrightarrow> peer_connection p \<noteq> None)"

definition server_ok :: "server \<Rightarrow> bool" where
  "server_ok sv \<longleftrightarrow> om_ok (sv_peers_by_id sv) \<and> om_ok (sv_socket_to_peer_id sv) \<and>
     om_ok (sv_connections sv) \<and> om_ok (sv_buffers sv) \<and>
     (\<forall>i p. om_find (sv_peers_by_id sv) i = Some p \<longrightarrow> peer_ok i p)"

inductive server_step :: "server \<Rightarrow> server \<Rightarrow> bool" where
  accept: "server_step sv (accept_done fd sv)"
| read: "read_done blake3 c result sv = Some sv' \<Longrightarrow> server_step sv sv'"
| written: "write_done c result sv = Some sv' \<Longrightarrow> server_step sv sv'"
| attempt: "server_step sv (attempt_connection fd i sv)"
| connected: "server_step sv (connect_done i fd result sv)"
| add: "peer_ok (peer_id p) p \<Longrightarrow> server_step sv (add_peer fd p sv)"
| remove: "server_step sv (remove_peer i sv)"
| sent: "send_message blake3 c m sv = Some sv' \<Longrightarrow> server_step sv sv'"
| sent_to_peer: "send_to_peer blake3 i m sv = Some sv' \<Longrightarrow> server_step sv sv'"
| broadcast: "broadcast_to_peers blake3 m sv = Some sv' \<Longrightarrow> server_step sv sv'"


lemma server_ok_call [simp]: "server_ok (call a sv) = server_ok sv"
  by (simp add: server_ok_def)

lemma server_ok_set_connection [simp]: "server_ok (set_connection c t sv) = server_ok sv"
  by (simp add: server_ok_def)

lemma om_ok_set_peer: "om_ok (sv_peers_by_id sv) \<Longrightarrow> om_ok (sv_peers_by_id (set_peer i f sv))"
  by (simp add: set_peer_def split: option.splits)

lemma server_ok_set_peer:
  assumes "server_ok sv" and "\<And>p. peer_ok i p \<Longrightarrow> peer_ok i (f p)"
  shows "server_ok (set_peer i f sv)"
  using assms by (auto simp: server_ok_def om_ok_set_peer)

lemma server_ok_tables [simp]:
  "server_ok sv \<Longrightarrow> server_ok (sv\<lparr>sv_socket_to_peer_id := om_assign k v (sv_socket_to_peer_id sv)\<rparr>)"
  "server_ok sv \<Longrightarrow> server_ok (sv\<lparr>sv_socket_to_peer_id := om_erase k (sv_socket_to_peer_id sv)\<rparr>)"
  "server_ok sv \<Longrightarrow> server_ok (sv\<lparr>sv_connections := om_assign k c (sv_connections sv)\<rparr>)"
  "server_ok sv \<Longrightarrow> server_ok (sv\<lparr>sv_connections := om_erase k (sv_connections sv)\<rparr>)"
  "server_ok sv \<Longrightarrow> om_ok bufs \<Longrightarrow> server_ok (sv\<lparr>sv_buffers := bufs\<rparr>)"
  "server_ok (sv\<lparr>sv_fresh := n\<rparr>) = server_ok sv"
  by (simp_all add: server_ok_def)

lemma peer_ok_updates [simp]:
  "peer_ok i p \<Longrightarrow> peer_ok i (p\<lparr>peer_state := CONNECTED, peer_connection := Some c\<rparr>)"
  "peer_ok i p \<Longrightarrow> peer_ok i (p\<lparr>peer_state := DISCONNECTED, peer_connection := None\<rparr>)"
  "peer_ok i p \<Longrightarrow> peer_ok i (p\<lparr>peer_state := CONNECTING\<rparr>)"
  "peer_ok i p \<Longrightarrow> peer_ok i (p\<lparr>peer_state := DISCONNECTED\<rparr>)"
  by (simp_all add: peer_ok_def)

lemma server_ok_close [simp]: "server_ok (close_connection c sv) = server_ok sv"
  by (simp add: close_connection_def close_socket_def)

lemma server_ok_attempt: "server_ok sv \<Longrightarrow> server_ok (attempt_connection fd i sv)"
  by (auto simp: attempt_connection_def Let_def schedule_reconnect_def intro!: server_ok_set_peer
      split: option.splits)

lemma server_ok_send_to_peer: "server_ok (mgr_send_to_peer i data sv) = server_ok sv"
  by (simp add: mgr_send_to_peer_def server_send_def split: option.splits)

lemma server_ok_on_message: "server_ok sv \<Longrightarrow> server_ok (on_message blake3 c data sv)"
proof -
  assume ok: "server_ok sv"
  have received: "server_ok (fold (\<lambda>m. call (Received c m)) ms t) = server_ok t" for ms t
    by (induction ms arbitrary: t) simp_all
  have "om_ok (hr_buffers (handle_raw_data blake3 (sv_store sv c) data (sv_buffers sv)))"
    using ok by (auto simp: handle_raw_data_def server_ok_def Let_def split: prod.splits option.splits)
  with ok show ?thesis
    by (simp add: on_message_def Let_def received split: option.splits)
qed

lemma server_ok_register: "server_ok sv \<Longrightarrow> server_ok (register_identified_peer i c sv)"
proof (cases "om_find (sv_peers_by_id sv) i")
  case (Some p)
  assume "server_ok sv"
  then have "server_ok (set_peer i (\<lambda>p. p\<lparr>peer_state := CONNECTED, peer_connection := Some c\<rparr>) sv)"
    by (intro server_ok_set_peer) simp_all
  from server_ok_tables(1) [OF this] Some show ?thesis
    by (simp add: register_identified_peer_def)
qed (simp add: register_identified_peer_def)

lemma server_ok_on_disconnect:
  assumes "server_ok sv" and "on_disconnect c sv = Some sv'"
  shows "server_ok sv'"
proof -
  have "server_ok ((set_peer i (\<lambda>p. p\<lparr>peer_state := DISCONNECTED, peer_connection := None\<rparr>) sv)
      \<lparr>sv_socket_to_peer_id := om_erase k (sv_socket_to_peer_id sv)\<rparr>)" for i k
    using server_ok_tables(2) [OF server_ok_set_peer [OF assms(1)], of i
        "\<lambda>p. p\<lparr>peer_state := DISCONNECTED, peer_connection := None\<rparr>" k] by simp
  with assms show ?thesis
    by (auto simp: on_disconnect_def Let_def schedule_reconnect_def split: option.splits if_splits)
qed

lemma server_ok_remove_connection:
  "server_ok sv \<Longrightarrow> remove_connection c sv = Some sv' \<Longrightarrow> server_ok sv'"
  by (auto simp: remove_connection_def dest: server_ok_on_disconnect split: option.splits)

lemma server_ok_read:
  assumes "server_ok sv" and "read_done blake3 c result sv = Some sv'"
  shows "server_ok sv'"
proof (cases result)
  case None
  have "server_ok (sv\<lparr>sv_buffers := ph_on_disconnect (Some (sv_store sv c)) (sv_buffers sv)\<rparr>)"
    using assms(1) by (simp add: ph_on_disconnect_def server_ok_def)
  with assms(2) None show ?thesis
    by (auto simp: read_done_def intro: server_ok_remove_connection)
next
  case (Some data)
  with assms show ?thesis
    by (auto simp: read_done_def Let_def start_reading_def set_conn_state_def
        intro!: server_ok_on_message server_ok_register split: option.splits)
qed

lemma server_ok_broadcast: "server_ok sv \<Longrightarrow> server_ok (mgr_broadcast_to_peers data x sv)"
proof -
  assume ok: "server_ok sv"
  have "server_ok (fold (\<lambda>(i, peer) acc. if i = x then acc else mgr_send_to_peer i data acc) ps t) = server_ok t"
    for ps :: "(int \<times> Peer) list" and t
    by (induction ps arbitrary: t) (simp_all add: server_ok_send_to_peer split: prod.splits)
  with ok show ?thesis by (simp add: mgr_broadcast_to_peers_def)
qed

lemma server_ok_connect_done: "server_ok sv \<Longrightarrow> server_ok (connect_done i fd result sv)"
proof (cases "result \<ge> 0")
  case True
  assume ok: "server_ok sv"
  define sv1 where "sv1 = snd (make_connection fd sv)"
  define sv2 where "sv2 = set_peer i (\<lambda>p. p\<lparr>peer_state := CONNECTED, peer_connection := Some (sv_fresh sv)\<rparr>) sv1"
  have "server_ok sv1"
    using ok by (simp add: sv1_def make_connection_def)
  then have "server_ok sv2"
    unfolding sv2_def by (intro server_ok_set_peer) simp_all
  from server_ok_tables(1) [OF this] have "server_ok (sv2\<lparr>sv_socket_to_peer_id := om_assign fd i (sv_socket_to_peer_id sv2)\<rparr>)" .
  from server_ok_tables(3) [OF this] True show ?thesis
    by (simp add: connect_done_def make_connection_def sv1_def sv2_def Let_def send_handshake_def
        register_new_connection_def start_reading_def server_send_def split: option.splits)
next
  case False
  assume "server_ok sv"
  with False show ?thesis
    by (auto simp: connect_done_def schedule_reconnect_def intro: server_ok_set_peer)
qed

lemma server_ok_add_peer: "server_ok sv \<Longrightarrow> peer_ok (peer_id p) p \<Longrightarrow> server_ok (add_peer fd p sv)"
  by (auto simp: add_peer_def Let_def intro!: server_ok_attempt) (auto simp: server_ok_def)

lemma server_ok_remove_peer: "server_ok sv \<Longrightarrow> server_ok (remove_peer i sv)"
  by (auto simp: remove_peer_def Let_def server_ok_def split: option.splits if_splits)

lemma server_step_ok: "server_step sv sv' \<Longrightarrow> server_ok sv \<Longrightarrow> server_ok sv'"
proof (induction rule: server_step.induct)
  case (accept sv fd)
  then show ?case
    by (simp add: accept_done_def start_accept_def handle_new_connection_def make_connection_def start_reading_def)
      (simp add: server_ok_def)
next
  case (written c result sv sv')
  then show ?case
    by (auto simp: write_done_def intro: server_ok_remove_connection split: if_splits)
qed (auto simp: send_message_def send_to_peer_def broadcast_to_peers_def server_send_def server_ok_send_to_peer
    intro: server_ok_read server_ok_attempt server_ok_connect_done server_ok_add_peer
      server_ok_remove_peer server_ok_broadcast split: option.splits)

lemma new_server_ok:
  assumes "\<forall>p \<in> set peers. peer_ok (peer_id p) p"
  shows "server_ok (new_ReplicaManager i peers)"
proof -
  let ?add = "\<lambda>p m. if om_find m (peer_id p) = None then om_assign (peer_id p) p m else m"
  have "om_ok (fold ?add ps m) \<and> (\<forall>i p. om_find (fold ?add ps m) i = Some p \<longrightarrow> peer_ok i p)"
    if "om_ok m" "\<forall>i p. om_find m i = Some p \<longrightarrow> peer_ok i p" "\<forall>p \<in> set ps. peer_ok (peer_id p) p" for ps m
    using that
  proof (induction ps arbitrary: m)
    case (Cons q ps)
    have "om_ok (?add q m)" "\<forall>i p. om_find (?add q m) i = Some p \<longrightarrow> peer_ok i p"
      using Cons.prems by auto
    from Cons.IH [OF this] Cons.prems(3) show ?case by simp
  qed simp
  from this [of "[]" peers] assms show ?thesis
    by (simp add: new_ReplicaManager_def server_ok_def)
qed

text \<open>
  In every state the server reaches, whatever connections are accepted, lost, identified or
  written to and whatever peers are added or removed, the tables are ordered maps, every peer is
  filed under its own id, and a peer in state CONNECTED has a connection to write to.
\<close>
theorem connected_peers_have_connections:
  assumes "server_step\<^sup>*\<^sup>* (new_ReplicaManager self peers) sv"
    and "\<forall>p \<in> set peers. peer_state p = DISCONNECTED"
  shows "om_ok (sv_peers_by_id sv) \<and> om_ok (sv_socket_to_peer_id sv) \<and> om_ok (sv_connections sv) \<and>
     (\<forall>i p. om_find (sv_peers_by_id sv) i = Some p \<longrightarrow>
        peer_id p = i \<and> (peer_state p = CONNECTED \<longrightarrow> peer_connection p \<noteq> None))"
proof -
  have "server_ok (new_ReplicaManager self peers)"
    using assms(2) by (intro new_server_ok) (simp add: peer_ok_def)
  with assms(1) have "server_ok sv"
    by (induction rule: rtranclp_induct) (auto intro: server_step_ok)
  then show ?thesis
    by (simp add: server_ok_def peer_ok_def)
qed

theorem connected_peers_have_connections_witness:
  "om_ok (sv_peers_by_id (accept_done 7 (new_ReplicaManager 0 [new_Peer 1 ''localhost'' 8081])))"
  using connected_peers_have_connections [OF r_into_rtranclp [of server_step, OF accept],
      where self = 0 and peers = "[new_Peer 1 ''localhost'' 8081]"]
  by (simp add: new_Peer_def)

end
