(* ===== verification/Io_Uring_Loop.thy ===== *)
theory Io_Uring_Loop
  imports Tcp_Connection
begin

text \<open>
  The event loop of \<open>src/common/io_uring_loop.cpp\<close>: requests, submission, the queue of posted work
  with its eventfd, and the turns of \<open>run\<close>. Callbacks and posted work items are values of two type
  parameters; what they do is an argument of the loop.

  Of liburing and the kernel the model uses what their manuals say: \<open>io_uring_get_sqe\<close> gives no
  entry when the submission queue is full; submitted requests complete in any order, each
  once; a read of the eventfd completes when its counter is positive and resets it, and a
  write adds to the counter; \<open>io_uring_for_each_cqe\<close> goes on to completions that arrive while it runs.
  The eventfd is opened with \<open>EFD_NONBLOCK\<close>; whether a read of it through the ring waits for the
  counter or comes back at once with \<open>EAGAIN\<close> depends on the kernel, and is the parameter \<open>eager\<close>.
\<close>

section \<open>Requests and the loop object\<close>

datatype RequestType = ACCEPT | READ | WRITE | CONNECT | TIMEOUT | EVENTFD

type_synonym sockaddr_in = "string \<times> int"

text \<open>
  \<open>rq_callback\<close> is \<open>None\<close> for the eventfd request, whose callback is never called; \<open>rq_fd\<close> and
  \<open>rq_length\<close> are the descriptor and the byte count of the submission entry.
\<close>

record 'c IORequest =
  rq_type :: RequestType
  rq_callback :: "'c option"
  rq_connection :: "connection option"
  rq_write_buffer :: "byte list"
  rq_remote_address :: "sockaddr_in option"
  rq_timeout_spec :: "int \<times> int"
  rq_fd :: int
  rq_length :: nat

definition new_IORequest :: "RequestType \<Rightarrow> int \<Rightarrow> 'c option \<Rightarrow> 'c IORequest" where
  "new_IORequest t fd cb = \<lparr>rq_type = t, rq_callback = cb, rq_connection = None, rq_write_buffer = [],
     rq_remote_address = None, rq_timeout_spec = (0, 0), rq_fd = fd, rq_length = 0\<rparr>"

text \<open>
  The ring as the program sees it, prepared, submitted and completed requests, and the members
  of the loop object.
\<close>

record ('w, 'c) io_loop =
  lp_depth :: nat
  lp_sq :: "'c IORequest list"
  lp_inflight :: "'c IORequest list"
  lp_cq :: "('c IORequest \<times> int) list"
  lp_event_fd :: int
  lp_event_count :: nat
  lp_work_queue :: "'w list"

definition new_IoUringLoop :: "nat \<Rightarrow> int \<Rightarrow> int \<Rightarrow> string + ('w, 'c) io_loop" where
  "new_IoUringLoop queue_depth init_result event_fd =
     (if init_result < 0 then Inl ''Failed to initialize io_uring: ''
      else if event_fd = - 1 then Inl ''Failed to create eventfd: ''
      else Inr \<lparr>lp_depth = queue_depth, lp_sq = [], lp_inflight = [], lp_cq = [],
                lp_event_fd = event_fd, lp_event_count = 0, lp_work_queue = []\<rparr>)"

section \<open>Posting work\<close>

text \<open>The eventfd counter stops at its maximum; the write then fails, which is only reported.\<close>

definition max_event_count :: nat where "max_event_count = 2 ^ 64 - 2"

definition post :: "'w \<Rightarrow> ('w, 'c) io_loop \<Rightarrow> ('w, 'c) io_loop" where
  "post work lp = lp\<lparr>lp_work_queue := lp_work_queue lp @ [work],
     lp_event_count := (if lp_event_count lp < max_event_count then lp_event_count lp + 1 else lp_event_count lp)\<rparr>"

text \<open>
  One round takes the whole queue first, so what the items post waits for the next round.
  \<open>exec_work\<close> is what an item does, given what it reads from its surroundings, \<open>es i\<close> for the
  \<open>i\<close>-th item; \<open>None\<close> is an exception, which skips the remaining items.
\<close>

primrec run_items ::
    "('e \<Rightarrow> 'w \<Rightarrow> ('w, 'c) io_loop \<times> 's \<Rightarrow> (('w, 'c) io_loop \<times> 's) option) \<Rightarrow> (nat \<Rightarrow> 'e) \<Rightarrow> 'w list \<Rightarrow>
     ('w, 'c) io_loop \<times> 's \<Rightarrow> (('w, 'c) io_loop \<times> 's) option" where
  "run_items exec_work es [] x = Some x"
| "run_items exec_work es (work_item # items) x =
     Option.bind (exec_work (es 0) work_item x) (run_items exec_work (\<lambda>i. es (Suc i)) items)"

definition process_work_queue ::
    "('e \<Rightarrow> 'w \<Rightarrow> ('w, 'c) io_loop \<times> 's \<Rightarrow> (('w, 'c) io_loop \<times> 's) option) \<Rightarrow> (nat \<Rightarrow> 'e) \<Rightarrow>
     ('w, 'c) io_loop \<times> 's \<Rightarrow> (('w, 'c) io_loop \<times> 's) option" where
  "process_work_queue exec_work es = (\<lambda>(lp, s).
     run_items exec_work es (lp_work_queue lp) (lp\<lparr>lp_work_queue := []\<rparr>, s))"

section \<open>Submitting requests\<close>

definition has_sqe :: "('w, 'c) io_loop \<Rightarrow> bool" where
  "has_sqe lp \<longleftrightarrow> length (lp_sq lp) < lp_depth lp"

definition prepare_request :: "'c IORequest \<Rightarrow> ('w, 'c) io_loop \<Rightarrow> ('w, 'c) io_loop" where
  "prepare_request rq lp = lp\<lparr>lp_sq := lp_sq lp @ [rq]\<rparr>"

text \<open>\<open>None\<close> is the null pointer that is written through when there is no entry.\<close>

definition post_eventfd_read :: "('w, 'c) io_loop \<Rightarrow> ('w, 'c) io_loop option" where
  "post_eventfd_read lp =
     (if has_sqe lp then Some (prepare_request ((new_IORequest EVENTFD (lp_event_fd lp) None)\<lparr>rq_length := 8\<rparr>) lp) else None)"

text \<open>
  The other requests are dropped silently when there is no entry. The descriptor of a connection
  is read when the request is submitted.
\<close>

definition submit_request :: "'c IORequest \<Rightarrow> ('w, 'c) io_loop \<Rightarrow> ('w, 'c) io_loop" where
  "submit_request rq lp = (if \<not> has_sqe lp then lp else prepare_request rq lp)"

definition submit_accept :: "int \<Rightarrow> 'c \<Rightarrow> ('w, 'c) io_loop \<Rightarrow> ('w, 'c) io_loop" where
  "submit_accept server_socket callback = submit_request (new_IORequest ACCEPT server_socket (Some callback))"

definition submit_read :: "connection \<Rightarrow> int \<Rightarrow> nat \<Rightarrow> 'c \<Rightarrow> ('w, 'c) io_loop \<Rightarrow> ('w, 'c) io_loop" where
  "submit_read connection socket bytes callback =
     submit_request ((new_IORequest READ socket (Some callback))\<lparr>rq_connection := Some connection, rq_length := bytes\<rparr>)"

definition submit_write :: "connection \<Rightarrow> int \<Rightarrow> byte list \<Rightarrow> 'c \<Rightarrow> ('w, 'c) io_loop \<Rightarrow> ('w, 'c) io_loop" where
  "submit_write connection socket buffer callback =
     submit_request ((new_IORequest WRITE socket (Some callback))
       \<lparr>rq_connection := Some connection, rq_write_buffer := buffer, rq_length := length buffer\<rparr>)"

definition submit_connect :: "int \<Rightarrow> sockaddr_in \<Rightarrow> 'c \<Rightarrow> ('w, 'c) io_loop \<Rightarrow> ('w, 'c) io_loop" where
  "submit_connect socket address callback =
     submit_request ((new_IORequest CONNECT socket (Some callback))\<lparr>rq_remote_address := Some address\<rparr>)"

text \<open>A duration in nanoseconds is split into seconds and a remainder.\<close>

definition timeout_spec :: "int \<Rightarrow> int \<times> int" where
  "timeout_spec duration = (duration sdiv 1000000000, duration smod 1000000000)"

definition submit_timeout :: "int \<Rightarrow> 'c \<Rightarrow> ('w, 'c) io_loop \<Rightarrow> ('w, 'c) io_loop" where
  "submit_timeout duration callback =
     submit_request ((new_IORequest TIMEOUT (- 1) (Some callback))\<lparr>rq_timeout_spec := timeout_spec duration\<rparr>)"

section \<open>Running\<close>

text \<open>
  The body of the loop over the completions. \<open>exec_callback\<close> is what the callback of a request
  does with the result \<open>res\<close> and with what it reads from its surroundings, \<open>e\<close>; \<open>None\<close> is an
  exception, which leaves \<open>run\<close>.
\<close>

definition handle_completion ::
    "('c IORequest \<Rightarrow> int \<Rightarrow> 'e \<Rightarrow> ('w, 'c) io_loop \<times> 's \<Rightarrow> (('w, 'c) io_loop \<times> 's) option) \<Rightarrow>
     'c IORequest \<Rightarrow> int \<Rightarrow> 'e \<Rightarrow> ('w, 'c) io_loop \<times> 's \<Rightarrow> (('w, 'c) io_loop \<times> 's) option" where
  "handle_completion exec_callback request res e = (\<lambda>(lp, s).
     if rq_type request = EVENTFD then map_option (\<lambda>lp'. (lp', s)) (post_eventfd_read lp)
     else exec_callback request res e (lp, s))"

text \<open>
  One turn of \<open>while (is_running_)\<close>; nothing ever clears the flag. The loop submits what has been
  prepared and waits for a completion, runs the posted work, then handles completions until it
  finds none. An exception ends it.
\<close>

datatype phase = Submitting | Waiting | Reaping | Stopped

inductive loop_step ::
    "('e \<Rightarrow> 'w \<Rightarrow> ('w, 'c) io_loop \<times> 's \<Rightarrow> (('w, 'c) io_loop \<times> 's) option) \<Rightarrow>
     ('c IORequest \<Rightarrow> int \<Rightarrow> 'e \<Rightarrow> ('w, 'c) io_loop \<times> 's \<Rightarrow> (('w, 'c) io_loop \<times> 's) option) \<Rightarrow>
     phase \<times> ('w, 'c) io_loop \<times> 's \<Rightarrow> phase \<times> ('w, 'c) io_loop \<times> 's \<Rightarrow> bool"
  for exec_work and exec_callback where
  submit: "loop_step exec_work exec_callback (Submitting, lp, s)
     (Waiting, lp\<lparr>lp_inflight := lp_inflight lp @ lp_sq lp, lp_sq := []\<rparr>, s)"
| wake: "lp_cq lp \<noteq> [] \<Longrightarrow> process_work_queue exec_work es (lp, s) = Some (lp', s') \<Longrightarrow>
     loop_step exec_work exec_callback (Waiting, lp, s) (Reaping, lp', s')"
| reap: "lp_cq lp = (request, res) # rest \<Longrightarrow>
     handle_completion exec_callback request res e (lp\<lparr>lp_cq := rest\<rparr>, s) = Some (lp', s') \<Longrightarrow>
     loop_step exec_work exec_callback (Reaping, lp, s) (Reaping, lp', s')"
| again: "lp_cq lp = [] \<Longrightarrow> loop_step exec_work exec_callback (Reaping, lp, s) (Submitting, lp, s)"
| work_throws: "lp_cq lp \<noteq> [] \<Longrightarrow> process_work_queue exec_work es (lp, s) = None \<Longrightarrow>
     loop_step exec_work exec_callback (Waiting, lp, s) (Stopped, lp, s)"
| callback_throws: "lp_cq lp = (request, res) # rest \<Longrightarrow>
     handle_completion exec_callback request res e (lp\<lparr>lp_cq := rest\<rparr>, s) = None \<Longrightarrow>
     loop_step exec_work exec_callback (Reaping, lp, s) (Stopped, lp, s)"

text \<open>
  What the kernel does meanwhile, and other threads, which may only post: \<open>outside s ws s'\<close> says
  that a thread may go from \<open>s\<close> to \<open>s'\<close> posting \<open>ws\<close>. The two halves of \<open>post\<close> are one step.
\<close>

definition EAGAIN :: int where "EAGAIN = 11"

inductive kernel_step :: "bool \<Rightarrow> ('w, 'c) io_loop \<Rightarrow> ('w, 'c) io_loop \<Rightarrow> bool" for eager where
  finish: "request \<in> set (lp_inflight lp) \<Longrightarrow> rq_type request \<noteq> EVENTFD \<Longrightarrow>
     kernel_step eager lp (lp\<lparr>lp_inflight := remove1 request (lp_inflight lp), lp_cq := lp_cq lp @ [(request, res)]\<rparr>)"
| signal: "request \<in> set (lp_inflight lp) \<Longrightarrow> rq_type request = EVENTFD \<Longrightarrow> 0 < lp_event_count lp \<Longrightarrow>
     kernel_step eager lp (lp\<lparr>lp_inflight := remove1 request (lp_inflight lp), lp_cq := lp_cq lp @ [(request, 8)],
       lp_event_count := 0\<rparr>)"
| refuse: "request \<in> set (lp_inflight lp) \<Longrightarrow> rq_type request = EVENTFD \<Longrightarrow> lp_event_count lp = 0 \<Longrightarrow> eager \<Longrightarrow>
     kernel_step eager lp (lp\<lparr>lp_inflight := remove1 request (lp_inflight lp),
       lp_cq := lp_cq lp @ [(request, - EAGAIN)]\<rparr>)"

inductive run_step for eager and outside and exec_work and exec_callback where
  loop: "loop_step exec_work exec_callback x y \<Longrightarrow> run_step eager outside exec_work exec_callback x y"
| kernel: "kernel_step eager lp lp' \<Longrightarrow> run_step eager outside exec_work exec_callback (ph, lp, s) (ph, lp', s)"
| thread: "outside s ws s' \<Longrightarrow>
     run_step eager outside exec_work exec_callback (ph, lp, s) (ph, fold post ws lp, s')"

text \<open>\<open>run\<close> from a loop object on.\<close>

inductive running for eager and outside and exec_work and exec_callback and lp0 and s0 where
  start: "post_eventfd_read lp0 = Some lp \<Longrightarrow> running eager outside exec_work exec_callback lp0 s0 (Submitting, lp, s0)"
| step: "running eager outside exec_work exec_callback lp0 s0 x \<Longrightarrow> run_step eager outside exec_work exec_callback x y \<Longrightarrow>
     running eager outside exec_work exec_callback lp0 s0 y"


section \<open>The interface of the loop\<close>

text \<open>What a work item or a callback may do to the loop: post and submit, any number of times.\<close>

inductive uses_loop :: "('w, 'c) io_loop \<Rightarrow> ('w, 'c) io_loop \<Rightarrow> bool" where
  idle: "uses_loop lp lp"
| posts: "uses_loop lp lp' \<Longrightarrow> uses_loop lp (post w lp')"
| submits: "uses_loop lp lp' \<Longrightarrow> rq_type rq \<noteq> EVENTFD \<Longrightarrow> uses_loop lp (submit_request rq lp')"

lemma uses_submits:
  "uses_loop lp lp' \<Longrightarrow> uses_loop lp (submit_accept fd cb lp')" "uses_loop lp lp' \<Longrightarrow> uses_loop lp (submit_read c fd n cb lp')"
  "uses_loop lp lp' \<Longrightarrow> uses_loop lp (submit_write c fd bs cb lp')" "uses_loop lp lp' \<Longrightarrow> uses_loop lp (submit_connect fd a cb lp')"
  "uses_loop lp lp' \<Longrightarrow> uses_loop lp (submit_timeout d cb lp')"
  by (simp_all add: submit_accept_def submit_read_def submit_write_def submit_connect_def submit_timeout_def
      new_IORequest_def uses_loop.submits)

lemma uses_posts: "uses_loop lp lp' \<Longrightarrow> uses_loop lp (fold post ws lp')"
  by (induction ws arbitrary: lp') (simp_all add: uses_loop.posts)

lemma uses_loop_trans: "uses_loop b c \<Longrightarrow> uses_loop a b \<Longrightarrow> uses_loop a c"
  by (induction rule: uses_loop.induct) (auto intro: uses_loop.intros)

text \<open>Everything handed to the ring that has not been handled, and the eventfd reads among it.\<close>

definition pending_requests :: "('w, 'c) io_loop \<Rightarrow> 'c IORequest list" where
  "pending_requests lp = lp_sq lp @ lp_inflight lp @ map fst (lp_cq lp)"

definition eventfd_reads :: "('w, 'c) io_loop \<Rightarrow> nat" where
  "eventfd_reads lp = length (filter (\<lambda>rq. rq_type rq = EVENTFD) (pending_requests lp))"

lemma submit_request_keeps [simp]:
  "lp_inflight (submit_request rq lp) = lp_inflight lp" "lp_cq (submit_request rq lp) = lp_cq lp"
  "lp_event_count (submit_request rq lp) = lp_event_count lp" "lp_work_queue (submit_request rq lp) = lp_work_queue lp"
  "lp_depth (submit_request rq lp) = lp_depth lp"
  "rq_type rq \<noteq> EVENTFD \<Longrightarrow> eventfd_reads (submit_request rq lp) = eventfd_reads lp"
  by (simp_all add: submit_request_def prepare_request_def eventfd_reads_def pending_requests_def)

lemma post_keeps [simp]:
  "lp_inflight (post w lp) = lp_inflight lp" "lp_cq (post w lp) = lp_cq lp" "lp_sq (post w lp) = lp_sq lp"
  "lp_depth (post w lp) = lp_depth lp" "eventfd_reads (post w lp) = eventfd_reads lp"
  "lp_work_queue (post w lp) = lp_work_queue lp @ [w]" "0 < lp_event_count (post w lp)"
  by (simp_all add: post_def eventfd_reads_def pending_requests_def max_event_count_def)

lemma posts_keep [simp]:
  "eventfd_reads (fold post ws lp) = eventfd_reads lp" "lp_sq (fold post ws lp) = lp_sq lp"
  by (induction ws arbitrary: lp) simp_all

lemma uses_loop_keeps:
  "uses_loop lp lp' \<Longrightarrow> lp_inflight lp' = lp_inflight lp \<and> lp_cq lp' = lp_cq lp \<and> lp_depth lp' = lp_depth lp \<and>
     eventfd_reads lp' = eventfd_reads lp"
  by (induction rule: uses_loop.induct) simp_all

text \<open>Whoever leaves work behind has written to the eventfd.\<close>

definition signalled :: "('w, 'c) io_loop \<Rightarrow> bool" where
  "signalled lp \<longleftrightarrow> lp_work_queue lp = [] \<or> 0 < lp_event_count lp"

lemma uses_loop_signalled: "uses_loop lp lp' \<Longrightarrow> signalled lp \<Longrightarrow> signalled lp'"
  by (induction rule: uses_loop.induct) (simp_all add: signalled_def)

lemma length_filter_remove1:
  "x \<in> set xs \<Longrightarrow> length (filter P xs) = length (filter P (remove1 x xs)) + (if P x then 1 else 0)"
  by (induction xs) auto

lemma kernel_step_eventfd: "kernel_step eager lp lp' \<Longrightarrow> eventfd_reads lp' = eventfd_reads lp"
  by (induction rule: kernel_step.induct)
    (simp_all add: eventfd_reads_def pending_requests_def length_filter_remove1)

text \<open>
  Runs in which the eventfd counter is never reset while completions are being handled.
\<close>

inductive prompt for eager and outside and exec_work and exec_callback and lp0 and s0 where
  start: "post_eventfd_read lp0 = Some lp \<Longrightarrow> prompt eager outside exec_work exec_callback lp0 s0 (Submitting, lp, s0)"
| step: "prompt eager outside exec_work exec_callback lp0 s0 x \<Longrightarrow> run_step eager outside exec_work exec_callback x y \<Longrightarrow>
     (fst x = Reaping \<Longrightarrow> lp_event_count (fst (snd x)) \<le> lp_event_count (fst (snd y))) \<Longrightarrow>
     prompt eager outside exec_work exec_callback lp0 s0 y"

definition awake :: "phase \<times> ('w, 'c) io_loop \<times> 's \<Rightarrow> bool" where
  "awake = (\<lambda>(ph, lp, s). ph = Stopped \<or> signalled lp \<or> ph \<noteq> Reaping \<and> (\<exists>rq\<in>set (lp_cq lp). rq_type (fst rq) = EVENTFD))"

section \<open>Programs on the loop\<close>

locale loop_program =
  fixes exec_work :: "'e \<Rightarrow> 'w \<Rightarrow> ('w, 'c) io_loop \<times> 's \<Rightarrow> (('w, 'c) io_loop \<times> 's) option"
    and exec_callback :: "'c IORequest \<Rightarrow> int \<Rightarrow> 'e \<Rightarrow> ('w, 'c) io_loop \<times> 's \<Rightarrow> (('w, 'c) io_loop \<times> 's) option"
  assumes work_uses: "exec_work e w (lp, s) = Some y \<Longrightarrow> uses_loop lp (fst y)"
    and callback_uses: "exec_callback rq res e (lp, s) = Some y \<Longrightarrow> uses_loop lp (fst y)"
begin

lemma run_items_uses: "run_items exec_work es ws (lp, s) = Some y \<Longrightarrow> uses_loop lp (fst y)"
proof (induction ws arbitrary: es lp s)
  case (Cons w ws)
  then obtain lp1 s1 where x: "exec_work (es 0) w (lp, s) = Some (lp1, s1)"
    and "run_items exec_work (\<lambda>i. es (Suc i)) ws (lp1, s1) = Some y"
    by (auto split: bind_splits)
  from Cons.IH [OF this(2)] work_uses [OF x] show ?case
    by (simp add: uses_loop_trans)
qed (auto intro: uses_loop.idle)

lemma process_uses:
  "process_work_queue exec_work es (lp, s) = Some (lp', s') \<Longrightarrow> uses_loop (lp\<lparr>lp_work_queue := []\<rparr>) lp'"
  using run_items_uses [of es "lp_work_queue lp" "lp\<lparr>lp_work_queue := []\<rparr>" s "(lp', s')"]
  by (simp add: process_work_queue_def)

lemma completion_eventfd:
  assumes "handle_completion exec_callback rq res e (lp, s) = Some (lp', s')"
  shows "eventfd_reads lp' = eventfd_reads lp + (if rq_type rq = EVENTFD then 1 else 0)"
proof (cases "rq_type rq = EVENTFD")
  case True
  with assms show ?thesis
    by (auto simp: handle_completion_def post_eventfd_read_def prepare_request_def new_IORequest_def
        eventfd_reads_def pending_requests_def split: if_splits)
next
  case False
  with assms show ?thesis
    using callback_uses [of rq res e lp s "(lp', s')"] uses_loop_keeps [of lp lp'] by (simp add: handle_completion_def)
qed

lemma loop_step_eventfd:
  assumes "loop_step exec_work exec_callback x y"
  shows "eventfd_reads (fst (snd y)) = eventfd_reads (fst (snd x))"
  using assms
proof (cases rule: loop_step.cases)
  case (submit lp s)
  then show ?thesis by (simp add: eventfd_reads_def pending_requests_def)
next
  case (wake lp es s lp' s')
  then show ?thesis
    using uses_loop_keeps [OF process_uses [OF wake(4)]] by (auto simp: eventfd_reads_def pending_requests_def)
next
  case (reap lp rq res rest e s lp' s')
  then show ?thesis
    using completion_eventfd [OF reap(4)] by (auto simp: eventfd_reads_def pending_requests_def)
qed simp_all

theorem eventfd_wired:
  assumes "running eager outside exec_work exec_callback lp0 s0 x" and "eventfd_reads lp0 = 0"
  shows "eventfd_reads (fst (snd x)) = 1"
  using assms
proof (induction rule: running.induct)
  case (start lp)
  then show ?case
    by (auto simp: post_eventfd_read_def prepare_request_def new_IORequest_def eventfd_reads_def pending_requests_def
        split: if_splits)
next
  case (step x y)
  from step.hyps(2) step.IH [OF step.prems] show ?case
    by (cases rule: run_step.cases) (auto simp: loop_step_eventfd kernel_step_eventfd)
qed

text \<open>
  The work queue is looked at before the completions are. As long as the eventfd read does not
  complete while completions are being handled, posted work always has a wake-up on its way.
\<close>

lemma loop_step_awake:
  assumes "loop_step exec_work exec_callback x y" and "awake x"
  shows "awake y"
  using assms
proof (cases rule: loop_step.cases)
  case (wake lp es s lp' s')
  have "signalled lp'"
    by (rule uses_loop_signalled [OF process_uses [OF wake(4)]]) (simp add: signalled_def)
  with wake show ?thesis by (simp add: awake_def)
next
  case (reap lp rq res rest e s lp' s')
  have "signalled (lp\<lparr>lp_cq := rest\<rparr>)"
    using assms(2) reap(1) by (simp add: awake_def signalled_def)
  moreover have "uses_loop (lp\<lparr>lp_cq := rest\<rparr>) lp'" if "rq_type rq \<noteq> EVENTFD"
    using callback_uses [of rq res e "lp\<lparr>lp_cq := rest\<rparr>" s "(lp', s')"] reap(4) that by (simp add: handle_completion_def)
  moreover have "lp_work_queue lp' = lp_work_queue lp \<and> lp_event_count lp' = lp_event_count lp" if "rq_type rq = EVENTFD"
    using reap(4) that by (auto simp: handle_completion_def post_eventfd_read_def prepare_request_def split: if_splits)
  ultimately have "signalled lp'"
    using uses_loop_signalled [of "lp\<lparr>lp_cq := rest\<rparr>" lp'] by (cases "rq_type rq = EVENTFD") (simp_all add: signalled_def)
  with reap show ?thesis by (simp add: awake_def)
qed (auto simp: awake_def signalled_def)

lemma prompt_awake: "prompt eager outside exec_work exec_callback lp0 s0 x \<Longrightarrow> signalled lp0 \<Longrightarrow> awake x"
proof (induction rule: prompt.induct)
  case (start lp)
  then show ?case
    by (auto simp: awake_def signalled_def post_eventfd_read_def prepare_request_def split: if_splits)
next
  case (step x y)
  have a: "awake x"
    by (rule step.IH [OF step.prems])
  from step.hyps(2) show ?case
  proof (cases rule: run_step.cases)
    case loop
    from loop_step_awake [OF this a] show ?thesis .
  next
    case (kernel lp lp' ph s)
    with a step.hyps(3) show ?thesis
      by (auto simp: awake_def signalled_def elim!: kernel_step.cases)
  next
    case (thread s ws s' ph lp)
    have "uses_loop lp (fold post ws lp)"
      by (rule uses_posts [OF uses_loop.idle])
    from uses_loop_signalled [OF this] uses_loop_keeps [OF this] thread a show ?thesis
      by (auto simp: awake_def)
  qed
qed

lemma prompt_running: "prompt eager outside exec_work exec_callback lp0 s0 x \<Longrightarrow> running eager outside exec_work exec_callback lp0 s0 x"
  by (induction rule: prompt.induct) (auto intro: running.intros)

lemma running_submitted:
  "running eager outside exec_work exec_callback lp0 s0 x \<Longrightarrow> fst x = Waiting \<Longrightarrow> lp_sq (fst (snd x)) = []"
proof (induction rule: running.induct)
  case (step x y)
  from step.hyps(2) step.IH step.prems show ?case
    by (cases rule: run_step.cases) (auto elim!: loop_step.cases kernel_step.cases)
qed simp_all

lemma eventfd_inflight:
  assumes run: "running eager outside exec_work exec_callback lp0 s0 (Waiting, lp, s)" and "eventfd_reads lp0 = 0"
    and "lp_cq lp = []"
  obtains ev where "ev \<in> set (lp_inflight lp)" "rq_type ev = EVENTFD"
proof -
  have "eventfd_reads lp = 1" "lp_sq lp = []"
    using eventfd_wired [OF run assms(2)] running_submitted [OF run] by simp_all
  then have "0 < length (filter (\<lambda>rq. rq_type rq = EVENTFD) (lp_inflight lp))"
    using assms(3) by (simp add: eventfd_reads_def pending_requests_def)
  with that show thesis
    by (auto simp: filter_empty_conv)
qed

theorem posted_work_wakes:
  assumes run: "prompt eager outside exec_work exec_callback lp0 s0 (Waiting, lp, s)" and "eventfd_reads lp0 = 0"
    and "signalled lp0" and work: "lp_work_queue lp \<noteq> []" and "lp_cq lp = []"
  shows "\<exists>lp'. kernel_step eager lp lp' \<and> lp_cq lp' \<noteq> [] \<and> lp_work_queue lp' = lp_work_queue lp"
proof -
  have "0 < lp_event_count lp"
    using prompt_awake [OF run assms(3)] work assms(5) by (simp add: awake_def signalled_def)
  moreover obtain ev where "ev \<in> set (lp_inflight lp)" "rq_type ev = EVENTFD"
    by (rule eventfd_inflight [OF prompt_running [OF run] assms(2,5)])
  ultimately show ?thesis
    using kernel_step.signal [of ev lp eager] by fastforce
qed

text \<open>
  On a kernel where the read comes back at once the loop has nothing to wait for: whenever it
  would sleep, a completion is there.
\<close>

theorem eager_never_sleeps:
  assumes run: "running True outside exec_work exec_callback lp0 s0 (Waiting, lp, s)" and "eventfd_reads lp0 = 0"
    and "lp_cq lp = []"
  shows "\<exists>lp'. kernel_step True lp lp' \<and> lp_cq lp' \<noteq> [] \<and> lp_work_queue lp' = lp_work_queue lp"
proof -
  obtain ev where ev: "ev \<in> set (lp_inflight lp)" "rq_type ev = EVENTFD"
    by (rule eventfd_inflight [OF run assms(2,3)])
  show ?thesis
    using kernel_step.signal [OF ev, of True] kernel_step.refuse [OF ev, of True]
    by (cases "lp_event_count lp = 0") fastforce+
qed

text \<open>
  On the other kernels the wake-up can get lost: when the eventfd read completes while completions
  are being handled, that completion is consumed without another look at the queue, and the loop
  goes to sleep on posted work.
\<close>

theorem posted_work_stranded:
  assumes cq: "lp_cq lp = [(rq, res)]" and "rq_type rq \<noteq> EVENTFD"
    and fly: "ev \<in> set (lp_inflight lp)" "rq_type ev = EVENTFD"
    and cb: "exec_callback rq res e (lp\<lparr>lp_cq := []\<rparr>, s) = Some (lp1, s1)"
    and posted: "0 < lp_event_count lp1" "length (lp_sq lp1) < lp_depth lp1"
  shows "\<exists>lp'. (run_step eager outside exec_work exec_callback)\<^sup>*\<^sup>* (Reaping, lp, s) (Waiting, lp', s1) \<and>
    lp_work_queue lp' = lp_work_queue lp1 \<and> lp_event_count lp' = 0 \<and> lp_cq lp' = [] \<and>
    lp_inflight lp' = remove1 ev (lp_inflight lp) @ lp_sq lp1 @ [(new_IORequest EVENTFD (lp_event_fd lp1) None)\<lparr>rq_length := 8\<rparr>]"
proof -
  let ?ev = "(new_IORequest EVENTFD (lp_event_fd lp1) None)\<lparr>rq_length := 8\<rparr>"
  let ?fly = "remove1 ev (lp_inflight lp)"
  have keep: "lp_inflight lp1 = lp_inflight lp" "lp_cq lp1 = []"
    using uses_loop_keeps [OF callback_uses [OF cb]] by simp_all
  define lp2 where "lp2 = lp1\<lparr>lp_inflight := ?fly, lp_cq := [(ev, 8)], lp_event_count := 0\<rparr>"
  define lp3 where "lp3 = lp1\<lparr>lp_inflight := ?fly, lp_cq := [], lp_event_count := 0, lp_sq := lp_sq lp1 @ [?ev]\<rparr>"
  define lp4 where "lp4 = lp3\<lparr>lp_inflight := lp_inflight lp3 @ lp_sq lp3, lp_sq := []\<rparr>"
  note step = run_step.loop [of exec_work exec_callback _ _ eager outside]
  have "run_step eager outside exec_work exec_callback (Reaping, lp, s) (Reaping, lp1, s1)"
    using cb assms(2) by (intro step loop_step.reap [OF cq]) (simp add: handle_completion_def)
  moreover have "run_step eager outside exec_work exec_callback (Reaping, lp1, s1) (Reaping, lp2, s1)"
    using kernel_step.signal [of ev lp1] keep fly posted(1) by (intro run_step.kernel) (simp add: lp2_def)
  moreover have "run_step eager outside exec_work exec_callback (Reaping, lp2, s1) (Reaping, lp3, s1)"
    using fly(2) keep posted(2)
    by (intro step loop_step.reap [where request = ev and res = 8 and rest = "[]"])
      (simp_all add: lp2_def lp3_def handle_completion_def post_eventfd_read_def prepare_request_def has_sqe_def)
  moreover have "run_step eager outside exec_work exec_callback (Reaping, lp3, s1) (Submitting, lp3, s1)"
    by (intro step loop_step.again) (simp add: lp3_def)
  moreover have "run_step eager outside exec_work exec_callback (Submitting, lp3, s1) (Waiting, lp4, s1)"
    unfolding lp4_def by (intro step loop_step.submit)
  ultimately have "(run_step eager outside exec_work exec_callback)\<^sup>*\<^sup>* (Reaping, lp, s) (Waiting, lp4, s1)"
    by (meson rtranclp.rtrancl_refl rtranclp.rtrancl_into_rtrancl)
  then show ?thesis
    by (intro exI [of _ lp4]) (simp add: lp4_def lp3_def)
qed

text \<open>A loop that waits with no other request under way then stays as it is, whatever else happens.\<close>

lemma asleep:
  assumes "lp_cq lp = []" and "lp_event_count lp = 0" and "\<forall>rq\<in>set (lp_inflight lp). rq_type rq = EVENTFD"
  shows "\<not> loop_step exec_work exec_callback (Waiting, lp, s) y" and "\<not> kernel_step False lp lp'"
  using assms by (auto elim!: loop_step.cases kernel_step.cases)

end

section \<open>Requests beyond the depth of the ring\<close>

text \<open>
  Requests prepared since the last submission occupy the ring; once it is full, further requests
  are dropped: neither the request nor its callback is anywhere.
\<close>

lemma submit_requests:
  "fold submit_request rqs lp = lp\<lparr>lp_sq := lp_sq lp @ take (lp_depth lp - length (lp_sq lp)) rqs\<rparr>"
proof (induction rqs arbitrary: lp)
  case (Cons rq rqs)
  show ?case
  proof (cases "has_sqe lp")
    case True
    then obtain n where "lp_depth lp - length (lp_sq lp) = Suc n"
      by (auto simp: has_sqe_def dest: less_imp_Suc_add)
    moreover from this have "lp_depth lp - Suc (length (lp_sq lp)) = n" by simp
    ultimately show ?thesis
      using True Cons by (simp add: submit_request_def prepare_request_def)
  next
    case False
    with Cons show ?thesis by (simp add: submit_request_def has_sqe_def)
  qed
qed simp_all

lemma timeout_spec_exact:
  assumes "0 \<le> d"
  shows "fst (timeout_spec d) * 1000000000 + snd (timeout_spec d) = d \<and>
    0 \<le> snd (timeout_spec d) \<and> snd (timeout_spec d) < 1000000000"
proof -
  have "d smod 1000000000 = d mod 1000000000"
    using assms by (cases "d = 0") (simp_all add: smod_int_alt_def)
  then show ?thesis
    using sdiv_mult_smod_eq [of d 1000000000] by (simp add: timeout_spec_def)
qed

section \<open>Invariants of programs on the loop\<close>

text \<open>What every task and every callback keeps holds in every state of a run.\<close>

locale loop_invariant = loop_program exec_work exec_callback
  for exec_work :: "'e \<Rightarrow> 'w \<Rightarrow> ('w, 'c) io_loop \<times> 's \<Rightarrow> (('w, 'c) io_loop \<times> 's) option"
    and exec_callback :: "'c IORequest \<Rightarrow> int \<Rightarrow> 'e \<Rightarrow> ('w, 'c) io_loop \<times> 's \<Rightarrow> (('w, 'c) io_loop \<times> 's) option" +
  fixes inv :: "'s \<Rightarrow> bool"
  assumes work_inv: "exec_work e w (lp, s) = Some (lp', s') \<Longrightarrow> inv s \<Longrightarrow> inv s'"
    and callback_inv: "exec_callback rq res e (lp, s) = Some (lp', s') \<Longrightarrow> inv s \<Longrightarrow> inv s'"
begin

lemma run_items_inv: "run_items exec_work es ws (lp, s) = Some (lp', s') \<Longrightarrow> inv s \<Longrightarrow> inv s'"
proof (induction ws arbitrary: es lp s)
  case (Cons w ws)
  then obtain lp1 s1 where x: "exec_work (es 0) w (lp, s) = Some (lp1, s1)"
    and "run_items exec_work (\<lambda>i. es (Suc i)) ws (lp1, s1) = Some (lp', s')"
    by (auto split: bind_splits)
  from Cons.IH [OF this(2)] work_inv [OF x Cons.prems(2)] show ?case by simp
qed simp

lemma loop_step_inv: "loop_step exec_work exec_callback (ph, lp, s) (ph', lp', s') \<Longrightarrow> inv s \<Longrightarrow> inv s'"
  by (erule loop_step.cases)
    (auto simp: process_work_queue_def handle_completion_def intro: run_items_inv callback_inv split: if_splits)

theorem run_inv:
  assumes "running eager outside exec_work exec_callback lp0 s0 (ph, lp, s)" and "inv s0"
    and "\<And>s ws s'. outside s ws s' \<Longrightarrow> inv s \<Longrightarrow> inv s'"
  shows "inv s"
  using assms(1)
proof (induction "(ph, lp, s)" arbitrary: ph lp s rule: running.induct)
  case (step x)
  obtain ph1 lp1 s1 where x: "x = (ph1, lp1, s1)" by (metis prod.exhaust)
  have "inv s1" by (rule step.hyps(2) [OF x])
  with step.hyps(3) show ?case
    unfolding x by (cases rule: run_step.cases) (auto intro: loop_step_inv assms(3))
qed (rule assms(2))

end


section \<open>Chains of requests\<close>

text \<open>
  A program keeps itself going by chains: a task submits a request, whose callback posts the
  task or submits the request again. The links of chain \<open>k\<close> that are under way are the posted
  tasks and the unhandled requests that belong to it.
\<close>

definition request_chain :: "('c \<Rightarrow> 'k option) \<Rightarrow> 'c IORequest \<Rightarrow> 'k option" where
  "request_chain callback_chain rq = (if rq_type rq = EVENTFD then None else Option.bind (rq_callback rq) callback_chain)"

definition links :: "('w \<Rightarrow> 'k option) \<Rightarrow> ('c \<Rightarrow> 'k option) \<Rightarrow> ('w, 'c) io_loop \<Rightarrow> 'k \<Rightarrow> nat" where
  "links work_chain callback_chain lp k =
     length (filter (\<lambda>w. work_chain w = Some k) (lp_work_queue lp)) +
     length (filter (\<lambda>rq. request_chain callback_chain rq = Some k) (pending_requests lp))"

lemma links_post: "links wc cc (post w lp) k = links wc cc lp k + (if wc w = Some k then 1 else 0)"
  by (simp add: links_def post_def pending_requests_def)

lemma links_submit:
  "links wc cc (submit_request rq lp) k =
     links wc cc lp k + (if has_sqe lp \<and> request_chain cc rq = Some k then 1 else 0)"
  by (simp add: links_def submit_request_def prepare_request_def pending_requests_def)

lemma links_kernel: "kernel_step eager lp lp' \<Longrightarrow> links wc cc lp' k = links wc cc lp k"
  by (induction rule: kernel_step.induct) (simp_all add: links_def pending_requests_def length_filter_remove1)

lemma uses_loop_room: "uses_loop lp lp' \<Longrightarrow> has_sqe lp' \<Longrightarrow> has_sqe lp"
proof (induction rule: uses_loop.induct)
  case (submits lp lp' rq)
  then show ?case
    by (cases "has_sqe lp'") (simp_all add: submit_request_def)
qed (simp_all add: has_sqe_def)

text \<open>Runs in which the submission queue is never found full between two steps.\<close>

inductive roomy for eager and outside and exec_work and exec_callback and lp0 and s0 where
  start: "post_eventfd_read lp0 = Some lp \<Longrightarrow> roomy eager outside exec_work exec_callback lp0 s0 (Submitting, lp, s0)"
| step: "roomy eager outside exec_work exec_callback lp0 s0 x \<Longrightarrow> run_step eager outside exec_work exec_callback x y \<Longrightarrow>
     has_sqe (fst (snd y)) \<Longrightarrow> roomy eager outside exec_work exec_callback lp0 s0 y"

text \<open>
  \<open>spare s k\<close> counts chains that the program may yet open. A program that never adds a link to
  a chain but in exchange for one that it has handled, or for a spare one, never has more links
  under way than it began with; where it always passes the link on, as long as there is room in
  the ring, it never has fewer.
\<close>

locale loop_chains = loop_program exec_work exec_callback
  for exec_work :: "'e \<Rightarrow> 'w \<Rightarrow> ('w, 'c) io_loop \<times> 's \<Rightarrow> (('w, 'c) io_loop \<times> 's) option"
    and exec_callback :: "'c IORequest \<Rightarrow> int \<Rightarrow> 'e \<Rightarrow> ('w, 'c) io_loop \<times> 's \<Rightarrow> (('w, 'c) io_loop \<times> 's) option" +
  fixes work_chain :: "'w \<Rightarrow> 'k option" and callback_chain :: "'c \<Rightarrow> 'k option" and spare :: "'s \<Rightarrow> 'k \<Rightarrow> nat"
    and perpetual :: "'k set"
  assumes work_links: "exec_work e w (lp, s) = Some (lp', s') \<Longrightarrow>
      links work_chain callback_chain lp' k + spare s' k \<le>
      links work_chain callback_chain lp k + spare s k + (if work_chain w = Some k then 1 else 0)"
    and callback_links: "rq_type rq \<noteq> EVENTFD \<Longrightarrow> exec_callback rq res e (lp, s) = Some (lp', s') \<Longrightarrow>
      links work_chain callback_chain lp' k + spare s' k \<le>
      links work_chain callback_chain lp k + spare s k + (if request_chain callback_chain rq = Some k then 1 else 0)"
    and work_keeps: "exec_work e w (lp, s) = Some (lp', s') \<Longrightarrow> has_sqe lp' \<Longrightarrow> k \<in> perpetual \<Longrightarrow>
      links work_chain callback_chain lp' k =
      links work_chain callback_chain lp k + (if work_chain w = Some k then 1 else 0)"
    and callback_keeps: "rq_type rq \<noteq> EVENTFD \<Longrightarrow> exec_callback rq res e (lp, s) = Some (lp', s') \<Longrightarrow> has_sqe lp' \<Longrightarrow>
      k \<in> perpetual \<Longrightarrow> links work_chain callback_chain lp' k =
      links work_chain callback_chain lp k + (if request_chain callback_chain rq = Some k then 1 else 0)"
begin

abbreviation "lk \<equiv> links work_chain callback_chain"

lemma run_items_links:
  "run_items exec_work es ws (lp, s) = Some (lp', s') \<Longrightarrow>
     lk lp' k + spare s' k \<le> lk lp k + spare s k + length (filter (\<lambda>w. work_chain w = Some k) ws)"
proof (induction ws arbitrary: es lp s)
  case (Cons w ws)
  then obtain lp1 s1 where x: "exec_work (es 0) w (lp, s) = Some (lp1, s1)"
    and "run_items exec_work (\<lambda>i. es (Suc i)) ws (lp1, s1) = Some (lp', s')"
    by (auto split: bind_splits)
  from Cons.IH [OF this(2)] work_links [OF x, of k] show ?case
    by (auto split: if_splits)
qed simp

lemma run_items_keep:
  "run_items exec_work es ws (lp, s) = Some (lp', s') \<Longrightarrow> has_sqe lp' \<Longrightarrow> k \<in> perpetual \<Longrightarrow>
     lk lp' k = lk lp k + length (filter (\<lambda>w. work_chain w = Some k) ws)"
proof (induction ws arbitrary: es lp s)
  case (Cons w ws)
  then obtain lp1 s1 where x: "exec_work (es 0) w (lp, s) = Some (lp1, s1)"
    and rest: "run_items exec_work (\<lambda>i. es (Suc i)) ws (lp1, s1) = Some (lp', s')"
    by (auto split: bind_splits)
  have "has_sqe lp1"
    using run_items_uses [OF rest] Cons.prems(2) uses_loop_room by simp
  with Cons.IH [OF rest Cons.prems(2,3)] work_keeps [OF x _ Cons.prems(3)] show ?case
    by (auto split: if_splits)
qed simp

lemma taken_links:
  "lk (lp\<lparr>lp_work_queue := []\<rparr>) k + length (filter (\<lambda>w. work_chain w = Some k) (lp_work_queue lp)) = lk lp k"
  "lp_cq lp = (rq, res) # rest \<Longrightarrow>
     lk (lp\<lparr>lp_cq := rest\<rparr>) k + (if request_chain callback_chain rq = Some k then 1 else 0) = lk lp k"
  by (simp_all add: links_def pending_requests_def)

lemma rearmed_links: "post_eventfd_read lp = Some lp' \<Longrightarrow> lk lp' k = lk lp k"
  by (auto simp: post_eventfd_read_def prepare_request_def new_IORequest_def links_def pending_requests_def
      request_chain_def split: if_splits)

theorem links_step:
  assumes "run_step eager (\<lambda>_ _ _. False) exec_work exec_callback (ph, lp, s) (ph', lp', s')"
  shows "lk lp' k + spare s' k \<le> lk lp k + spare s k"
  using assms
proof (cases rule: run_step.cases)
  case loop
  then show ?thesis
  proof (cases rule: loop_step.cases)
    case submit
    then show ?thesis by (simp add: links_def pending_requests_def)
  next
    case (wake es)
    then show ?thesis
      using run_items_links [of es "lp_work_queue lp" "lp\<lparr>lp_work_queue := []\<rparr>" s lp' s' k] taken_links(1) [of lp k]
      by (simp add: process_work_queue_def)
  next
    case (reap request res rest e)
    show ?thesis
    proof (cases "rq_type request = EVENTFD")
      case True
      with reap show ?thesis
        using taken_links(2) [OF reap(3), of k] rearmed_links [of "lp\<lparr>lp_cq := rest\<rparr>" lp' k]
        by (auto simp: handle_completion_def)
    next
      case False
      with reap show ?thesis
        using taken_links(2) [OF reap(3), of k] callback_links [OF False, of res e "lp\<lparr>lp_cq := rest\<rparr>" s lp' s' k]
        by (simp add: handle_completion_def)
    qed
  qed simp_all
qed (simp_all add: links_kernel)

theorem keeps_step:
  assumes "run_step eager (\<lambda>_ _ _. False) exec_work exec_callback (ph, lp, s) (ph', lp', s')"
    and room: "has_sqe lp'" and k: "k \<in> perpetual"
  shows "lk lp' k = lk lp k"
  using assms(1)
proof (cases rule: run_step.cases)
  case loop
  then show ?thesis
  proof (cases rule: loop_step.cases)
    case submit
    then show ?thesis by (simp add: links_def pending_requests_def)
  next
    case (wake es)
    then show ?thesis
      using run_items_keep [of es "lp_work_queue lp" "lp\<lparr>lp_work_queue := []\<rparr>" s lp' s' k] taken_links(1) [of lp k] room k
      by (simp add: process_work_queue_def)
  next
    case (reap request res rest e)
    show ?thesis
    proof (cases "rq_type request = EVENTFD")
      case True
      with reap show ?thesis
        using taken_links(2) [OF reap(3), of k] rearmed_links [of "lp\<lparr>lp_cq := rest\<rparr>" lp' k]
        by (auto simp: handle_completion_def request_chain_def)
    next
      case False
      with reap show ?thesis
        using taken_links(2) [OF reap(3), of k] callback_keeps [OF False, of res e "lp\<lparr>lp_cq := rest\<rparr>" s lp' s' k] room k
        by (simp add: handle_completion_def)
    qed
  qed simp_all
qed (simp_all add: links_kernel)

theorem links_run:
  assumes "(run_step eager (\<lambda>_ _ _. False) exec_work exec_callback)\<^sup>*\<^sup>* (ph, lp, s) (ph', lp', s')"
  shows "lk lp' k + spare s' k \<le> lk lp k + spare s k"
  using assms
proof (induction "(ph', lp', s')" arbitrary: ph' lp' s' rule: rtranclp_induct)
  case (step y)
  obtain ph1 lp1 s1 where y: "y = (ph1, lp1, s1)" by (metis prod.exhaust)
  from step links_step [of eager ph1 lp1 s1 ph' lp' s' k] show ?case
    unfolding y by fastforce
qed simp

theorem links_running:
  assumes "running eager (\<lambda>_ _ _. False) exec_work exec_callback lp0 s0 (ph, lp, s)"
  shows "lk lp k + spare s k \<le> lk lp0 k + spare s0 k"
  using assms
proof (induction "(ph, lp, s)" arbitrary: ph lp s rule: running.induct)
  case (start lp)
  then show ?case by (simp add: rearmed_links)
next
  case (step x)
  obtain ph1 lp1 s1 where x: "x = (ph1, lp1, s1)" by (metis prod.exhaust)
  from step links_step [of eager ph1 lp1 s1 ph lp s k] show ?case
    unfolding x by fastforce
qed

theorem links_roomy:
  assumes "roomy eager (\<lambda>_ _ _. False) exec_work exec_callback lp0 s0 (ph, lp, s)" and "k \<in> perpetual"
  shows "lk lp k = lk lp0 k"
  using assms(1)
proof (induction "(ph, lp, s)" arbitrary: ph lp s rule: roomy.induct)
  case (start lp)
  then show ?case by (simp add: rearmed_links)
next
  case (step x)
  obtain ph1 lp1 s1 where x: "x = (ph1, lp1, s1)" by (metis prod.exhaust)
  from step keeps_step [of eager ph1 lp1 s1 ph lp s k] assms(2) show ?case
    unfolding x by fastforce
qed

lemma roomy_running:
  "roomy eager outside exec_work exec_callback lp0 s0 x \<Longrightarrow> running eager outside exec_work exec_callback lp0 s0 x"
  by (induction rule: roomy.induct) (auto intro: running.intros)

end


end
