(* ===== verification/Server_Main.thy ===== *)
theory Server_Main
  imports Tcp_Server Replica_Step Io_Uring_Loop
begin

text \<open>
  The program \<open>src/server/server_main.cpp\<close>: from the command line to a running replica, with the
  construction of its networking in \<open>Replica::setup_networking\<close>, and the replica, its server and
  the event loop as one process. What the operating system answers is an argument.
\<close>

section \<open>Construction\<close>

record os_results =
  os_ring :: int
  os_eventfd :: int
  os_socket :: int
  os_setsockopt :: int
  os_bind :: int
  os_listen :: int

definition setup_listening_socket :: "os_results \<Rightarrow> string + int" where
  "setup_listening_socket os =
     (if os_socket os < 0 then Inl ''Failed to create socket''
      else if os_setsockopt os < 0 then Inl ''setsockopt(SO_REUSEADDR) failed''
      else if os_bind os < 0 then Inl ''Bind failed''
      else if os_listen os < 0 then Inl ''Listen failed''
      else Inr (os_socket os))"

text \<open>
  The result is the port to listen on, the listening socket, and the server with its peers.
\<close>

definition setup_networking :: "os_results \<Rightarrow> ReplicaState \<Rightarrow> string + int \<times> int \<times> server" where
  "setup_networking os s =
     (case om_find (st_cluster_config s) (st_id s) of
        None \<Rightarrow> Inl ''map::at''
      | Some self_config \<Rightarrow>
          (case setup_listening_socket os of
             Inl what \<Rightarrow> Inl what
           | Inr server_socket \<Rightarrow>
               let peers_to_connect =
                     [new_Peer i (pc_host pc) (pc_port pc). (i, pc) \<leftarrow> st_cluster_config s, i \<noteq> st_id s]
               in Inr (pc_port self_config, server_socket, new_ReplicaManager (st_id s) peers_to_connect)))"

section \<open>The process\<close>

text \<open>
  The tasks the server posts to its loop, and the callbacks of its requests with what they
  capture.
\<close>

datatype node_work =
    Work_accept
  | Work_read connection
  | Work_write connection "byte list"
  | Work_process_queue

datatype node_callback =
    Cb_accept
  | Cb_read connection
  | Cb_write connection
  | Cb_connect int int
  | Cb_reconnect int
  | Cb_timer timer

type_synonym node_loop = "(node_work, node_callback) io_loop"

record node =
  nd_server_socket :: int
  nd_server :: server
  nd_replica :: replica

text \<open>
  What a callback reads: clocks and the like, the result of \<open>socket\<close>, the contents of the read buffer.
\<close>

record surroundings =
  sr_envs :: "nat \<Rightarrow> environment"
  sr_sock :: int
  sr_buffer :: "byte list"

definition queue_depth :: nat where "queue_depth = 256"

definition new_Replica :: "os_results \<Rightarrow> int \<Rightarrow> peer_config list \<Rightarrow> string + node_loop \<times> node" where
  "new_Replica os i cluster_config =
     (case new_IoUringLoop queue_depth (os_ring os) (os_eventfd os) of
        Inl what \<Rightarrow> Inl what
      | Inr lp \<Rightarrow>
          (case setup_networking os (r_state (new_replica i cluster_config)) of
             Inl what \<Rightarrow> Inl what
           | Inr (port, server_socket, sv) \<Rightarrow> Inr (lp, \<lparr>nd_server_socket = server_socket, nd_server = sv, nd_replica = new_replica i cluster_config\<rparr>)))"

text \<open>
  A call of the server on the loop: accepting, reading and writing are posted as tasks that
  submit the request when they run, connecting and reconnecting are submitted at once, and
  a received message goes to the replica's queue.
\<close>

definition seconds :: "nat \<Rightarrow> int" where "seconds n = int n * 1000000000"
definition milliseconds :: "nat \<Rightarrow> int" where "milliseconds n = int n * 1000000"

definition do_net_call :: "net_call \<Rightarrow> node_loop \<times> replica \<Rightarrow> node_loop \<times> replica" where
  "do_net_call a = (\<lambda>(lp, r). case a of
       Submit_accept \<Rightarrow> (post Work_accept lp, r)
     | Submit_read c \<Rightarrow> (post (Work_read c) lp, r)
     | Submit_write c data \<Rightarrow> (post (Work_write c data) lp, r)
     | Submit_connect i sock host port \<Rightarrow> (submit_connect sock (host, port) (Cb_connect i sock) lp, r)
     | Submit_reconnect delay i \<Rightarrow> (submit_timeout (seconds delay) (Cb_reconnect i) lp, r)
     | Close_fd fd \<Rightarrow> (lp, r)
     | Received c m \<Rightarrow> (post Work_process_queue lp, enqueue_message (Some c) m r))"

text \<open>A method of the server with the calls it makes; \<open>None\<close> is an exception.\<close>

definition run_server :: "(server \<Rightarrow> server option) \<Rightarrow> node_loop \<times> node \<Rightarrow> (node_loop \<times> node) option" where
  "run_server f = (\<lambda>(lp, nd).
     case f (nd_server nd) of
       None \<Rightarrow> None
     | Some sv \<Rightarrow>
         (case fold do_net_call (drop (length (sv_calls (nd_server nd))) (sv_calls sv)) (lp, nd_replica nd) of
            (lp', r) \<Rightarrow> Some (lp', nd\<lparr>nd_server := sv, nd_replica := r\<rparr>)))"

text \<open>What a handler of the replica does to the outside; a null connection is undefined behaviour.\<close>

primrec do_action :: "(byte list \<Rightarrow> byte list) \<Rightarrow> action \<Rightarrow> node_loop \<times> node \<Rightarrow> (node_loop \<times> node) option" where
  "do_action blake3 (Send_message c m) x =
     (case c of None \<Rightarrow> None | Some c \<Rightarrow> run_server (send_message blake3 c m) x)"
| "do_action blake3 (Send_to_peer i m) x = run_server (send_to_peer blake3 i m) x"
| "do_action blake3 (Broadcast_to_peers m) x = run_server (broadcast_to_peers blake3 m) x"
| "do_action blake3 (Submit_timeout d t) x =
     (case x of (lp, nd) \<Rightarrow> Some (submit_timeout (milliseconds d) (Cb_timer t) lp, nd))"
| "do_action blake3 Post_process_queue x =
     (case x of (lp, nd) \<Rightarrow> Some (post Work_process_queue lp, nd))"

primrec do_actions :: "(byte list \<Rightarrow> byte list) \<Rightarrow> action list \<Rightarrow> node_loop \<times> node \<Rightarrow> (node_loop \<times> node) option" where
  "do_actions blake3 [] x = Some x"
| "do_actions blake3 (a # as) x = Option.bind (do_action blake3 a x) (do_actions blake3 as)"

definition run_replica ::
    "(byte list \<Rightarrow> byte list) \<Rightarrow> (replica \<Rightarrow> replica) \<Rightarrow> node_loop \<times> node \<Rightarrow> (node_loop \<times> node) option" where
  "run_replica blake3 f = (\<lambda>(lp, nd).
     let r = f (nd_replica nd)
     in do_actions blake3 (drop (length (r_outbox (nd_replica nd))) (r_outbox r)) (lp, nd\<lparr>nd_replica := r\<rparr>))"

text \<open>The posted tasks. A read asks for as many bytes as the buffer of the connection holds.\<close>

definition exec_node_work ::
    "(byte list \<Rightarrow> byte list) \<Rightarrow> surroundings \<Rightarrow> node_work \<Rightarrow> node_loop \<times> node \<Rightarrow> (node_loop \<times> node) option" where
  "exec_node_work blake3 e w = (\<lambda>(lp, nd). case w of
       Work_accept \<Rightarrow> Some (submit_accept (nd_server_socket nd) Cb_accept lp, nd)
     | Work_read c \<Rightarrow> Some (submit_read c (tc_socket (sv_store (nd_server nd) c)) (length (tc_buffer (sv_store (nd_server nd) c))) (Cb_read c) lp, nd)
     | Work_write c data \<Rightarrow> Some (submit_write c (tc_socket (sv_store (nd_server nd) c)) data (Cb_write c) lp, nd)
     | Work_process_queue \<Rightarrow> run_replica blake3 (process_message_queue (sr_envs e)) (lp, nd))"

text \<open>The callbacks of completed requests.\<close>

definition exec_node_callback ::
    "(byte list \<Rightarrow> byte list) \<Rightarrow> node_callback IORequest \<Rightarrow> int \<Rightarrow> surroundings \<Rightarrow> node_loop \<times> node \<Rightarrow>
     (node_loop \<times> node) option" where
  "exec_node_callback blake3 request res e x =
     (case rq_callback request of
        None \<Rightarrow> Some x
      | Some cb \<Rightarrow>
          (case cb of
             Cb_accept \<Rightarrow> run_server (\<lambda>sv. Some (accept_done res sv)) x
           | Cb_read c \<Rightarrow>
               run_server (read_done blake3 c (if res > 0 then Some (take (nat res) (sr_buffer e)) else None)) x
           | Cb_write c \<Rightarrow> run_server (write_done c res) x
           | Cb_connect i sock \<Rightarrow> run_server (\<lambda>sv. Some (connect_done i sock res sv)) x
           | Cb_reconnect i \<Rightarrow> run_server (\<lambda>sv. Some (attempt_connection (sr_sock e) i sv)) x
           | Cb_timer Liveness_check \<Rightarrow> run_replica blake3 (check_primary_liveness (sr_envs e 0)) x
           | Cb_timer Heartbeat \<Rightarrow> run_replica blake3 heartbeat x))"

section \<open>The program\<close>

text \<open>\<open>Replica::run\<close> up to \<open>loop_.run()\<close>.\<close>

definition start_replica ::
    "(byte list \<Rightarrow> byte list) \<Rightarrow> environment \<Rightarrow> (int \<Rightarrow> int) \<Rightarrow> node_loop \<times> node \<Rightarrow> (node_loop \<times> node) option" where
  "start_replica blake3 env socks x =
     Option.bind (run_server (\<lambda>sv. Some (server_start socks sv)) x) (run_replica blake3 (run env))"

datatype outcome =
    Exit_code int
  | Uncaught_exception
  | Running node_loop node

text \<open>\<open>stoi\<close> is called outside the \<open>try\<close> block.\<close>

definition server_main ::
    "(byte list \<Rightarrow> byte list) \<Rightarrow> os_results \<Rightarrow> environment \<Rightarrow> (int \<Rightarrow> int) \<Rightarrow> string list \<Rightarrow> outcome" where
  "server_main blake3 os env socks argv =
     (if length argv < 2 then Exit_code 1
      else case stoi (argv ! 1) of
             None \<Rightarrow> Uncaught_exception
           | Some self_id \<Rightarrow>
               if \<not> list_ex (\<lambda>peer. pc_id peer = self_id) server_cluster_config then Exit_code 1
               else
                 (case new_Replica os self_id server_cluster_config of
                    Inl what \<Rightarrow> Exit_code 1
                  | Inr x \<Rightarrow>
                      (case start_replica blake3 env socks x of
                         None \<Rightarrow> Exit_code 1
                       | Some (lp, nd) \<Rightarrow> Running lp nd)))"


section \<open>The process uses the loop as it should\<close>

lemma do_net_call_uses: "uses_loop lp0 lp \<Longrightarrow> uses_loop lp0 (fst (do_net_call a (lp, r)))"
  by (cases a) (simp_all add: do_net_call_def uses_submits uses_loop.posts)

lemma do_net_calls_uses: "uses_loop lp0 lp \<Longrightarrow> uses_loop lp0 (fst (fold do_net_call as (lp, r)))"
proof (induction as arbitrary: lp r)
  case (Cons a as)
  obtain lp1 r1 where x: "do_net_call a (lp, r) = (lp1, r1)" by (metis prod.exhaust)
  with do_net_call_uses [OF Cons.prems, of a r] have "uses_loop lp0 lp1" by simp
  from Cons.IH [OF this] x show ?case by simp
qed simp

lemma run_server_uses: "run_server f (lp, nd) = Some y \<Longrightarrow> uses_loop lp0 lp \<Longrightarrow> uses_loop lp0 (fst y)"
  using do_net_calls_uses [of lp0 lp _ "nd_replica nd"]
  by (auto simp: run_server_def split: option.splits prod.splits) (metis fst_conv)

lemma do_action_uses: "do_action blake3 a (lp, nd) = Some y \<Longrightarrow> uses_loop lp0 lp \<Longrightarrow> uses_loop lp0 (fst y)"
  by (cases a) (auto simp: uses_submits uses_loop.posts intro: run_server_uses split: option.splits)

lemma do_actions_uses: "do_actions blake3 as (lp, nd) = Some y \<Longrightarrow> uses_loop lp0 lp \<Longrightarrow> uses_loop lp0 (fst y)"
proof (induction as arbitrary: lp nd)
  case (Cons a as)
  then obtain lp1 nd1 where x: "do_action blake3 a (lp, nd) = Some (lp1, nd1)" "do_actions blake3 as (lp1, nd1) = Some y"
    by (auto split: bind_splits)
  from Cons.IH [OF x(2)] do_action_uses [OF x(1) Cons.prems(2)] show ?case by simp
qed auto

lemma run_replica_uses: "run_replica blake3 f (lp, nd) = Some y \<Longrightarrow> uses_loop lp0 lp \<Longrightarrow> uses_loop lp0 (fst y)"
  by (auto simp: run_replica_def Let_def intro: do_actions_uses)

interpretation node: loop_program "exec_node_work blake3" "exec_node_callback blake3" for blake3
proof
  fix e :: surroundings and w lp nd y
  assume "exec_node_work blake3 e w (lp, nd) = Some y"
  then show "uses_loop lp (fst y)"
    by (cases w) (auto simp: exec_node_work_def uses_submits uses_loop.idle intro: run_replica_uses)
next
  fix rq res and e :: surroundings and lp nd y
  assume "exec_node_callback blake3 rq res e (lp, nd) = Some y"
  then show "uses_loop lp (fst y)"
    by (auto simp: exec_node_callback_def uses_loop.idle intro: run_server_uses run_replica_uses
        split: option.splits node_callback.splits timer.splits)
qed

section \<open>Start-up\<close>

lemma run_outbox:
  "r_outbox (run env r) = r_outbox r @ [Submit_timeout heartbeat_interval Heartbeat, Submit_timeout liveness_check_interval Liveness_check]"
  by (simp add: run_def schedule_heartbeat_def schedule_liveness_check_def emit_def)

lemma start_replica_run:
  "start_replica blake3 env socks (lp, nd) =
     (case fold do_net_call (drop (length (sv_calls (nd_server nd))) (sv_calls (server_start socks (nd_server nd)))) (lp, nd_replica nd) of
        (lp', r) \<Rightarrow> Some (submit_timeout (milliseconds liveness_check_interval) (Cb_timer Liveness_check)
            (submit_timeout (milliseconds heartbeat_interval) (Cb_timer Heartbeat) lp'),
          nd\<lparr>nd_server := server_start socks (nd_server nd), nd_replica := run env r\<rparr>))"
  by (simp add: start_replica_def run_server_def run_replica_def run_outbox split: prod.splits)

lemma server_ids: "list_ex (\<lambda>peer. pc_id peer = i) server_cluster_config \<longleftrightarrow> i = 0 \<or> i = 1 \<or> i = 2"
  by (auto simp: server_cluster_config_def)

definition os_ok :: "os_results \<Rightarrow> bool" where
  "os_ok os \<longleftrightarrow> 0 \<le> os_ring os \<and> os_eventfd os \<noteq> - 1 \<and> 0 \<le> os_socket os \<and> 0 \<le> os_setsockopt os \<and>
     0 \<le> os_bind os \<and> 0 \<le> os_listen os"

definition new_loop :: "int \<Rightarrow> node_loop" where
  "new_loop fd = \<lparr>lp_depth = queue_depth, lp_sq = [], lp_inflight = [], lp_cq = [], lp_event_fd = fd, lp_event_count = 0, lp_work_queue = []\<rparr>"

definition configured_peers :: "int \<Rightarrow> Peer list" where
  "configured_peers i =
     [new_Peer (pc_id pc) (pc_host pc) (pc_port pc). pc \<leftarrow> server_cluster_config, pc_id pc \<noteq> i]"

lemma config_map:
  "st_cluster_config (new_ReplicaState i server_cluster_config) = map (\<lambda>pc. (pc_id pc, pc)) server_cluster_config"
  "st_id (new_ReplicaState i server_cluster_config) = i"
  by (simp_all add: new_ReplicaState_def server_cluster_config_def)

lemma new_Replica_server:
  assumes "i = 0 \<or> i = 1 \<or> i = 2"
  shows "os_ok os \<Longrightarrow> new_Replica os i server_cluster_config =
      Inr (new_loop (os_eventfd os), \<lparr>nd_server_socket = os_socket os, nd_server = new_ReplicaManager i (configured_peers i),
        nd_replica = new_replica i server_cluster_config\<rparr>)"
    and "(\<exists>what. new_Replica os i server_cluster_config = Inl what) \<longleftrightarrow> \<not> os_ok os"
proof -
  obtain pc where "om_find (map (\<lambda>pc. (pc_id pc, pc)) server_cluster_config) i = Some pc"
    using assms by (auto simp: server_cluster_config_def om_find_def)
  then show "os_ok os \<Longrightarrow> new_Replica os i server_cluster_config =
      Inr (new_loop (os_eventfd os), \<lparr>nd_server_socket = os_socket os, nd_server = new_ReplicaManager i (configured_peers i),
        nd_replica = new_replica i server_cluster_config\<rparr>)"
    and "(\<exists>what. new_Replica os i server_cluster_config = Inl what) \<longleftrightarrow> \<not> os_ok os"
    by (auto simp: new_Replica_def setup_networking_def new_replica_def config_map new_IoUringLoop_def
        setup_listening_socket_def os_ok_def new_loop_def configured_peers_def comp_def
        split: sum.splits)
qed

lemma server_main_cases:
  "server_main blake3 os env socks argv =
     (if length argv < 2 then Exit_code 1
      else case stoi (argv ! 1) of
        None \<Rightarrow> Uncaught_exception
      | Some i \<Rightarrow>
          if (i = 0 \<or> i = 1 \<or> i = 2) \<and> os_ok os
          then (case start_replica blake3 env socks (new_loop (os_eventfd os), \<lparr>nd_server_socket = os_socket os, nd_server = new_ReplicaManager i (configured_peers i),
                  nd_replica = new_replica i server_cluster_config\<rparr>) of Some (lp, nd) \<Rightarrow> Running lp nd | None \<Rightarrow> Exit_code 1)
          else Exit_code 1)"
proof (cases "stoi (argv ! 1)")
  case (Some i)
  show ?thesis
  proof (cases "i = 0 \<or> i = 1 \<or> i = 2")
    case True
    then show ?thesis
      using Some new_Replica_server [OF True, of os]
      by (cases "os_ok os") (auto simp: server_main_def server_ids simp del: One_nat_def)
  qed (simp add: Some server_main_def server_ids del: One_nat_def)
qed (simp add: server_main_def del: One_nat_def)

definition first_requests :: "(int \<Rightarrow> int) \<Rightarrow> int \<Rightarrow> node_callback list" where
  "first_requests socks i =
     map (\<lambda>j. if socks j < 0 then Cb_reconnect j else Cb_connect j (socks j)) [0..i - 1] @
     [Cb_timer Heartbeat, Cb_timer Liveness_check]"

lemma started_loop:
  assumes "i = 0 \<or> i = 1 \<or> i = 2"
  shows "\<exists>lp sv. start_replica blake3 env socks (new_loop fd, \<lparr>nd_server_socket = sock, nd_server = new_ReplicaManager i (configured_peers i),
      nd_replica = r\<rparr>) = Some (lp, \<lparr>nd_server_socket = sock, nd_server = sv, nd_replica = run env r\<rparr>) \<and>
    lp_work_queue lp = [Work_accept] \<and> lp_inflight lp = [] \<and> lp_cq lp = [] \<and> lp_depth lp = queue_depth \<and> lp_event_count lp = 1 \<and>
    map rq_callback (lp_sq lp) = map Some (first_requests socks i) \<and> (\<forall>rq\<in>set (lp_sq lp). rq_type rq \<noteq> EVENTFD) \<and>
    sv = server_start socks (new_ReplicaManager i (configured_peers i))"
proof -
  have upto: "[0..0] = [0::int]" "[0..1] = [0, 1::int]"
    by (simp_all add: upto_rec1)
  show ?thesis
  using assms
  by (elim disjE) (simp_all add: start_replica_run server_start_def connect_to_peers_def configured_peers_def
    server_cluster_config_def new_ReplicaManager_def om_find_def attempt_connection_def Let_def start_accept_def call_def
    new_Peer_def set_peer_def do_net_call_def schedule_reconnect_def first_requests_def upto
    post_def new_loop_def max_event_count_def submit_connect_def submit_timeout_def submit_request_def has_sqe_def
    queue_depth_def prepare_request_def new_IORequest_def)
qed

text \<open>
  C39: start-up. The server runs exactly when its first argument is the number of a configured
  replica and the operating system grants the ring, the eventfd and the listening socket; an
  argument that is no number ends it with an uncaught exception, and every other failure with exit
  code 1. A running server has one posted task, to accept a connection; it is about to connect
  to the replicas with lower numbers (or to retry where it got no socket), and both of the
  replica's timers are set.
\<close>
theorem server_main_outcomes:
  fixes blake3 :: "byte list \<Rightarrow> byte list" and os env socks argv
  defines "out \<equiv> server_main blake3 os env socks argv"
  defines "ok \<equiv> \<lambda>i. 2 \<le> length argv \<and> stoi (argv ! 1) = Some i \<and> 0 \<le> i \<and> i \<le> 2 \<and>
      0 \<le> os_ring os \<and> os_eventfd os \<noteq> - 1 \<and> 0 \<le> os_socket os \<and> 0 \<le> os_setsockopt os \<and> 0 \<le> os_bind os \<and> 0 \<le> os_listen os"
  shows "((\<exists>lp nd. out = Running lp nd) \<longleftrightarrow> (\<exists>i. ok i)) \<and>
     (out = Uncaught_exception \<longleftrightarrow> 2 \<le> length argv \<and> stoi (argv ! 1) = None) \<and>
     ((\<exists>lp nd. out = Running lp nd) \<or> out = Uncaught_exception \<or> out = Exit_code 1) \<and>
     (\<forall>i. ok i \<longrightarrow> (\<exists>lp nd. out = Running lp nd \<and> nd_replica nd = run env (new_replica i server_cluster_config) \<and>
       lp_work_queue lp = [Work_accept] \<and>
       map rq_callback (lp_sq lp) = map Some (
         map (\<lambda>j. if socks j < 0 then Cb_reconnect j else Cb_connect j (socks j)) [0..i - 1] @
         [Cb_timer Heartbeat, Cb_timer Liveness_check])))"
proof -
  have ok: "ok i \<longleftrightarrow> 2 \<le> length argv \<and> stoi (argv ! 1) = Some i \<and> (i = 0 \<or> i = 1 \<or> i = 2) \<and> os_ok os" for i
    by (auto simp: ok_def os_ok_def)
  have A: "\<exists>lp nd. out = Running lp nd \<and> nd_replica nd = run env (new_replica i server_cluster_config) \<and>
       lp_work_queue lp = [Work_accept] \<and> map rq_callback (lp_sq lp) = map Some (first_requests socks i)" if "ok i" for i
  proof -
    have i: "i = 0 \<or> i = 1 \<or> i = 2" and rest: "2 \<le> length argv" "stoi (argv ! 1) = Some i" "os_ok os"
      using that unfolding ok by blast+
    from started_loop [OF i, of blake3 env socks "os_eventfd os" "os_socket os" "new_replica i server_cluster_config"] rest i
    show ?thesis
      unfolding out_def server_main_cases by (auto simp del: One_nat_def)
  qed
  have failed: "out = (if 2 \<le> length argv \<and> stoi (argv ! 1) = None then Uncaught_exception else Exit_code 1)" if "\<nexists>i. ok i"
    using that unfolding out_def server_main_cases ok by (auto split: option.splits simp del: One_nat_def)
  show ?thesis
  proof (cases "\<exists>i. ok i")
    case True
    then obtain i where i: "ok i" by blast
    have "ok j \<Longrightarrow> j = i" for j
      using i by (simp add: ok_def)
    with A [OF i] i show ?thesis
      unfolding first_requests_def by (auto simp: ok_def simp del: One_nat_def)
  next
    case False
    with failed [OF False] show ?thesis by auto
  qed
qed

definition sample_os :: os_results where
  "sample_os = \<lparr>os_ring = 0, os_eventfd = 4, os_socket = 5, os_setsockopt = 0, os_bind = 0, os_listen = 0\<rparr>"

definition sample_environment :: environment where
  "sample_environment = \<lparr>env_now = 0, env_tv_sec = 0, env_tv_nsec = 0, env_junk = 0\<rparr>"

lemma stoi_one: "stoi ''1'' = Some 1"
  by (simp add: stoi_def is_space_def is_digit_def digits_value_def)

theorem server_main_outcomes_witness:
  "\<exists>lp nd. server_main (\<lambda>_. []) sample_os sample_environment (\<lambda>_. 9) [''server'', ''1''] = Running lp nd \<and>
     map rq_callback (lp_sq lp) = [Some (Cb_connect 0 9), Some (Cb_timer Heartbeat), Some (Cb_timer Liveness_check)]"
proof -
  have "[0..1 - 1] = [0::int]" by simp
  with server_main_outcomes [of "\<lambda>_. []" sample_os sample_environment "\<lambda>_. 9" "[''server'', ''1'']",
      THEN conjunct2, THEN conjunct2, THEN conjunct2, THEN spec, of 1]
  show ?thesis
    by (auto simp: sample_os_def stoi_one)
qed

end
