(* ===== verification/Server_Process.thy ===== *)
theory Server_Process
  imports Server_Main
begin

text \<open>
  The server process over time: the runs of the event loop with the replica and its server
  on it. Every state of the replica in a run is one of the states \<open>Replica_Step\<close> reaches, the
  server's likewise; the loop keeps its eventfd armed; each of the chains of requests that keep
  the server going has at most one link under way, and breaks for good when the ring is full.
\<close>

section \<open>What handling the queue emits\<close>

text \<open>
  Handlers only send. \<open>ok\<close> is a condition on the connections messages are sent on, which holds of
  the connection a message came over.
\<close>

fun sending :: "(connection option \<Rightarrow> bool) \<Rightarrow> action \<Rightarrow> bool" where
  "sending ok (Send_message c m) = ok c"
| "sending ok (Send_to_peer i m) = True"
| "sending ok (Broadcast_to_peers m) = True"
| "sending ok (Submit_timeout d t) = False"
| "sending ok Post_process_queue = False"

definition talks :: "(connection option \<Rightarrow> bool) \<Rightarrow> replica \<Rightarrow> replica \<Rightarrow> bool" where
  "talks ok r r' \<longleftrightarrow> (\<exists>acts. r_outbox r' = r_outbox r @ acts \<and> list_all (sending ok) acts)"

definition queue_from :: "(connection option \<Rightarrow> bool) \<Rightarrow> replica \<Rightarrow> bool" where
  "queue_from ok r \<longleftrightarrow> (\<forall>inbound\<in>set (r_message_queue r). ok (in_connection inbound))"

named_theorems talk

locale talker =
  fixes ok :: "connection option \<Rightarrow> bool"
  assumes ok_connection: "ok (Some c)"
begin

lemma talks_same [talk]: "r_outbox r' = r_outbox r \<Longrightarrow> talks ok r r'"
  by (simp add: talks_def)

lemma talks_emit [talk]: "talks ok r r' \<Longrightarrow> sending ok a \<Longrightarrow> talks ok r (emit a r')"
  by (force simp: talks_def)

lemma talks_trans: "talks ok r r' \<Longrightarrow> talks ok r' r'' \<Longrightarrow> talks ok r r''"
  by (force simp: talks_def)

lemma talks_outbox: "talks ok r r' \<Longrightarrow> r_outbox r'' = r_outbox r' \<Longrightarrow> talks ok r r''"
  by (simp add: talks_def)

lemma talks_execute_entry: "talks ok r (execute_entry e r)"
  by (auto simp: execute_entry_def send_reply_def Let_def talks_def ok_connection split: option.splits prod.splits)

lemma talks_execute [talk]: "talks ok r0 r \<Longrightarrow> talks ok r0 (execute_commited_ops r)"
proof (induction r rule: execute_commited_ops_induct)
  case (advance r e)
  have "talks ok r (execute_next e r)"
    using talks_execute_entry [of r e] by (simp add: execute_next_def talks_def)
  with advance show ?case
    using talks_trans by metis
qed simp

lemma talks_state [talk]: "talks ok r0 r \<Longrightarrow> talks ok r0 (r\<lparr>r_state := s\<rparr>)"
  by (simp add: talks_def)

lemma talks_queue [talk]: "talks ok r0 r \<Longrightarrow> talks ok r0 (r\<lparr>r_message_queue := q\<rparr>)"
  by (simp add: talks_def)

lemma talks_learn_commit [talk]: "talks ok r0 r \<Longrightarrow> talks ok r0 (learn_commit k r)"
  by (simp add: learn_commit_def talk)

lemma talks_advance [talk]: "talks ok r0 r \<Longrightarrow> talks ok r0 (advance_primary_commit_number r)"
  by (simp add: advance_primary_commit_number_def talk del: advance_loop.simps)

lemma talks_retroactive [talk]: "talks ok r0 r \<Longrightarrow> talks ok r0 (retroactive_loop n op p r)"
  by (induction n arbitrary: op r) (simp_all add: retroactive_loop.simps(2) talk)

lemma talks_contact [talk]: "talks ok r0 r \<Longrightarrow> talks ok r0 (r\<lparr>r_last_primary_contact := t\<rparr>)"
  by (simp add: talks_def)

lemma talks_connections [talk]: "talks ok r0 r \<Longrightarrow> talks ok r0 (r\<lparr>r_client_connections := m\<rparr>)"
  by (simp add: talks_def)

lemma talks_nonce [talk]: "talks ok r0 r \<Longrightarrow> talks ok r0 (r\<lparr>r_nonce_counter := n\<rparr>)"
  by (simp add: talks_def)

lemma talks_ping [talk]: "ok (in_connection inbound) \<Longrightarrow> talks ok r (handle_ping inbound r)"
  by (simp add: handle_ping_def Let_def talk)

lemma talks_request [talk]: "ok (in_connection inbound) \<Longrightarrow> talks ok r (handle_request inbound r)"
  by (simp add: handle_request_def Let_def talk)

lemma talks_prepare [talk]: "ok (in_connection inbound) \<Longrightarrow> talks ok r (handle_prepare env inbound r)"
  by (simp add: handle_prepare_def Let_def talk)

lemma talks_prepare_ok [talk]: "talks ok r (handle_prepare_ok inbound r)"
  by (simp add: handle_prepare_ok_def Let_def talk split: option.splits)

lemma talks_commit [talk]: "talks ok r (handle_commit env inbound r)"
  by (simp add: handle_commit_def talk)

lemma talks_do_view_change [talk]: "talks ok r0 r \<Longrightarrow> talks ok r0 (handle_do_view_change env inbound r)"
  by (simp add: handle_do_view_change_def Let_def talk split: prod.splits)

lemma talks_start_view_change [talk]: "talks ok r (handle_start_view_change env inbound r)"
  by (simp add: handle_start_view_change_def Let_def talk)


lemma talks_start_view [talk]: "talks ok r (handle_start_view env inbound r)"
  by (simp add: handle_start_view_def Let_def talk split: prod.splits bool.splits)

lemma talks_recovery_request [talk]: "talks ok r (handle_recovery_request inbound r)"
  by (simp add: handle_recovery_request_def Let_def talk split: prod.splits bool.splits)

lemma talks_recovery_response [talk]: "talks ok r (handle_recovery_response env inbound r)"
  by (simp add: handle_recovery_response_def adopt_recovery_def Let_def talk split: option.splits prod.splits bool.splits)

lemma talks_dispatch: "ok (in_connection inbound) \<Longrightarrow> talks ok r (dispatch env inbound r)"
  by (cases "h_command (in_header inbound)") (simp_all add: dispatch_def talk)

lemma talks_initiate [talk]: "talks ok r (initiate_view_change r)" "talks ok r (initiate_recovery env r)"
  by (simp_all add: initiate_view_change_def initiate_recovery_def Let_def talk split: prod.splits)

lemma queue_step_talks:
  assumes "queue_step r r'" and "queue_from ok r"
  shows "talks ok r r' \<and> queue_from ok r'"
  using assms
proof (cases rule: queue_step.cases)
  case (handle inbound rest env)
  let ?r = "r\<lparr>r_message_queue := rest\<rparr>"
  have "talks ok ?r r'"
    using assms(2) handle by (auto simp: queue_from_def intro!: talks_dispatch)
  moreover have "r_message_queue r' = rest"
    using handle by simp
  ultimately show ?thesis
    using assms(2) handle(2) by (auto simp: talks_def queue_from_def)
next
  case (join inbound rest)
  then show ?thesis
    using assms(2) by (simp add: queue_from_def talk) (simp add: initiate_view_change_def Let_def)
qed (auto simp: queue_from_def intro: talk)

lemma queue_steps_talk: "queue_step\<^sup>*\<^sup>* r r' \<Longrightarrow> queue_from ok r \<Longrightarrow> talks ok r r' \<and> queue_from ok r'"
proof (induction rule: rtranclp_induct)
  case (step r' r'')
  then show ?case
    using queue_step_talks [of r' r''] talks_trans [of r r' r''] by blast
qed (simp add: talks_same)

lemma process_talks:
  "queue_from ok r \<Longrightarrow> talks ok r (process_message_queue envs r) \<and> queue_from ok (process_message_queue envs r)"
  unfolding process_message_queue_def by (rule queue_steps_talk [OF process_loop_steps])

end

interpretation any: talker "\<lambda>_. True"
  by unfold_locales simp

definition given :: "connection option \<Rightarrow> bool" where
  "given c \<longleftrightarrow> c \<noteq> None"

lemma given_Some [simp]: "given (Some c)"
  by (simp add: given_def)

interpretation connected: talker given
  by unfold_locales simp

lemma process_talks_any: "talks (\<lambda>_. True) r (process_message_queue envs r)"
  using any.process_talks [of r envs] by (simp add: queue_from_def)

section \<open>The calls of the server\<close>

text \<open>Messages that the framing layer hands on are well formed.\<close>

lemma frame_loop_ok: "frame_loop blake3 buf = (ms, rest) \<Longrightarrow> list_all message_ok ms"
proof (induction "length buf" arbitrary: buf ms rest rule: less_induct)
  case less
  show ?case
  proof (cases "128 \<le> length buf \<and> 0 < frame_size buf \<and> frame_size buf \<le> 65536 \<and> frame_size buf \<le> length buf")
    case True
    obtain ok m where m: "deserialize blake3 (take (frame_size buf) buf) new_message = (ok, m)" by (metis prod.exhaust)
    obtain ms' rest' where r: "frame_loop blake3 (drop (frame_size buf) buf) = (ms', rest')" by (metis prod.exhaust)
    have "list_all message_ok ms'"
      by (rule less.hyps [OF _ r]) (use True in auto)
    moreover have "message_ok m" if ok
    proof -
      have "deserialize blake3 (take (frame_size buf) buf) new_message = (True, m)"
        using m that by simp
      then have "wf_message m" "length (msg_payload m) \<le> 65536"
        using deserialize_wf True by (blast, auto simp: deserialize_accepts)
      then show ?thesis by (simp add: message_ok_def wf_message_def)
    qed
    ultimately show ?thesis
      using less.prems frame_loop_message [of buf blake3] True m r by (cases ok) auto
  next
    case False
    then consider "length buf < 128" | "128 \<le> length buf" "frame_size buf = 0 \<or> 65536 < frame_size buf"
      | "128 \<le> length buf" "0 < frame_size buf" "frame_size buf \<le> 65536" "length buf < frame_size buf"
      by linarith
    then have "ms = []"
      using less.prems frame_loop_short [of buf blake3] frame_loop_bad_size [of buf blake3] frame_loop_partial [of buf blake3]
      by cases auto
    then show ?thesis by simp
  qed
qed

text \<open>
  What the methods of the server call, apart from accepting and reading: every call satisfies
  \<open>ok\<close>, and no connection is made.
\<close>

definition calls_only :: "(net_call \<Rightarrow> bool) \<Rightarrow> server \<Rightarrow> server \<Rightarrow> bool" where
  "calls_only ok sv sv' \<longleftrightarrow> sv_fresh sv' = sv_fresh sv \<and> (\<exists>as. sv_calls sv' = sv_calls sv @ as \<and> list_all ok as)"

named_theorems hush

locale caller =
  fixes ok :: "net_call \<Rightarrow> bool"
  assumes ok_calls: "ok (Submit_write c data)" "ok (Submit_connect i fd host port)" "ok (Submit_reconnect d i)" "ok (Close_fd fd)"
    and ok_received: "message_ok m \<Longrightarrow> ok (Received c m)"
begin

lemma calls_same [hush]: "sv_calls sv' = sv_calls sv \<Longrightarrow> sv_fresh sv' = sv_fresh sv \<Longrightarrow> calls_only ok sv sv'"
  by (simp add: calls_only_def)

lemma calls_call [hush]: "calls_only ok sv sv' \<Longrightarrow> ok a \<Longrightarrow> calls_only ok sv (call a sv')"
  by (force simp: calls_only_def)

lemma calls_updates [hush]:
  "calls_only ok sv sv' \<Longrightarrow> calls_only ok sv (set_connection c t sv')" "calls_only ok sv sv' \<Longrightarrow> calls_only ok sv (set_peer i f sv')"
  "calls_only ok sv sv' \<Longrightarrow> calls_only ok sv (sv'\<lparr>sv_connections := x\<rparr>)" "calls_only ok sv sv' \<Longrightarrow> calls_only ok sv (sv'\<lparr>sv_buffers := y\<rparr>)"
  "calls_only ok sv sv' \<Longrightarrow> calls_only ok sv (sv'\<lparr>sv_socket_to_peer_id := z\<rparr>)"
  by (simp_all add: calls_only_def)

lemma calls_trans: "calls_only ok sv sv' \<Longrightarrow> calls_only ok sv' sv'' \<Longrightarrow> calls_only ok sv sv''"
  by (force simp: calls_only_def)

lemma calls_close [hush]: "calls_only ok sv sv' \<Longrightarrow> calls_only ok sv (close_connection c sv')"
  by (simp add: close_connection_def close_socket_def hush ok_calls)

lemma calls_received [hush]:
  "calls_only ok sv sv' \<Longrightarrow> list_all message_ok ms \<Longrightarrow> calls_only ok sv (fold (\<lambda>m. call (Received c m)) ms sv')"
  by (induction ms arbitrary: sv') (simp_all add: hush ok_received)

lemma calls_on_message [hush]: "calls_only ok sv sv' \<Longrightarrow> calls_only ok sv (on_message blake3 c data sv')"
  using frame_loop_ok
  by (auto simp: on_message_def handle_raw_data_def Let_def hush ok_calls split: option.splits prod.splits)

lemma calls_register [hush]: "calls_only ok sv sv' \<Longrightarrow> calls_only ok sv (register_identified_peer i c sv')"
  by (simp add: register_identified_peer_def hush ok_calls split: option.splits)

lemma calls_attempt [hush]: "calls_only ok sv sv' \<Longrightarrow> calls_only ok sv (attempt_connection fd i sv')"
  by (simp add: attempt_connection_def schedule_reconnect_def Let_def hush ok_calls split: option.splits)

lemma calls_on_disconnect: "on_disconnect c sv = Some sv' \<Longrightarrow> calls_only ok sv sv'"
  by (auto simp: on_disconnect_def schedule_reconnect_def Let_def intro!: hush ok_calls split: option.splits if_splits)

lemma calls_remove: "remove_connection c sv = Some sv' \<Longrightarrow> calls_only ok sv sv'"
  by (auto simp: remove_connection_def dest!: calls_on_disconnect intro: hush ok_calls split: option.splits)

lemma calls_send_to_peer [hush]: "calls_only ok sv sv' \<Longrightarrow> calls_only ok sv (mgr_send_to_peer i data sv')"
  by (simp add: mgr_send_to_peer_def server_send_def hush ok_calls split: option.splits)

lemma calls_broadcast: "calls_only ok sv (mgr_broadcast_to_peers data x sv)"
proof -
  have "calls_only ok sv (fold (\<lambda>(i, peer) acc. if i = x then acc else mgr_send_to_peer i data acc) ps sv')"
    if "calls_only ok sv sv'" for ps :: "(int \<times> Peer) list" and sv'
    using that by (induction ps arbitrary: sv') (simp_all add: hush ok_calls split: prod.splits)
  then show ?thesis by (simp add: mgr_broadcast_to_peers_def hush)
qed

lemma calls_sends:
  "send_message blake3 c m sv = Some sv' \<Longrightarrow> calls_only ok sv sv'" "send_to_peer blake3 i m sv = Some sv' \<Longrightarrow> calls_only ok sv sv'"
  "broadcast_to_peers blake3 m sv = Some sv' \<Longrightarrow> calls_only ok sv sv'" "write_done c res sv = Some sv' \<Longrightarrow> calls_only ok sv sv'"
  by (auto simp: send_message_def send_to_peer_def broadcast_to_peers_def server_send_def write_done_def
      calls_broadcast hush ok_calls dest: calls_remove split: option.splits if_splits)

end

section \<open>Chains of the server\<close>

text \<open>
  The requests that keep the server going: one accepts connections, one per connection reads
  from it, and one per timer waits for it.
\<close>

datatype chain = Accepting | Reading connection | Ticking timer

primrec work_chain :: "node_work \<Rightarrow> chain option" where
  "work_chain Work_accept = Some Accepting"
| "work_chain (Work_read c) = Some (Reading c)"
| "work_chain (Work_write c data) = None"
| "work_chain Work_process_queue = None"

primrec callback_chain :: "node_callback \<Rightarrow> chain option" where
  "callback_chain Cb_accept = Some Accepting"
| "callback_chain (Cb_read c) = Some (Reading c)"
| "callback_chain (Cb_write c) = None"
| "callback_chain (Cb_connect i sock) = None"
| "callback_chain (Cb_reconnect i) = None"
| "callback_chain (Cb_timer t) = Some (Ticking t)"

abbreviation under_way :: "node_loop \<Rightarrow> chain \<Rightarrow> nat" where
  "under_way \<equiv> links work_chain callback_chain"

text \<open>Every connection that is yet to be made may open a chain of reads.\<close>

primrec spare_chain :: "server \<Rightarrow> chain \<Rightarrow> nat" where
  "spare_chain sv Accepting = 0"
| "spare_chain sv (Reading c) = (if sv_fresh sv \<le> c then 1 else 0)"
| "spare_chain sv (Ticking t) = 0"

fun call_chain :: "net_call \<Rightarrow> chain option" where
  "call_chain Submit_accept = Some Accepting"
| "call_chain (Submit_read c) = Some (Reading c)"
| "call_chain a = None"

definition asks :: "net_call list \<Rightarrow> chain \<Rightarrow> nat" where
  "asks as k = length (filter (\<lambda>a. call_chain a = Some k) as)"

lemma asks_simps [simp]:
  "asks [] k = 0" "asks (a # as) k = (if call_chain a = Some k then 1 else 0) + asks as k"
  "asks (as @ bs) k = asks as k + asks bs k"
  by (simp_all add: asks_def)

lemma asks_ticking [simp]: "asks as (Ticking t) = 0"
proof -
  have "call_chain a \<noteq> Some (Ticking t)" for a
    by (cases a) simp_all
  then show ?thesis by (simp add: asks_def)
qed

lemmas submit_defs = submit_accept_def submit_read_def submit_write_def submit_connect_def submit_timeout_def
  new_IORequest_def

lemma do_net_call_links: "under_way (fst (do_net_call a (lp, r))) k = under_way lp k + asks [a] k"
  by (cases a) (simp_all add: do_net_call_def links_post links_submit request_chain_def submit_defs)

lemma do_net_calls_links: "under_way (fst (fold do_net_call as (lp, r))) k = under_way lp k + asks as k"
proof (induction as arbitrary: lp r)
  case (Cons a as)
  obtain lp1 r1 where x: "do_net_call a (lp, r) = (lp1, r1)" by (metis prod.exhaust)
  with do_net_call_links [of a lp r k] Cons.IH [of lp1 r1] show ?case by simp
qed simp

interpretation unchained: caller "\<lambda>a. call_chain a = None"
  by unfold_locales simp_all

abbreviation hushed :: "server \<Rightarrow> server \<Rightarrow> bool" where
  "hushed \<equiv> calls_only (\<lambda>a. call_chain a = None)"

lemma hushed_asks: "hushed sv sv' \<Longrightarrow> sv_calls sv' = sv_calls sv @ as \<Longrightarrow> asks as k = 0 \<and> spare_chain sv' k = spare_chain sv k"
  by (cases k) (auto simp: calls_only_def asks_def filter_empty_conv list_all_iff)

abbreviation spare_link :: "node \<Rightarrow> chain \<Rightarrow> nat" where
  "spare_link nd \<equiv> spare_chain (nd_server nd)"

lemma run_server_links:
  assumes "run_server f (lp, nd) = Some (lp', nd')" and "f (nd_server nd) = Some sv"
    and "sv_calls sv = sv_calls (nd_server nd) @ as"
  shows "under_way lp' k = under_way lp k + asks as k" and "nd_server nd' = sv"
  using assms do_net_calls_links [of as lp "nd_replica nd" k]
  by (auto simp: run_server_def split: prod.splits)

lemma run_server_some: "run_server f (lp, nd) = Some y \<Longrightarrow> \<exists>sv. f (nd_server nd) = Some sv"
  by (auto simp: run_server_def split: option.splits)

lemma run_server_hushed:
  assumes run: "run_server f (lp, nd) = Some (lp', nd')" and "\<And>sv'. f (nd_server nd) = Some sv' \<Longrightarrow> hushed (nd_server nd) sv'"
  shows "under_way lp' k = under_way lp k \<and> spare_link nd' k = spare_link nd k"
proof -
  obtain sv as where sv: "f (nd_server nd) = Some sv" "sv_calls sv = sv_calls (nd_server nd) @ as"
    using run_server_some [OF run] assms(2) by (auto simp: calls_only_def)
  from hushed_asks [OF assms(2) [OF sv(1)] sv(2), of k] run_server_links(1) [OF run sv, of k]
    run_server_links(2) [OF run sv] show ?thesis
    by simp
qed

text \<open>Accepting, reading and connecting.\<close>

lemma accept_done_calls:
  "\<exists>as. sv_calls (accept_done fd sv) = sv_calls sv @ as \<and> asks as Accepting = 1 \<and>
     asks as k + spare_chain (accept_done fd sv) k \<le> spare_chain sv k + (if k = Accepting then 1 else 0)"
proof (cases "fd \<ge> 0")
  case True
  then show ?thesis
    by (intro exI [of _ "[Submit_read (sv_fresh sv), Submit_accept]"], cases k)
      (auto simp: accept_done_def start_accept_def handle_new_connection_def make_connection_def start_reading_def call_def)
next
  case False
  then show ?thesis
    by (intro exI [of _ "[Submit_accept]"], cases k) (auto simp: accept_done_def start_accept_def call_def)
qed

lemma read_done_calls:
  assumes "read_done blake3 c result sv = Some sv'"
  shows "\<exists>as. sv_calls sv' = sv_calls sv @ as \<and> asks as Accepting = 0 \<and>
     asks as k + spare_chain sv' k \<le> spare_chain sv k + (if k = Reading c then 1 else 0)"
proof (cases result)
  case None
  have "hushed sv sv'"
    using assms None
    by (auto simp: read_done_def dest!: unchained.calls_remove intro: unchained.calls_trans [OF unchained.calls_updates(4) [OF unchained.calls_same]])
  then obtain as where as: "sv_calls sv' = sv_calls sv @ as" by (auto simp: calls_only_def)
  with hushed_asks [OF \<open>hushed sv sv'\<close> as] show ?thesis by simp
next
  case (Some data)
  then obtain sv1 where sv1: "sv' = start_reading c sv1" "hushed sv sv1"
    using assms by (auto simp: read_done_def Let_def set_conn_state_def intro: hush split: option.splits if_splits)
  then obtain as where as: "sv_calls sv1 = sv_calls sv @ as" by (auto simp: calls_only_def)
  have "spare_chain sv' k = spare_chain sv1 k"
    using sv1(1) by (cases k) (simp_all add: start_reading_def)
  with hushed_asks [OF sv1(2) as] as sv1(1) show ?thesis
    by (intro exI [of _ "as @ [Submit_read c]"]) (auto simp: start_reading_def)
qed

lemma connect_done_calls:
  "\<exists>as. sv_calls (connect_done i fd res sv) = sv_calls sv @ as \<and> asks as Accepting = 0 \<and>
     asks as k + spare_chain (connect_done i fd res sv) k \<le> spare_chain sv k"
proof (cases "res \<ge> 0")
  case True
  let ?c = "sv_fresh sv"
  define sv1 where "sv1 = register_new_connection ?c
    ((set_peer i (\<lambda>p. p\<lparr>peer_state := CONNECTED, peer_connection := Some ?c\<rparr>) (snd (make_connection fd sv)))
      \<lparr>sv_socket_to_peer_id := om_assign fd i (sv_socket_to_peer_id sv)\<rparr>)"
  have sv1: "sv_calls sv1 = sv_calls sv @ [Submit_read ?c]" "sv_fresh sv1 = Suc ?c"
    by (simp_all add: sv1_def register_new_connection_def start_reading_def make_connection_def)
  have conn: "connect_done i fd res sv = send_handshake i sv1"
    using True by (simp add: connect_done_def sv1_def make_connection_def)
  have "hushed sv1 (send_handshake i sv1)"
    by (simp add: send_handshake_def server_send_def hush split: option.splits)
  then obtain as where as: "sv_calls (send_handshake i sv1) = sv_calls sv1 @ as" by (auto simp: calls_only_def)
  have "spare_chain sv1 k + (if k = Reading ?c then 1 else 0) \<le> spare_chain sv k"
    using sv1(2) by (cases k) auto
  with hushed_asks [OF \<open>hushed sv1 _\<close> as] as sv1(1) show ?thesis
    unfolding conn by (intro exI [of _ "Submit_read ?c # as"]) auto
next
  case False
  then have h: "hushed sv (connect_done i fd res sv)"
    by (simp add: connect_done_def schedule_reconnect_def hush)
  then obtain as where as: "sv_calls (connect_done i fd res sv) = sv_calls sv @ as" by (auto simp: calls_only_def)
  with hushed_asks [OF h as] show ?thesis by simp
qed

text \<open>The replica's handlers.\<close>

lemma do_action_sending:
  assumes "do_action blake3 a (lp, nd) = Some (lp', nd')" and "sending ok a"
  shows "under_way lp' k = under_way lp k \<and> spare_link nd' k = spare_link nd k"
  using assms
  by (cases a) (auto dest: unchained.calls_sends intro!: run_server_hushed split: option.splits)

lemma do_actions_sending:
  "do_actions blake3 as (lp, nd) = Some (lp', nd') \<Longrightarrow> list_all (sending ok) as \<Longrightarrow>
     under_way lp' k = under_way lp k \<and> spare_link nd' k = spare_link nd k"
proof (induction as arbitrary: lp nd)
  case (Cons a as)
  then obtain lp1 nd1 where x: "do_action blake3 a (lp, nd) = Some (lp1, nd1)" "do_actions blake3 as (lp1, nd1) = Some (lp', nd')"
    by (auto split: bind_splits)
  from Cons.IH [OF x(2)] do_action_sending [OF x(1), of ok k] Cons.prems(2) show ?case by simp
qed simp

lemma run_replica_talks:
  assumes "run_replica blake3 f (lp, nd) = Some (lp', nd')" and "talks ok (nd_replica nd) (f (nd_replica nd))"
  shows "under_way lp' k = under_way lp k \<and> spare_link nd' k = spare_link nd k"
proof -
  obtain acts where acts: "r_outbox (f (nd_replica nd)) = r_outbox (nd_replica nd) @ acts" "list_all (sending ok) acts"
    using assms(2) by (auto simp: talks_def)
  with assms(1) have "do_actions blake3 acts (lp, nd\<lparr>nd_replica := f (nd_replica nd)\<rparr>) = Some (lp', nd')"
    by (simp add: run_replica_def)
  from do_actions_sending [OF this acts(2), of k] show ?thesis by simp
qed

lemma do_actions_append:
  "do_actions blake3 (as @ bs) x = Option.bind (do_actions blake3 as x) (do_actions blake3 bs)"
  by (induction as arbitrary: x) (auto split: bind_splits)

text \<open>A timer's callback may send and then sets the timer again.\<close>

lemma run_replica_timer:
  assumes run: "run_replica blake3 f (lp, nd) = Some (lp', nd')"
    and f: "f (nd_replica nd) = emit (Submit_timeout d t) r" "talks ok (nd_replica nd) r"
  shows "\<exists>lp1. uses_loop lp1 lp' \<and> under_way lp' k = under_way lp k + (if has_sqe lp1 \<and> k = Ticking t then 1 else 0) \<and>
    spare_link nd' k = spare_link nd k"
proof -
  obtain acts where acts: "r_outbox r = r_outbox (nd_replica nd) @ acts" "list_all (sending ok) acts"
    using f(2) by (auto simp: talks_def)
  let ?nd = "nd\<lparr>nd_replica := f (nd_replica nd)\<rparr>"
  have "do_actions blake3 (acts @ [Submit_timeout d t]) (lp, ?nd) = Some (lp', nd')"
    using run acts(1) f(1) by (simp add: run_replica_def)
  then obtain lp1 nd1 where x: "do_actions blake3 acts (lp, ?nd) = Some (lp1, nd1)"
    and y: "lp' = submit_timeout (milliseconds d) (Cb_timer t) lp1" "nd' = nd1"
    by (auto simp: do_actions_append split: bind_splits)
  have "uses_loop lp1 lp'"
    using y(1) by (simp add: uses_submits uses_loop.idle)
  with do_actions_sending [OF x acts(2), of k] y show ?thesis
    by (intro exI [of _ lp1]) (auto simp: links_submit request_chain_def submit_defs)
qed

lemma timers_talk:
  "\<exists>r'. check_primary_liveness env r = emit (Submit_timeout liveness_check_interval Liveness_check) r' \<and> talks (\<lambda>_. True) r r'"
  "\<exists>r'. heartbeat r = emit (Submit_timeout heartbeat_interval Heartbeat) r' \<and> talks (\<lambda>_. True) r r'"
  by (simp_all add: check_primary_liveness_def schedule_liveness_check_def heartbeat_def schedule_heartbeat_def
      send_commit_message_if_needed_def Let_def)
    (blast intro: any.talks_initiate any.talks_same any.talks_emit sending.simps(3) [THEN iffD2])+

definition perpetual_chains :: "chain set" where
  "perpetual_chains = {Accepting, Ticking Heartbeat, Ticking Liveness_check}"

lemma work_cases:
  assumes "exec_node_work blake3 e w (lp, nd) = Some (lp', nd')"
  shows "spare_link nd' k = spare_link nd k \<and>
    under_way lp' k = under_way lp k + (if has_sqe lp \<and> work_chain w = Some k then 1 else 0)"
proof (cases w)
  case Work_process_queue
  with assms run_replica_talks [of blake3 "process_message_queue (sr_envs e)" lp nd lp' nd', OF _ process_talks_any, of k]
  show ?thesis by (simp add: exec_node_work_def)
qed (use assms in \<open>auto simp: exec_node_work_def links_submit request_chain_def submit_defs\<close>)

lemma callback_cases:
  assumes run: "exec_node_callback blake3 rq res e (lp, nd) = Some (lp', nd')" and "rq_type rq \<noteq> EVENTFD"
  shows "under_way lp' k + spare_link nd' k \<le>
      under_way lp k + spare_link nd k + (if request_chain callback_chain rq = Some k then 1 else 0)"
    and "has_sqe lp' \<Longrightarrow> k \<in> perpetual_chains \<Longrightarrow>
      under_way lp' k = under_way lp k + (if request_chain callback_chain rq = Some k then 1 else 0)"
proof -
  have chain: "request_chain callback_chain rq = Option.bind (rq_callback rq) callback_chain"
    using assms(2) by (simp add: request_chain_def)
  have "under_way lp' k + spare_link nd' k \<le>
      under_way lp k + spare_link nd k + (if request_chain callback_chain rq = Some k then 1 else 0) \<and>
    (has_sqe lp' \<longrightarrow> k \<in> perpetual_chains \<longrightarrow>
      under_way lp' k = under_way lp k + (if request_chain callback_chain rq = Some k then 1 else 0))"
  proof (cases "rq_callback rq")
    case None
    with run chain show ?thesis by (simp add: exec_node_callback_def)
  next
    case (Some cb)
    show ?thesis
    proof (cases cb)
      case Cb_accept
      have r: "run_server (\<lambda>sv. Some (accept_done res sv)) (lp, nd) = Some (lp', nd')"
        using run Some Cb_accept by (simp add: exec_node_callback_def)
      obtain as where as: "sv_calls (accept_done res (nd_server nd)) = sv_calls (nd_server nd) @ as" "asks as Accepting = 1"
        "asks as k + spare_chain (accept_done res (nd_server nd)) k \<le> spare_link nd k + (if k = Accepting then 1 else 0)"
        using accept_done_calls [of res "nd_server nd" k] by blast
      with run_server_links [OF r refl as(1)] chain Some Cb_accept show ?thesis
        by (auto simp: perpetual_chains_def)
    next
      case (Cb_read c)
      let ?result = "if res > 0 then Some (take (nat res) (sr_buffer e)) else None"
      have r: "run_server (read_done blake3 c ?result) (lp, nd) = Some (lp', nd')"
        using run Some Cb_read by (simp add: exec_node_callback_def)
      then obtain sv where sv: "read_done blake3 c ?result (nd_server nd) = Some sv"
        using run_server_some by blast
      obtain as where as: "sv_calls sv = sv_calls (nd_server nd) @ as" "asks as Accepting = 0"
        "asks as k + spare_chain sv k \<le> spare_link nd k + (if k = Reading c then 1 else 0)"
        using read_done_calls [OF sv, of k] by blast
      with run_server_links [OF r sv as(1)] chain Some Cb_read show ?thesis
        by (auto simp: perpetual_chains_def)
    next
      case (Cb_write c)
      with run Some chain run_server_hushed [of "write_done c res" lp nd lp' nd' k] unchained.calls_sends(4) show ?thesis
        by (simp add: exec_node_callback_def)
    next
      case (Cb_connect i fd)
      have r: "run_server (\<lambda>sv. Some (connect_done i fd res sv)) (lp, nd) = Some (lp', nd')"
        using run Some Cb_connect by (simp add: exec_node_callback_def)
      obtain as where as: "sv_calls (connect_done i fd res (nd_server nd)) = sv_calls (nd_server nd) @ as"
        "asks as Accepting = 0"
        "asks as k + spare_chain (connect_done i fd res (nd_server nd)) k \<le> spare_link nd k"
        using connect_done_calls [of i fd res "nd_server nd" k] by blast
      with run_server_links [OF r refl as(1)] chain Some Cb_connect show ?thesis
        by (auto simp: perpetual_chains_def)
    next
      case (Cb_reconnect i)
      with run Some chain run_server_hushed [of "\<lambda>sv. Some (attempt_connection (sr_sock e) i sv)" lp nd lp' nd' k]
        unchained.calls_attempt [OF unchained.calls_same] show ?thesis
        by (simp add: exec_node_callback_def)
    next
      case (Cb_timer t)
      obtain f d r where f: "f (nd_replica nd) = emit (Submit_timeout d t) r" "talks (\<lambda>_. True) (nd_replica nd) r"
        and x: "run_replica blake3 f (lp, nd) = Some (lp', nd')"
        using run Some Cb_timer timers_talk(1) [of "sr_envs e 0" "nd_replica nd"] timers_talk(2) [of "nd_replica nd"]
        by (cases t) (auto simp: exec_node_callback_def)
      from run_replica_timer [OF x f, of k] chain Some Cb_timer show ?thesis
        by (auto dest: uses_loop_room)
    qed
  qed
  then show "under_way lp' k + spare_link nd' k \<le>
      under_way lp k + spare_link nd k + (if request_chain callback_chain rq = Some k then 1 else 0)"
    and "has_sqe lp' \<Longrightarrow> k \<in> perpetual_chains \<Longrightarrow>
      under_way lp' k = under_way lp k + (if request_chain callback_chain rq = Some k then 1 else 0)"
    by blast+
qed

interpretation node_chains: loop_chains "exec_node_work blake3" "exec_node_callback blake3" work_chain callback_chain
    spare_link perpetual_chains for blake3
proof
  fix e w lp nd lp' nd' k
  assume x: "exec_node_work blake3 e w (lp, nd) = Some (lp', nd')"
  show "under_way lp' k + spare_link nd' k \<le> under_way lp k + spare_link nd k + (if work_chain w = Some k then 1 else 0)"
    using work_cases [OF x, of k] by simp
  show "under_way lp' k = under_way lp k + (if work_chain w = Some k then 1 else 0)" if "has_sqe lp'" "k \<in> perpetual_chains"
    using work_cases [OF x, of k] uses_loop_room [of lp lp'] node.work_uses [OF x] that(1) by simp
next
  fix rq res e lp nd lp' nd' k
  assume x: "exec_node_callback blake3 rq res e (lp, nd) = Some (lp', nd')" and rq: "rq_type rq \<noteq> EVENTFD"
  show "under_way lp' k + spare_link nd' k \<le>
      under_way lp k + spare_link nd k + (if request_chain callback_chain rq = Some k then 1 else 0)"
    by (rule callback_cases(1) [OF x rq])
  show "under_way lp' k = under_way lp k + (if request_chain callback_chain rq = Some k then 1 else 0)"
    if "has_sqe lp'" "k \<in> perpetual_chains"
    by (rule callback_cases(2) [OF x rq that])
qed

section \<open>The states of the process\<close>

fun sound_call :: "net_call \<Rightarrow> bool" where
  "sound_call (Received c m) = message_ok m"
| "sound_call a = True"

interpretation sound: caller sound_call
  by unfold_locales simp_all

text \<open>What a method calls, whatever connections it makes.\<close>

definition calls_sound :: "server \<Rightarrow> server \<Rightarrow> bool" where
  "calls_sound sv sv' \<longleftrightarrow> (\<exists>as. sv_calls sv' = sv_calls sv @ as \<and> list_all sound_call as)"

lemma calls_sound_only: "calls_only sound_call sv sv' \<Longrightarrow> calls_sound sv sv'"
  by (auto simp: calls_only_def calls_sound_def)

lemma calls_sound_accept: "calls_sound sv (accept_done fd sv)"
  by (simp add: calls_sound_def accept_done_def start_accept_def handle_new_connection_def make_connection_def
      start_reading_def call_def)

lemma calls_sound_read: "read_done blake3 c result sv = Some sv' \<Longrightarrow> calls_sound sv sv'"
proof (cases result)
  case None
  assume "read_done blake3 c result sv = Some sv'"
  with None have "calls_only sound_call (sv\<lparr>sv_buffers := ph_on_disconnect (Some (sv_store sv c)) (sv_buffers sv)\<rparr>) sv'"
    by (auto simp: read_done_def dest!: sound.calls_remove)
  then show ?thesis by (auto simp: calls_only_def calls_sound_def)
next
  case (Some data)
  assume "read_done blake3 c result sv = Some sv'"
  with Some obtain sv1 where "sv' = start_reading c sv1" "calls_only sound_call sv sv1"
    by (auto simp: read_done_def Let_def set_conn_state_def intro: sound.calls_same sound.calls_updates sound.calls_on_message
        sound.calls_register split: option.splits if_splits)
  then show ?thesis by (auto simp: calls_only_def calls_sound_def start_reading_def)
qed

lemma calls_sound_connect: "calls_sound sv (connect_done i fd res sv)"
  by (auto simp: calls_sound_def connect_done_def make_connection_def send_handshake_def register_new_connection_def
      start_reading_def server_send_def schedule_reconnect_def Let_def split: option.splits)

text \<open>
  The replica has only taken steps of \<open>Replica_Step\<close>, the server steps of \<open>Tcp_Server\<close>, and every
  queued message came over a connection.
\<close>

definition node_ok :: "int \<Rightarrow> peer_config list \<Rightarrow> Peer list \<Rightarrow> node \<Rightarrow> bool" where
  "node_ok i config peers nd \<longleftrightarrow> reachable i config (nd_replica nd) \<and>
     server_step\<^sup>*\<^sup>* (new_ReplicaManager i peers) (nd_server nd) \<and> queue_from given (nd_replica nd)"

lemma queue_from_enqueue: "queue_from ok (enqueue_message c m r) \<longleftrightarrow> queue_from ok r \<and> ok c"
  by (auto simp: queue_from_def enqueue_message_def)

lemma do_net_calls_replica:
  assumes "list_all sound_call as" and "reachable i config r" and "queue_from given r"
  shows "reachable i config (snd (fold do_net_call as (lp, r))) \<and> queue_from given (snd (fold do_net_call as (lp, r)))"
  using assms
proof (induction as arbitrary: lp r)
  case (Cons a as)
  obtain lp1 r1 where x: "do_net_call a (lp, r) = (lp1, r1)" by (metis prod.exhaust)
  have "reachable i config r1 \<and> queue_from given r1"
  proof (cases a)
    case (Received c m)
    with x Cons.prems show ?thesis
      by (auto simp: do_net_call_def queue_from_enqueue intro: reachable.step replica_step.deliver)
  qed (use x Cons.prems in \<open>auto simp: do_net_call_def\<close>)
  with Cons x show ?case by simp
qed simp

lemma run_server_ok:
  assumes run: "run_server f (lp, nd) = Some (lp', nd')" and ok: "node_ok i config peers nd"
    and f: "\<And>sv. f (nd_server nd) = Some sv \<Longrightarrow> server_step (nd_server nd) sv \<and> calls_sound (nd_server nd) sv"
  shows "node_ok i config peers nd'"
proof -
  obtain sv as where sv: "f (nd_server nd) = Some sv" "sv_calls sv = sv_calls (nd_server nd) @ as" "list_all sound_call as"
    using run_server_some [OF run] f by (auto simp: calls_sound_def)
  have "nd_server nd' = sv" "nd_replica nd' = snd (fold do_net_call as (lp, nd_replica nd))"
    using run sv by (auto simp: run_server_def split: prod.splits)
  then show ?thesis
    using ok f [OF sv(1)] do_net_calls_replica [OF sv(3), of i config "nd_replica nd" lp]
    by (auto simp: node_ok_def intro: rtranclp.rtrancl_into_rtrancl)
qed

lemma do_action_ok:
  assumes x: "do_action blake3 a (lp, nd) = Some (lp', nd')" and ok: "node_ok i config peers nd"
  shows "node_ok i config peers nd'"
proof (cases a)
  case (Send_message c m)
  then obtain d where "run_server (send_message blake3 d m) (lp, nd) = Some (lp', nd')"
    using x by (auto split: option.splits)
  then show ?thesis
    by (rule run_server_ok [OF _ ok]) (blast intro: server_step.sent calls_sound_only sound.calls_sends(1))
next
  case (Send_to_peer j m)
  with x have "run_server (send_to_peer blake3 j m) (lp, nd) = Some (lp', nd')" by simp
  then show ?thesis
    by (rule run_server_ok [OF _ ok]) (blast intro: server_step.sent_to_peer calls_sound_only sound.calls_sends(2))
next
  case (Broadcast_to_peers m)
  with x have "run_server (broadcast_to_peers blake3 m) (lp, nd) = Some (lp', nd')" by simp
  then show ?thesis
    by (rule run_server_ok [OF _ ok]) (blast intro: server_step.broadcast calls_sound_only sound.calls_sends(3))
qed (use x ok in auto)

lemma do_actions_ok:
  "do_actions blake3 as (lp, nd) = Some (lp', nd') \<Longrightarrow> node_ok i config peers nd \<Longrightarrow> node_ok i config peers nd'"
proof (induction as arbitrary: lp nd)
  case (Cons a as)
  then obtain lp1 nd1 where x: "do_action blake3 a (lp, nd) = Some (lp1, nd1)" "do_actions blake3 as (lp1, nd1) = Some (lp', nd')"
    by (auto split: bind_splits)
  from Cons.IH [OF x(2) do_action_ok [OF x(1) Cons.prems(2)]] show ?case .
qed simp

lemma run_replica_ok:
  assumes "run_replica blake3 f (lp, nd) = Some (lp', nd')" and "node_ok i config peers nd"
    and "replica_step (nd_replica nd) (f (nd_replica nd))"
    and "queue_from given (nd_replica nd) \<Longrightarrow> queue_from given (f (nd_replica nd))"
  shows "node_ok i config peers nd'"
proof (rule do_actions_ok)
  show "do_actions blake3 (drop (length (r_outbox (nd_replica nd))) (r_outbox (f (nd_replica nd))))
      (lp, nd\<lparr>nd_replica := f (nd_replica nd)\<rparr>) = Some (lp', nd')"
    using assms(1) by (simp add: run_replica_def Let_def)
  show "node_ok i config peers (nd\<lparr>nd_replica := f (nd_replica nd)\<rparr>)"
    using assms(2-4) by (auto simp: node_ok_def intro: reachable.step)
qed

lemma timers_queue:
  "queue_from ok r \<Longrightarrow> queue_from ok (check_primary_liveness env r)" "queue_from ok r \<Longrightarrow> queue_from ok (heartbeat r)"
  by (simp_all add: queue_from_def check_primary_liveness_def schedule_liveness_check_def initiate_view_change_def Let_def
      heartbeat_def schedule_heartbeat_def send_commit_message_if_needed_def)

lemma callback_ok:
  assumes x: "exec_node_callback blake3 rq res e (lp, nd) = Some (lp', nd')" and ok: "node_ok i config peers nd"
  shows "node_ok i config peers nd'"
proof (cases "rq_callback rq")
  case None
  with x ok show ?thesis by (simp add: exec_node_callback_def)
next
  case (Some cb)
  show ?thesis
  proof (cases cb)
    case Cb_accept
    with x Some have "run_server (\<lambda>sv. Some (accept_done res sv)) (lp, nd) = Some (lp', nd')"
      by (simp add: exec_node_callback_def)
    then show ?thesis
      by (rule run_server_ok [OF _ ok]) (auto intro: server_step.accept calls_sound_accept)
  next
    case (Cb_read c)
    then obtain result where "run_server (read_done blake3 c result) (lp, nd) = Some (lp', nd')"
      using x Some by (simp add: exec_node_callback_def)
    then show ?thesis
      by (rule run_server_ok [OF _ ok]) (auto intro: server_step.read calls_sound_read)
  next
    case (Cb_write c)
    with x Some have "run_server (write_done c res) (lp, nd) = Some (lp', nd')"
      by (simp add: exec_node_callback_def)
    then show ?thesis
      by (rule run_server_ok [OF _ ok]) (auto intro: server_step.written calls_sound_only sound.calls_sends(4))
  next
    case (Cb_connect j fd)
    with x Some have "run_server (\<lambda>sv. Some (connect_done j fd res sv)) (lp, nd) = Some (lp', nd')"
      by (simp add: exec_node_callback_def)
    then show ?thesis
      by (rule run_server_ok [OF _ ok]) (auto intro: server_step.connected calls_sound_connect)
  next
    case (Cb_reconnect j)
    with x Some have "run_server (\<lambda>sv. Some (attempt_connection (sr_sock e) j sv)) (lp, nd) = Some (lp', nd')"
      by (simp add: exec_node_callback_def)
    then show ?thesis
      by (rule run_server_ok [OF _ ok])
        (auto intro: server_step.attempt calls_sound_only sound.calls_attempt sound.calls_same)
  next
    case (Cb_timer t)
    then obtain f where "run_replica blake3 f (lp, nd) = Some (lp', nd')"
      "f = check_primary_liveness (sr_envs e 0) \<or> f = heartbeat"
      using x Some by (cases t) (auto simp: exec_node_callback_def)
    then show ?thesis
      using run_replica_ok [OF _ ok] timers_queue replica_step.liveness replica_step.beat by blast
  qed
qed

lemma work_ok:
  assumes x: "exec_node_work blake3 e w (lp, nd) = Some (lp', nd')" and ok: "node_ok i config peers nd"
  shows "node_ok i config peers nd'"
proof (cases w)
  case Work_process_queue
  with x have "run_replica blake3 (process_message_queue (sr_envs e)) (lp, nd) = Some (lp', nd')"
    by (simp add: exec_node_work_def)
  then show ?thesis
    using run_replica_ok [OF _ ok] connected.process_talks replica_step.process by blast
qed (use x ok in \<open>auto simp: exec_node_work_def\<close>)

interpretation node_states: loop_invariant "exec_node_work blake3" "exec_node_callback blake3" "node_ok i config peers"
    for blake3 i config peers
  by unfold_locales (fact work_ok, fact callback_ok)

section \<open>The running server\<close>

abbreviation server_running where
  "server_running eager blake3 \<equiv> running eager (\<lambda>_ _ _. False) (exec_node_work blake3) (exec_node_callback blake3)"

abbreviation server_step_in where
  "server_step_in eager blake3 \<equiv> run_step eager (\<lambda>_ _ _. False) (exec_node_work blake3) (exec_node_callback blake3)"

lemma connect_to_peers_steps: "server_step\<^sup>*\<^sup>* sv (connect_to_peers socks sv)"
proof -
  have "server_step\<^sup>*\<^sup>* sv (fold (\<lambda>(i, peer) acc. if sv_self_id acc > i then attempt_connection (socks i) i acc else acc) ps sv')"
    if "server_step\<^sup>*\<^sup>* sv sv'" for ps :: "(int \<times> Peer) list" and sv'
    using that
    by (induction ps arbitrary: sv')
      (auto split: prod.splits intro: rtranclp.rtrancl_into_rtrancl server_step.attempt)
  from this [of sv] show ?thesis by (simp add: connect_to_peers_def)
qed

lemma server_start_steps: "server_step\<^sup>*\<^sup>* sv (server_start socks sv)"
proof -
  have "start_accept sv = accept_done (- 1) sv"
    by (simp add: accept_done_def)
  then have "server_step sv (start_accept sv)"
    using server_step.accept by metis
  from converse_rtranclp_into_rtranclp [OF this connect_to_peers_steps] show ?thesis
    by (simp add: server_start_def)
qed

lemma first_requests_chains:
  assumes "map rq_callback rqs = map Some (first_requests socks i)" and "\<forall>rq\<in>set rqs. rq_type rq \<noteq> EVENTFD"
  shows "length (filter (\<lambda>rq. request_chain callback_chain rq = Some k) rqs) =
    (if k = Ticking Heartbeat \<or> k = Ticking Liveness_check then 1 else 0)"
proof -
  have "filter (\<lambda>rq. request_chain callback_chain rq = Some k) rqs =
      filter (\<lambda>rq. Option.bind (rq_callback rq) callback_chain = Some k) rqs"
    using assms(2) by (auto simp: request_chain_def intro!: filter_cong)
  moreover have "length (filter (\<lambda>rq. Option.bind (rq_callback rq) callback_chain = Some k) rqs) =
      length (filter (\<lambda>cb. Option.bind cb callback_chain = Some k) (map rq_callback rqs))"
    by (simp add: filter_map comp_def)
  moreover have "filter (\<lambda>j. callback_chain (if socks j < 0 then Cb_reconnect j else Cb_connect j (socks j)) = Some k) xs = []" for xs
    by (simp add: filter_empty_conv)
  ultimately show ?thesis
    by (simp add: assms(1) first_requests_def filter_map comp_def)
qed

lemma server_start_fresh [simp]: "sv_fresh (server_start socks sv) = sv_fresh sv"
proof -
  have "sv_fresh (attempt_connection fd i sv') = sv_fresh sv'" for fd i sv'
    using unchained.calls_attempt [OF unchained.calls_same [OF refl refl], of sv' fd i] by (simp add: calls_only_def)
  then have "sv_fresh (fold (\<lambda>(i, peer) acc. if sv_self_id acc > i then attempt_connection (socks i) i acc else acc) ps sv') = sv_fresh sv'"
    for ps :: "(int \<times> Peer) list" and sv'
    by (induction ps arbitrary: sv') (auto split: prod.splits)
  then show ?thesis
    by (simp add: server_start_def connect_to_peers_def start_accept_def)
qed

text \<open>Where the process starts.\<close>

lemma server_main_running:
  assumes "server_main blake3 os env socks argv = Running lp nd"
  obtains i where "stoi (argv ! 1) = Some i" "node_ok i server_cluster_config (configured_peers i) nd"
    "sv_fresh (nd_server nd) = 0" "eventfd_reads lp = 0" "signalled lp"
    "\<forall>k. under_way lp k = (if k \<in> perpetual_chains then 1 else 0)"
    "post_eventfd_read lp \<noteq> None"
proof -
  obtain i where i: "stoi (argv ! 1) = Some i" "i = 0 \<or> i = 1 \<or> i = 2"
    "start_replica blake3 env socks (new_loop (os_eventfd os), \<lparr>nd_server_socket = os_socket os,
      nd_server = new_ReplicaManager i (configured_peers i), nd_replica = new_replica i server_cluster_config\<rparr>) = Some (lp, nd)"
    using assms unfolding server_main_cases by (auto split: if_splits option.splits simp del: One_nat_def)
  have lp: "lp_work_queue lp = [Work_accept]" "lp_inflight lp = []" "lp_cq lp = []" "lp_event_count lp = 1" "lp_depth lp = queue_depth"
      "map rq_callback (lp_sq lp) = map Some (first_requests socks i)" "\<forall>rq\<in>set (lp_sq lp). rq_type rq \<noteq> EVENTFD"
    and nd: "nd_replica nd = run env (new_replica i server_cluster_config)"
      "nd_server nd = server_start socks (new_ReplicaManager i (configured_peers i))"
    using started_loop [OF i(2), of blake3 env socks "os_eventfd os" "os_socket os" "new_replica i server_cluster_config"] i(3)
    by auto
  show thesis
  proof (rule that [OF i(1)])
    show "node_ok i server_cluster_config (configured_peers i) nd"
    proof -
      have "r_message_queue (nd_replica nd) = []"
        by (simp add: nd run_def schedule_heartbeat_def schedule_liveness_check_def new_replica_def)
      then show ?thesis
        by (simp add: node_ok_def nd reachable.start server_start_steps queue_from_def)
    qed
    show "sv_fresh (nd_server nd) = 0"
      by (simp add: nd new_ReplicaManager_def)
    show "eventfd_reads lp = 0"
      using lp(2,3,7) by (simp add: eventfd_reads_def pending_requests_def filter_empty_conv)
    show "post_eventfd_read lp \<noteq> None"
    proof -
      have "length (lp_sq lp) = length (first_requests socks i)"
        using arg_cong [OF lp(6), of length] by simp
      then show ?thesis
        using i(2) lp(5) by (auto simp: first_requests_def post_eventfd_read_def has_sqe_def queue_depth_def)
    qed
    show "signalled lp"
      by (simp add: signalled_def lp(4))
    show "\<forall>k. under_way lp k = (if k \<in> perpetual_chains then 1 else 0)"
      using first_requests_chains [OF lp(6,7)] lp(1-3)
      by (auto simp: links_def pending_requests_def perpetual_chains_def)
  qed
qed

lemma server_steps_ok: "server_step\<^sup>*\<^sup>* sv sv' \<Longrightarrow> server_ok sv \<Longrightarrow> server_ok sv'"
  by (induction rule: rtranclp_induct) (auto intro: server_step_ok)

text \<open>
  C32: the process keeps the replica and the server on their rails. In every state of a running
  server, whatever requests complete in which order and with which results, the replica is in a
  state that steps of \<open>Replica_Step\<close> reach from its start, with only well-formed messages in its
  queue, each from a connection; the server is in a state that steps of \<open>Tcp_Server\<close> reach, in which
  peers are filed under their ids and connected peers have a connection to write to; and
  exactly one read of the eventfd is under way, so that posting work can wake the loop.
\<close>
theorem server_process_states:
  assumes "server_main blake3 os env socks argv = Running lp0 nd0"
    and "running eager (\<lambda>_ _ _. False) (exec_node_work blake3) (exec_node_callback blake3) lp0 nd0 (ph, lp, nd)"
  shows "\<exists>i. stoi (argv ! 1) = Some i \<and> reachable i server_cluster_config (nd_replica nd) \<and>
    (\<forall>inbound\<in>set (r_message_queue (nd_replica nd)). message_ok (in_message inbound) \<and> in_connection inbound \<noteq> None) \<and>
    server_step\<^sup>*\<^sup>* (new_ReplicaManager i (configured_peers i)) (nd_server nd) \<and>
    (\<forall>j p. om_find (sv_peers_by_id (nd_server nd)) j = Some p \<longrightarrow>
       peer_id p = j \<and> (peer_state p = CONNECTED \<longrightarrow> peer_connection p \<noteq> None)) \<and> eventfd_reads lp = 1"
proof -
  obtain i where i: "stoi (argv ! 1) = Some i" "node_ok i server_cluster_config (configured_peers i) nd0" "eventfd_reads lp0 = 0"
    by (rule server_main_running [OF assms(1)])
  have "node_ok i server_cluster_config (configured_peers i) nd"
    by (rule node_states.run_inv [OF assms(2) i(2)]) simp
  moreover from this have "replica_ok (nd_replica nd)"
    using reachable_ok [of i server_cluster_config "nd_replica nd"] server_cluster_wf by (simp add: node_ok_def)
  moreover from calculation(1) have "server_ok (nd_server nd)"
    using new_server_ok [of "configured_peers i" i] server_steps_ok
    by (auto simp: node_ok_def configured_peers_def peer_ok_def new_Peer_def)
  moreover have "eventfd_reads lp = 1"
    using node.eventfd_wired [OF assms(2) i(3)] by simp
  ultimately show ?thesis
    using i(1) by (auto simp: node_ok_def replica_ok_def queue_from_def given_def server_ok_def peer_ok_def)
qed

text \<open>
  C33: one request of each kind at a time. In every state of a running server there is at most
  one accept, at most one read per connection and at most one wait for each timer under way,
  posted or submitted, so no two reads of one connection race for its buffer. And a chain that
  has broken never resumes: once the accept, a timer or the read of an existing connection is
  gone, it is gone in every later state.
\<close>
theorem one_request_per_chain:
  assumes "server_main blake3 os env socks argv = Running lp0 nd0"
    and "running eager (\<lambda>_ _ _. False) (exec_node_work blake3) (exec_node_callback blake3) lp0 nd0 (ph, lp, nd)"
  shows "links work_chain callback_chain lp k \<le> 1 \<and>
    (\<forall>ph' lp' nd'. (run_step eager (\<lambda>_ _ _. False) (exec_node_work blake3) (exec_node_callback blake3))\<^sup>*\<^sup>* (ph, lp, nd) (ph', lp', nd') \<longrightarrow>
       links work_chain callback_chain lp k = 0 \<longrightarrow> (\<forall>c. k = Reading c \<longrightarrow> c < sv_fresh (nd_server nd)) \<longrightarrow>
       links work_chain callback_chain lp' k = 0)"
proof (intro conjI allI impI)
  obtain i where i: "sv_fresh (nd_server nd0) = 0" "\<forall>k. under_way lp0 k = (if k \<in> perpetual_chains then 1 else 0)"
    by (rule server_main_running [OF assms(1)])
  have "under_way lp0 k + spare_link nd0 k \<le> 1"
    using i by (cases k) (auto simp: perpetual_chains_def)
  with node_chains.links_running [OF assms(2), of k] show "under_way lp k \<le> 1"
    by simp
  show "under_way lp' k = 0"
    if run: "(server_step_in eager blake3)\<^sup>*\<^sup>* (ph, lp, nd) (ph', lp', nd')" and gone: "under_way lp k = 0"
      and old: "\<forall>c. k = Reading c \<longrightarrow> c < sv_fresh (nd_server nd)" for ph' lp' nd'
  proof -
    have "spare_link nd k = 0"
      using old by (cases k) auto
    with node_chains.links_run [OF run, of k] gone show ?thesis by simp
  qed
qed

text \<open>
  C34: the server goes on. In every run in which the submission queue is never found full, exactly
  one accept, one wait for the heartbeat and one for the liveness check are under way in every
  state: the server never stops accepting, beating and checking.
\<close>
theorem server_goes_on:
  assumes "server_main blake3 os env socks argv = Running lp0 nd0"
    and "roomy eager (\<lambda>_ _ _. False) (exec_node_work blake3) (exec_node_callback blake3) lp0 nd0 (ph, lp, nd)"
  shows "links work_chain callback_chain lp Accepting = 1 \<and> links work_chain callback_chain lp (Ticking Heartbeat) = 1 \<and>
    links work_chain callback_chain lp (Ticking Liveness_check) = 1"
proof -
  obtain i where i: "\<forall>k. under_way lp0 k = (if k \<in> perpetual_chains then 1 else 0)"
    by (rule server_main_running [OF assms(1)])
  show ?thesis
    using node_chains.links_roomy [OF assms(2)] i by (simp add: perpetual_chains_def)
qed

text \<open>
  C35: work that is posted is done. In every run in which the eventfd is not read while completions
  are being handled, whenever the loop waits and has neither a completion nor an empty
  queue of posted work, the kernel can complete the read of the eventfd, which wakes the loop.
\<close>
theorem posted_work_is_done:
  assumes "server_main blake3 os env socks argv = Running lp0 nd0"
    and "prompt eager (\<lambda>_ _ _. False) (exec_node_work blake3) (exec_node_callback blake3) lp0 nd0 (Waiting, lp, nd)"
    and "lp_work_queue lp \<noteq> []" and "lp_cq lp = []"
  shows "\<exists>lp'. kernel_step eager lp lp' \<and> lp_cq lp' \<noteq> [] \<and> lp_work_queue lp' = lp_work_queue lp"
proof -
  obtain i where i: "eventfd_reads lp0 = 0" "signalled lp0"
    by (rule server_main_running [OF assms(1)])
  show ?thesis
    by (rule node.posted_work_wakes [OF assms(2) i assms(3,4)])
qed

text \<open>
  On kernels that answer a read of an empty non-blocking eventfd at once, the server never
  sleeps: whenever it waits with nothing to do, not even posted work, the read it has just
  submitted can complete with \<open>EAGAIN\<close> and sends the loop round again.
\<close>
theorem server_never_sleeps:
  assumes "server_main blake3 os env socks argv = Running lp0 nd0"
    and "running True (\<lambda>_ _ _. False) (exec_node_work blake3) (exec_node_callback blake3) lp0 nd0 (Waiting, lp, nd)"
    and "lp_cq lp = []"
  shows "\<exists>lp'. kernel_step True lp lp' \<and> lp_cq lp' \<noteq> []"
proof -
  obtain i where i: "eventfd_reads lp0 = 0"
    by (rule server_main_running [OF assms(1)])
  show ?thesis
    using node.eager_never_sleeps [OF assms(2) i assms(3)] by blast
qed

section \<open>Runs for the witnesses\<close>

text \<open>The server of replica 1 has been started, has submitted its requests, and waits.\<close>

lemma sample_started:
  obtains lp0 nd0 where
    "server_main (\<lambda>_. []) sample_os sample_environment (\<lambda>_. 9) [''server'', ''1''] = Running lp0 nd0"
    "lp_work_queue lp0 = [Work_accept]" "lp_cq lp0 = []" "lp_inflight lp0 = []" "lp_depth lp0 = queue_depth"
proof -
  have one: "1 = (0::int) \<or> 1 = (1::int) \<or> 1 = (2::int)" by simp
  have ok: "os_ok sample_os" by (simp add: os_ok_def sample_os_def)
  obtain lp sv where x: "start_replica (\<lambda>_. []) sample_environment (\<lambda>_. 9) (new_loop (os_eventfd sample_os),
      \<lparr>nd_server_socket = os_socket sample_os, nd_server = new_ReplicaManager 1 (configured_peers 1),
       nd_replica = new_replica 1 server_cluster_config\<rparr>) = Some (lp, sv)"
    "lp_work_queue lp = [Work_accept]" "lp_cq lp = []" "lp_inflight lp = []" "lp_depth lp = queue_depth"
    using started_loop [OF one, of "\<lambda>_. []" sample_environment "\<lambda>_. 9" "os_eventfd sample_os" "os_socket sample_os"
        "new_replica 1 server_cluster_config"] by blast
  have "server_main (\<lambda>_. []) sample_os sample_environment (\<lambda>_. 9) [''server'', ''1''] = Running lp sv"
    unfolding server_main_cases by (simp add: stoi_one ok x(1))
  from that [OF this x(2-5)] show thesis .
qed

lemma sample_server_running:
  obtains lp0 nd0 lp where
    "server_main (\<lambda>_. []) sample_os sample_environment (\<lambda>_. 9) [''server'', ''1''] = Running lp0 nd0"
    "running eager (\<lambda>_ _ _. False) (exec_node_work (\<lambda>_. [])) (exec_node_callback (\<lambda>_. [])) lp0 nd0 (Waiting, lp, nd0)"
    "roomy eager (\<lambda>_ _ _. False) (exec_node_work (\<lambda>_. [])) (exec_node_callback (\<lambda>_. [])) lp0 nd0 (Waiting, lp, nd0)"
    "prompt eager (\<lambda>_ _ _. False) (exec_node_work (\<lambda>_. [])) (exec_node_callback (\<lambda>_. [])) lp0 nd0 (Waiting, lp, nd0)"
    "lp_work_queue lp = [Work_accept]" "lp_cq lp = []"
proof -
  obtain lp0 nd0 where x: "server_main (\<lambda>_. []) sample_os sample_environment (\<lambda>_. 9) [''server'', ''1''] = Running lp0 nd0"
    "lp_work_queue lp0 = [Work_accept]" "lp_cq lp0 = []" "lp_inflight lp0 = []" "lp_depth lp0 = queue_depth"
    by (rule sample_started)
  obtain lp1 where e: "post_eventfd_read lp0 = Some lp1"
    using server_main_running [OF x(1)] by blast
  define lp where "lp = lp1\<lparr>lp_inflight := lp_inflight lp1 @ lp_sq lp1, lp_sq := []\<rparr>"
  have lp1: "lp_work_queue lp1 = [Work_accept]" "lp_cq lp1 = []" "lp_depth lp1 = queue_depth"
    using e x(2-5) by (auto simp: post_eventfd_read_def prepare_request_def split: if_splits)
  have step: "run_step eager (\<lambda>_ _ _. False) (exec_node_work (\<lambda>_. [])) (exec_node_callback (\<lambda>_. []))
      (Submitting, lp1, nd0) (Waiting, lp, nd0)"
    unfolding lp_def by (intro run_step.loop loop_step.submit)
  show thesis
  proof (rule that [OF x(1)])
    show "roomy eager (\<lambda>_ _ _. False) (exec_node_work (\<lambda>_. [])) (exec_node_callback (\<lambda>_. [])) lp0 nd0 (Waiting, lp, nd0)"
      by (rule roomy.step [OF roomy.start [OF e] step]) (simp add: lp_def has_sqe_def lp1 queue_depth_def)
    show "prompt eager (\<lambda>_ _ _. False) (exec_node_work (\<lambda>_. [])) (exec_node_callback (\<lambda>_. [])) lp0 nd0 (Waiting, lp, nd0)"
      by (rule prompt.step [OF prompt.start [OF e] step]) simp
  qed (use running.step [OF running.start [OF e] step] lp1 in \<open>simp_all add: lp_def\<close>)
qed

theorem server_process_states_witness:
  "\<exists>lp0 nd0 lp. server_main (\<lambda>_. []) sample_os sample_environment (\<lambda>_. 9) [''server'', ''1''] = Running lp0 nd0 \<and>
     running False (\<lambda>_ _ _. False) (exec_node_work (\<lambda>_. [])) (exec_node_callback (\<lambda>_. [])) lp0 nd0 (Waiting, lp, nd0) \<and>
     reachable 1 server_cluster_config (nd_replica nd0) \<and> eventfd_reads lp = 1"
proof -
  obtain lp0 nd0 lp where x: "server_main (\<lambda>_. []) sample_os sample_environment (\<lambda>_. 9) [''server'', ''1''] = Running lp0 nd0"
    "running False (\<lambda>_ _ _. False) (exec_node_work (\<lambda>_. [])) (exec_node_callback (\<lambda>_. [])) lp0 nd0 (Waiting, lp, nd0)"
    by (rule sample_server_running)
  from server_process_states [OF this] stoi_one have "reachable 1 server_cluster_config (nd_replica nd0) \<and> eventfd_reads lp = 1"
    by auto
  with x show ?thesis by blast
qed

theorem one_request_per_chain_witness:
  "\<exists>lp0 nd0 lp. server_main (\<lambda>_. []) sample_os sample_environment (\<lambda>_. 9) [''server'', ''1''] = Running lp0 nd0 \<and>
     lp_work_queue lp = [Work_accept] \<and> links work_chain callback_chain lp Accepting \<le> 1"
proof -
  obtain lp0 nd0 lp where x: "server_main (\<lambda>_. []) sample_os sample_environment (\<lambda>_. 9) [''server'', ''1''] = Running lp0 nd0"
    "running False (\<lambda>_ _ _. False) (exec_node_work (\<lambda>_. [])) (exec_node_callback (\<lambda>_. [])) lp0 nd0 (Waiting, lp, nd0)"
    "lp_work_queue lp = [Work_accept]"
    by (rule sample_server_running)
  from one_request_per_chain [OF x(1,2), of Accepting] x(1,3) show ?thesis by blast
qed

theorem server_goes_on_witness:
  "\<exists>lp0 nd0 lp. server_main (\<lambda>_. []) sample_os sample_environment (\<lambda>_. 9) [''server'', ''1''] = Running lp0 nd0 \<and>
     links work_chain callback_chain lp (Ticking Heartbeat) = 1"
proof -
  obtain lp0 nd0 lp where x: "server_main (\<lambda>_. []) sample_os sample_environment (\<lambda>_. 9) [''server'', ''1''] = Running lp0 nd0"
    "roomy False (\<lambda>_ _ _. False) (exec_node_work (\<lambda>_. [])) (exec_node_callback (\<lambda>_. [])) lp0 nd0 (Waiting, lp, nd0)"
    by (rule sample_server_running)
  from server_goes_on [OF x] x(1) show ?thesis by blast
qed

theorem posted_work_is_done_witness:
  "\<exists>(lp :: node_loop) lp'. lp_work_queue lp = [Work_accept] \<and> lp_cq lp = [] \<and> kernel_step False lp lp' \<and> lp_cq lp' \<noteq> [] \<and>
     lp_work_queue lp' = [Work_accept]"
proof -
  obtain lp0 nd0 lp where x: "server_main (\<lambda>_. []) sample_os sample_environment (\<lambda>_. 9) [''server'', ''1''] = Running lp0 nd0"
    "prompt False (\<lambda>_ _ _. False) (exec_node_work (\<lambda>_. [])) (exec_node_callback (\<lambda>_. [])) lp0 nd0 (Waiting, lp, nd0)"
    "lp_work_queue lp = [Work_accept]" "lp_cq lp = []"
    by (rule sample_server_running)
  from posted_work_is_done [OF x(1,2) _ x(4)] x(3,4) show ?thesis by auto
qed

theorem server_never_sleeps_witness:
  "\<exists>lp0 nd0 lp lp'. server_main (\<lambda>_. []) sample_os sample_environment (\<lambda>_. 9) [''server'', ''1''] = Running lp0 nd0 \<and>
     running True (\<lambda>_ _ _. False) (exec_node_work (\<lambda>_. [])) (exec_node_callback (\<lambda>_. [])) lp0 nd0 (Waiting, lp, nd0) \<and>
     lp_cq lp = [] \<and> kernel_step True lp lp' \<and> lp_cq lp' \<noteq> []"
proof -
  obtain lp0 nd0 lp where x: "server_main (\<lambda>_. []) sample_os sample_environment (\<lambda>_. 9) [''server'', ''1''] = Running lp0 nd0"
    "running True (\<lambda>_ _ _. False) (exec_node_work (\<lambda>_. [])) (exec_node_callback (\<lambda>_. [])) lp0 nd0 (Waiting, lp, nd0)"
    "lp_cq lp = []"
    by (rule sample_server_running)
  from server_never_sleeps [OF x] x show ?thesis by blast
qed

section \<open>A full ring\<close>

lemma run_writes:
  "run_items (exec_node_work blake3) es (map (\<lambda>(c, data). Work_write c data) ws) (lp, nd) =
     Some (fold submit_request (map (\<lambda>(c, data). (new_IORequest WRITE (tc_socket (sv_store (nd_server nd) c)) (Some (Cb_write c)))
        \<lparr>rq_connection := Some c, rq_write_buffer := data, rq_length := length data\<rparr>) ws) lp, nd)"
  by (induction ws arbitrary: es lp) (simp_all add: exec_node_work_def submit_write_def split: prod.splits)

text \<open>
  C36: messages are lost when many are written at once. Of the writes that have been posted when
  the loop runs its tasks, as many as the submission queue has room for (256 at most) become
  requests; the others are neither submitted nor kept, and no callback will ever run for them,
  so neither the replica nor the peer manager learns of it.
\<close>
theorem writes_beyond_ring_dropped:
  "\<exists>lp'. process_work_queue (exec_node_work blake3) es
        (lp\<lparr>lp_work_queue := map (\<lambda>(c, data). Work_write c data) ws\<rparr>, nd) = Some (lp', nd) \<and>
     lp_work_queue lp' = [] \<and> lp_inflight lp' = lp_inflight lp \<and> lp_cq lp' = lp_cq lp \<and>
     map (\<lambda>rq. (rq_connection rq, rq_write_buffer rq)) (lp_sq lp') =
       map (\<lambda>rq. (rq_connection rq, rq_write_buffer rq)) (lp_sq lp) @
       map (\<lambda>(c, data). (Some c, data)) (take (lp_depth lp - length (lp_sq lp)) ws)"
  by (simp add: process_work_queue_def run_writes submit_requests take_map comp_def case_prod_beta new_IORequest_def)

end
