(* ===== verification/Client_Process.thy ===== *)
theory Client_Process
  imports Client Io_Uring_Loop
begin

text \<open>
  The client process: the clients of \<open>src/client/client_main.cpp\<close> on the event loop that runs in the
  network thread, and the input thread, which posts the messages the user sends. A callback and
  a task belong to the connection to one replica, named by its id.
\<close>

section \<open>The process\<close>

datatype client_work =
    Task_connect int
  | Task_write int "byte list"
  | Task_reconnect int

datatype client_callback =
    Cl_connected int int
  | Cl_read int
  | Cl_written int
  | Cl_retry int

type_synonym client_loop = "(client_work, client_callback) io_loop"

text \<open>What a task or a callback reads: the result of \<open>socket\<close>, the contents of the read buffer.\<close>

record client_surroundings =
  cs_sock :: int
  cs_buffer :: "byte list"

text \<open>
  A call of the connection to replica \<open>i\<close> on the loop; what it prints and closes does not
  concern the loop.
\<close>

fun do_client_call :: "int \<Rightarrow> client_call \<Rightarrow> client_loop \<Rightarrow> client_loop" where
  "do_client_call i Post_connect lp = post (Task_connect i) lp"
| "do_client_call i (Post_write data) lp = post (Task_write i data) lp"
| "do_client_call i (Cl_submit_connect sock host port) lp = submit_connect sock (host, port) (Cl_connected i sock) lp"
| "do_client_call i (Cl_submit_read sock) lp = submit_read (nat sock) sock read_buffer_size (Cl_read i) lp"
| "do_client_call i (Cl_submit_write sock data) lp = submit_write (nat sock) sock data (Cl_written i) lp"
| "do_client_call i (Post_reconnect delay) lp = post (Task_reconnect i) lp"
| "do_client_call i a lp = lp"

text \<open>A method of the connection to replica \<open>i\<close> with the calls it makes.\<close>

definition run_client :: "int \<Rightarrow> (TcpClient \<Rightarrow> TcpClient option) \<Rightarrow> client_loop \<times> client \<Rightarrow> (client_loop \<times> client) option" where
  "run_client i f = (\<lambda>(lp, cl).
     case om_find (cl_clients cl) i of
       None \<Rightarrow> Some (lp, cl)
     | Some t \<Rightarrow>
         (case f t of
            None \<Rightarrow> None
          | Some t' \<Rightarrow> Some (fold (do_client_call i) (drop (length (tcl_calls t)) (tcl_calls t')) lp,
                            cl\<lparr>cl_clients := om_assign i t' (cl_clients cl)\<rparr>)))"

definition exec_client_work ::
    "client_surroundings \<Rightarrow> client_work \<Rightarrow> client_loop \<times> client \<Rightarrow> (client_loop \<times> client) option" where
  "exec_client_work e w x =
     (case w of
        Task_connect i \<Rightarrow> run_client i (\<lambda>t. Some (connect_task (cs_sock e) t)) x
      | Task_write i data \<Rightarrow> run_client i (\<lambda>t. Some (write_task data t)) x
      | Task_reconnect i \<Rightarrow> (case x of (lp, cl) \<Rightarrow> Some (submit_timeout 5000000000 (Cl_retry i) lp, cl)))"

definition exec_client_callback ::
    "client_callback IORequest \<Rightarrow> int \<Rightarrow> client_surroundings \<Rightarrow> client_loop \<times> client \<Rightarrow> (client_loop \<times> client) option" where
  "exec_client_callback request res e x =
     (case rq_callback request of
        None \<Rightarrow> Some x
      | Some cb \<Rightarrow>
          (case cb of
             Cl_connected i sock \<Rightarrow> run_client i (cl_connect_done sock res) x
           | Cl_read i \<Rightarrow> run_client i (cl_read_done (if res > 0 then Some (take (nat res) (cs_buffer e)) else None)) x
           | Cl_written i \<Rightarrow> run_client i (\<lambda>t. Some (cl_write_done res t)) x
           | Cl_retry i \<Rightarrow> run_client i (\<lambda>t. Some (connect t)) x))"

text \<open>
  The input thread: a command that sends goes through \<open>send_message\<close>, which posts the write when
  it has found a connected replica; a command that does not send changes nothing.
\<close>

definition typed_posts :: "client \<Rightarrow> client \<Rightarrow> client_work list" where
  "typed_posts cl cl' = [Task_write i data. (i, t') \<leftarrow> cl_clients cl',
     Post_write data \<leftarrow> drop (case om_find (cl_clients cl) i of Some t \<Rightarrow> length (tcl_calls t) | None \<Rightarrow> 0) (tcl_calls t')]"

definition types_line :: "(byte list \<Rightarrow> byte list) \<Rightarrow> client \<Rightarrow> client_work list \<Rightarrow> client \<Rightarrow> bool" where
  "types_line blake3 cl ws cl' \<longleftrightarrow> (\<exists>line. handle_line line \<noteq> Quit \<and> snd (perform blake3 (handle_line line) cl) = cl' \<and> ws = typed_posts cl cl')"

text \<open>The loop when \<open>main\<close> has created the clients and told them to connect.\<close>

definition client_start_loop :: "nat \<Rightarrow> int \<Rightarrow> client_loop" where
  "client_start_loop depth fd = fold post (map (\<lambda>(i, host, port). Task_connect i) CLUSTER_CONFIG)
     \<lparr>lp_depth = depth, lp_sq = [], lp_inflight = [], lp_cq = [], lp_event_fd = fd, lp_event_count = 0, lp_work_queue = []\<rparr>"

abbreviation client_step_in where
  "client_step_in eager blake3 \<equiv> run_step eager (types_line blake3) exec_client_work exec_client_callback"

section \<open>The process uses the loop as it should\<close>

lemma do_client_call_uses: "uses_loop lp0 lp \<Longrightarrow> uses_loop lp0 (do_client_call i a lp)"
  by (cases a) (simp_all add: uses_submits uses_loop.posts)

lemma do_client_calls_uses: "uses_loop lp0 lp \<Longrightarrow> uses_loop lp0 (fold (do_client_call i) as lp)"
  by (induction as arbitrary: lp) (simp_all add: do_client_call_uses)

lemma run_client_uses: "run_client i f (lp, cl) = Some y \<Longrightarrow> uses_loop lp (fst y)"
  by (auto simp: run_client_def uses_loop.idle intro: do_client_calls_uses [OF uses_loop.idle] split: option.splits)

interpretation cli: loop_program exec_client_work exec_client_callback
proof
  fix e w lp cl y
  assume "exec_client_work e w (lp, cl) = Some y"
  then show "uses_loop lp (fst y)"
    by (cases w) (auto simp: exec_client_work_def uses_submits uses_loop.idle intro: run_client_uses)
next
  fix rq res e lp cl y
  assume "exec_client_callback rq res e (lp, cl) = Some y"
  then show "uses_loop lp (fst y)"
    by (auto simp: exec_client_callback_def uses_loop.idle intro: run_client_uses
        split: option.splits client_callback.splits)
qed

section \<open>A client that never reconnects\<close>

definition all_down :: "client \<Rightarrow> bool" where
  "all_down cl \<longleftrightarrow> (\<forall>(i, t)\<in>set (cl_clients cl). tcl_state t \<noteq> CL_CONNECTED)"

lemma all_down_find: "all_down cl \<Longrightarrow> om_find (cl_clients cl) i = Some t \<Longrightarrow> \<not> is_connected t"
  by (auto simp: all_down_def is_connected_def dest!: om_find_in)

lemma attempt_send_all_down:
  "all_down cl \<Longrightarrow> cl_clients (snd (attempt_send blake3 msg n attempts cl)) = cl_clients cl"
proof (induction attempts arbitrary: cl)
  case (Suc attempts)
  have "all_down (advance_to_next_replica n cl)"
    using Suc.prems by (simp add: all_down_def)
  with Suc show ?case
    by (auto simp: Let_def dest: all_down_find split: option.splits)
qed simp

lemma typing_all_down:
  assumes "types_line blake3 cl ws cl'" and "all_down cl" and "om_ok (cl_clients cl)"
  shows "ws = [] \<and> cl_clients cl' = cl_clients cl"
proof -
  obtain line where line: "snd (perform blake3 (handle_line line) cl) = cl'" "ws = typed_posts cl cl'"
    using assms(1) by (auto simp: types_line_def)
  have "cl_clients (snd (client_send_message blake3 msg n cl)) = cl_clients cl" for msg n
    using assms(2) by (simp add: client_send_message_def Let_def attempt_send_all_down all_down_def)
  then have same: "cl_clients cl' = cl_clients cl"
    using line(1) by (auto simp: perform_def Let_def split: client_action.splits prod.splits) (metis snd_conv)
  have "om_find (cl_clients cl) i = Some t" if "(i, t) \<in> set (cl_clients cl)" for i t
    using om_find_mem [OF assms(3)] that by blast
  then show ?thesis
    using line(2) same by (auto simp: typed_posts_def)
qed

text \<open>Nothing happens any more once the loop sleeps and no replica is connected.\<close>

lemma asleep_for_good:
  assumes "(client_step_in False blake3)\<^sup>*\<^sup>* (Waiting, lp, cl) y"
    and "lp_cq lp = []" "lp_event_count lp = 0" "\<forall>rq\<in>set (lp_inflight lp). rq_type rq = EVENTFD"
    and "all_down cl" "om_ok (cl_clients cl)"
  shows "\<exists>cl'. y = (Waiting, lp, cl') \<and> cl_clients cl' = cl_clients cl"
  using assms(1)
proof (induction rule: rtranclp_induct)
  case (step y z)
  then obtain cl' where y: "y = (Waiting, lp, cl')" "cl_clients cl' = cl_clients cl" by blast
  have down: "all_down cl'" "om_ok (cl_clients cl')"
    using y(2) assms(5,6) by (simp_all add: all_down_def)
  from step.hyps(2) show ?case
    unfolding y(1)
  proof (cases rule: run_step.cases)
    case loop
    with cli.asleep(1) [OF assms(2-4)] show ?thesis by blast
  next
    case (kernel lp')
    with cli.asleep(2) [OF assms(2-4)] show ?thesis by blast
  next
    case (thread ws s')
    with typing_all_down [OF _ down] y(2) show ?thesis by fastforce
  qed
qed simp

section \<open>Three refused connections\<close>

definition connecting :: "int \<Rightarrow> int \<Rightarrow> client_callback IORequest" where
  "connecting i sock = (new_IORequest CONNECT sock (Some (Cl_connected i sock)))\<lparr>rq_remote_address := Some (''localhost'', 8080 + i)\<rparr>"

definition connecting_client :: "int \<Rightarrow> TcpClient" where
  "connecting_client i = \<lparr>tcl_host = ''localhost'', tcl_port = 8080 + i, tcl_connection = None, tcl_state = CL_CONNECTING,
     tcl_calls = [Post_connect, Cl_submit_connect (5 + i) ''localhost'' (8080 + i)]\<rparr>"

definition refused_client :: "int \<Rightarrow> TcpClient" where
  "refused_client i = (connecting_client i)\<lparr>tcl_state := CL_DISCONNECTED,
     tcl_calls := tcl_calls (connecting_client i) @ [Cl_close (5 + i), On_connect_failed, Post_reconnect 5]\<rparr>"

lemma refused:
  "cl_connect_done (5 + i) (- 111) (connecting_client i) = Some (refused_client i)"
  "drop (length (tcl_calls (connecting_client i))) (tcl_calls (refused_client i)) =
     [Cl_close (5 + i), On_connect_failed, Post_reconnect 5]"
  "tcl_state (refused_client i) \<noteq> CL_CONNECTED"
  by (simp_all add: cl_connect_done_def connecting_client_def refused_client_def cl_schedule_reconnect_def cl_call_def)

lemma reap_refused:
  assumes "om_find (cl_clients cl) i = Some (connecting_client i)"
  shows "exec_client_callback (connecting i (5 + i)) (- 111) e (lp, cl) =
    Some (post (Task_reconnect i) lp, cl\<lparr>cl_clients := om_assign i (refused_client i) (cl_clients cl)\<rparr>)"
  using assms by (simp add: exec_client_callback_def connecting_def new_IORequest_def run_client_def refused)

definition loop_at ::
    "int \<Rightarrow> client_callback IORequest list \<Rightarrow> client_callback IORequest list \<Rightarrow> (client_callback IORequest \<times> int) list \<Rightarrow>
     nat \<Rightarrow> client_work list \<Rightarrow> client_loop" where
  "loop_at fd sq fly cq n q = \<lparr>lp_depth = 256, lp_sq = sq, lp_inflight = fly, lp_cq = cq, lp_event_fd = fd,
     lp_event_count = n, lp_work_queue = q\<rparr>"

definition wake_read :: "int \<Rightarrow> client_callback IORequest" where
  "wake_read fd = (new_IORequest EVENTFD fd None)\<lparr>rq_length := 8\<rparr>"

lemma loop_at_simps [simp]:
  "lp_sq (loop_at fd sq fly cq n q) = sq" "lp_inflight (loop_at fd sq fly cq n q) = fly" "lp_cq (loop_at fd sq fly cq n q) = cq"
  "lp_event_count (loop_at fd sq fly cq n q) = n" "lp_work_queue (loop_at fd sq fly cq n q) = q"
  "lp_depth (loop_at fd sq fly cq n q) = 256" "lp_event_fd (loop_at fd sq fly cq n q) = fd"
  "(loop_at fd sq fly cq n q)\<lparr>lp_sq := sq'\<rparr> = loop_at fd sq' fly cq n q"
  "(loop_at fd sq fly cq n q)\<lparr>lp_inflight := fly'\<rparr> = loop_at fd sq fly' cq n q"
  "(loop_at fd sq fly cq n q)\<lparr>lp_cq := cq'\<rparr> = loop_at fd sq fly cq' n q"
  "(loop_at fd sq fly cq n q)\<lparr>lp_event_count := n'\<rparr> = loop_at fd sq fly cq n' q"
  "(loop_at fd sq fly cq n q)\<lparr>lp_work_queue := q'\<rparr> = loop_at fd sq fly cq n q'"
  by (simp_all add: loop_at_def)

lemma loop_at_post: "n < 10 \<Longrightarrow> post w (loop_at fd sq fly cq n q) = loop_at fd sq fly cq (Suc n) (q @ [w])"
  by (simp add: post_def max_event_count_def)

lemma loop_at_eventfd:
  "length sq < 256 \<Longrightarrow> post_eventfd_read (loop_at fd sq fly cq n q) = Some (loop_at fd (sq @ [wake_read fd]) fly cq n q)"
  by (simp add: post_eventfd_read_def has_sqe_def prepare_request_def wake_read_def)

lemma wake_read_type [simp]: "rq_type (wake_read fd) = EVENTFD" "rq_type (connecting i sock) = CONNECT"
  by (simp_all add: wake_read_def connecting_def new_IORequest_def)

lemma start_loop: "client_start_loop 256 fd = loop_at fd [] [] [] 3 [Task_connect 0, Task_connect 1, Task_connect 2]"
  by (simp add: client_start_loop_def CLUSTER_CONFIG_def loop_at_post flip: loop_at_def)

lemma run_connect:
  assumes "om_find (cl_clients cl) i = Some t" "tcl_host t = ''localhost''" "tcl_port t = 8080 + i" "0 \<le> i" "cs_sock e = 5 + i"
    "length sq < 256"
  shows "exec_client_work e (Task_connect i) (loop_at fd sq fly cq n q, cl) =
    Some (loop_at fd (sq @ [connecting i (5 + i)]) fly cq n q,
      cl\<lparr>cl_clients := om_assign i (cl_call (Cl_submit_connect (5 + i) ''localhost'' (8080 + i)) t) (cl_clients cl)\<rparr>)"
  using assms
  by (simp add: exec_client_work_def run_client_def connect_task_def connecting_def submit_connect_def submit_request_def
      has_sqe_def prepare_request_def)

definition clients_with :: "TcpClient \<Rightarrow> TcpClient \<Rightarrow> TcpClient \<Rightarrow> client" where
  "clients_with t0 t1 t2 = \<lparr>cl_clients = [(0, t0), (1, t1), (2, t2)], cl_current_target_replica_id = 0, cl_next_request_number = 1\<rparr>"

lemma clients_with_simps:
  "om_find (cl_clients (clients_with t0 t1 t2)) 0 = Some t0" "om_find (cl_clients (clients_with t0 t1 t2)) 1 = Some t1"
  "om_find (cl_clients (clients_with t0 t1 t2)) 2 = Some t2"
  "(clients_with t0 t1 t2)\<lparr>cl_clients := om_assign 0 t (cl_clients (clients_with t0 t1 t2))\<rparr> = clients_with t t1 t2"
  "(clients_with t0 t1 t2)\<lparr>cl_clients := om_assign 1 t (cl_clients (clients_with t0 t1 t2))\<rparr> = clients_with t0 t t2"
  "(clients_with t0 t1 t2)\<lparr>cl_clients := om_assign 2 t (cl_clients (clients_with t0 t1 t2))\<rparr> = clients_with t0 t1 t"
  by (simp_all add: clients_with_def om_find_def)

lemma start_clients_with:
  "start_clients = clients_with (connect (new_TcpClient ''localhost'' 8080)) (connect (new_TcpClient ''localhost'' 8081))
     (connect (new_TcpClient ''localhost'' 8082))"
  by (simp add: start_clients_def clients_with_def CLUSTER_CONFIG_def)

lemma connecting_clients:
  "cl_call (Cl_submit_connect 5 ''localhost'' 8080) (connect (new_TcpClient ''localhost'' 8080)) = connecting_client 0"
  "cl_call (Cl_submit_connect 6 ''localhost'' 8081) (connect (new_TcpClient ''localhost'' 8081)) = connecting_client 1"
  "cl_call (Cl_submit_connect 7 ''localhost'' 8082) (connect (new_TcpClient ''localhost'' 8082)) = connecting_client 2"
  "tcl_host (connect (new_TcpClient h p)) = h" "tcl_port (connect (new_TcpClient h p)) = p"
  by (simp_all add: connecting_client_def connect_def new_TcpClient_def cl_call_def)

text \<open>The tasks of the first turn submit three connection requests.\<close>

lemma connects_submitted:
  "process_work_queue exec_client_work (\<lambda>i. \<lparr>cs_sock = 5 + int i, cs_buffer = []\<rparr>)
     (loop_at fd [] [] cq 0 [Task_connect 0, Task_connect 1, Task_connect 2], start_clients) =
   Some (loop_at fd [connecting 0 5, connecting 1 6, connecting 2 7] [] cq 0 [],
     clients_with (connecting_client 0) (connecting_client 1) (connecting_client 2))"
proof -
  let ?t = "\<lambda>p. connect (new_TcpClient ''localhost'' p)"
  have "exec_client_work \<lparr>cs_sock = 5, cs_buffer = []\<rparr> (Task_connect 0) (loop_at fd [] [] cq 0 [], start_clients) =
      Some (loop_at fd [connecting 0 5] [] cq 0 [], clients_with (connecting_client 0) (?t 8081) (?t 8082))"
    using run_connect [of "clients_with (?t 8080) (?t 8081) (?t 8082)" 0 "?t 8080" "\<lparr>cs_sock = 5, cs_buffer = []\<rparr>" "[]" fd "[]" cq 0 "[]"]
    by (simp add: start_clients_with clients_with_simps connecting_clients)
  moreover have "exec_client_work \<lparr>cs_sock = 6, cs_buffer = []\<rparr> (Task_connect 1)
      (loop_at fd [connecting 0 5] [] cq 0 [], clients_with (connecting_client 0) (?t 8081) (?t 8082)) =
      Some (loop_at fd [connecting 0 5, connecting 1 6] [] cq 0 [], clients_with (connecting_client 0) (connecting_client 1) (?t 8082))"
    using run_connect [of "clients_with (connecting_client 0) (?t 8081) (?t 8082)" 1 "?t 8081" "\<lparr>cs_sock = 6, cs_buffer = []\<rparr>"
        "[connecting 0 5]" fd "[]" cq 0 "[]"]
    by (simp add: clients_with_simps connecting_clients)
  moreover have "exec_client_work \<lparr>cs_sock = 7, cs_buffer = []\<rparr> (Task_connect 2)
      (loop_at fd [connecting 0 5, connecting 1 6] [] cq 0 [], clients_with (connecting_client 0) (connecting_client 1) (?t 8082)) =
      Some (loop_at fd [connecting 0 5, connecting 1 6, connecting 2 7] [] cq 0 [],
        clients_with (connecting_client 0) (connecting_client 1) (connecting_client 2))"
    using run_connect [of "clients_with (connecting_client 0) (connecting_client 1) (?t 8082)" 2 "?t 8082" "\<lparr>cs_sock = 7, cs_buffer = []\<rparr>"
        "[connecting 0 5, connecting 1 6]" fd "[]" cq 0 "[]"]
    by (simp add: clients_with_simps connecting_clients)
  ultimately show ?thesis
    by (simp add: process_work_queue_def)
qed

text \<open>The first two turns: three connections are requested and refused.\<close>

lemma refused_turn:
  "running False (types_line blake3) exec_client_work exec_client_callback (client_start_loop 256 fd) start_clients
     (Reaping, loop_at fd [] [wake_read fd] [(connecting 0 5, - 111), (connecting 1 6, - 111), (connecting 2 7, - 111)] 0 [],
      clients_with (connecting_client 0) (connecting_client 1) (connecting_client 2))" (is "?run (Reaping, ?last, ?cl)")
proof -
  let ?tasks = "[Task_connect 0, Task_connect 1, Task_connect 2]" and ?ev = "wake_read fd"
  note go = running.step [of False "types_line blake3" exec_client_work exec_client_callback "client_start_loop 256 fd" start_clients]
  have "?run (Submitting, loop_at fd [?ev] [] [] 3 ?tasks, start_clients)"
    by (rule running.start) (simp add: start_loop loop_at_eventfd)
  from go [OF this run_step.loop [OF loop_step.submit]]
  have "?run (Waiting, loop_at fd [] [?ev] [] 3 ?tasks, start_clients)" by simp
  from go [OF this run_step.kernel [OF kernel_step.signal [of ?ev]]]
  have "?run (Waiting, loop_at fd [] [] [(?ev, 8)] 0 ?tasks, start_clients)" by simp
  from go [OF this run_step.loop [OF loop_step.wake [OF _ connects_submitted]]]
  have "?run (Reaping, loop_at fd [connecting 0 5, connecting 1 6, connecting 2 7] [] [(?ev, 8)] 0 [], ?cl)" by simp
  from go [OF this run_step.loop [OF loop_step.reap [of _ ?ev 8 "[]"]]]
  have "?run (Reaping, loop_at fd [connecting 0 5, connecting 1 6, connecting 2 7, ?ev] [] [] 0 [], ?cl)"
    by (simp add: handle_completion_def loop_at_eventfd)
  from go [OF this run_step.loop [OF loop_step.again]]
  have "?run (Submitting, loop_at fd [connecting 0 5, connecting 1 6, connecting 2 7, ?ev] [] [] 0 [], ?cl)" by simp
  from go [OF this run_step.loop [OF loop_step.submit]]
  have "?run (Waiting, loop_at fd [] [connecting 0 5, connecting 1 6, connecting 2 7, ?ev] [] 0 [], ?cl)" by simp
  from go [OF this run_step.kernel [OF kernel_step.finish [of "connecting 0 5" _ False "- 111"]]]
  have "?run (Waiting, loop_at fd [] [connecting 1 6, connecting 2 7, ?ev] [(connecting 0 5, - 111)] 0 [], ?cl)" by simp
  from go [OF this run_step.kernel [OF kernel_step.finish [of "connecting 1 6" _ False "- 111"]]]
  have "?run (Waiting, loop_at fd [] [connecting 2 7, ?ev] [(connecting 0 5, - 111), (connecting 1 6, - 111)] 0 [], ?cl)" by simp
  from go [OF this run_step.kernel [OF kernel_step.finish [of "connecting 2 7" _ False "- 111"]]]
  have "?run (Waiting, ?last, ?cl)" by simp
  from go [OF this run_step.loop [OF loop_step.wake [of _ exec_client_work "\<lambda>_. undefined" ?cl ?last ?cl]]]
  show ?thesis by (simp add: process_work_queue_def)
qed

text \<open>
  C37: a client that finds no server may never try again. On kernels where the read of the eventfd
  waits, there is a run of the client, with all three replicas refusing the connection, after
  which the tasks that were posted to schedule the reconnections sit in the queue and nothing
  can happen any more: no completion is due, the eventfd has been read, and whatever the user
  types, the loop sleeps for ever and no replica is ever connected.
\<close>
theorem client_never_reconnects:
  "\<exists>lp cl. running False (types_line blake3) exec_client_work exec_client_callback (client_start_loop 256 fd) start_clients
       (Waiting, lp, cl) \<and>
     lp_work_queue lp = [Task_reconnect 0, Task_reconnect 1, Task_reconnect 2] \<and>
     (\<forall>ph' lp' cl'. (run_step False (types_line blake3) exec_client_work exec_client_callback)\<^sup>*\<^sup>* (Waiting, lp, cl) (ph', lp', cl') \<longrightarrow>
        ph' = Waiting \<and> lp' = lp \<and> (\<forall>i t. om_find (cl_clients cl') i = Some t \<longrightarrow> \<not> is_connected t))"
proof -
  let ?run = "running False (types_line blake3) exec_client_work exec_client_callback (client_start_loop 256 fd) start_clients"
    and ?ev = "wake_read fd"
  note go = running.step [of False "types_line blake3" exec_client_work exec_client_callback "client_start_loop 256 fd" start_clients]
  let ?cl1 = "clients_with (refused_client 0) (connecting_client 1) (connecting_client 2)"
    and ?cl2 = "clients_with (refused_client 0) (refused_client 1) (connecting_client 2)"
    and ?cl3 = "clients_with (refused_client 0) (refused_client 1) (refused_client 2)"
  note reaped = reap_refused [of "clients_with (connecting_client 0) (connecting_client 1) (connecting_client 2)" 0]
    reap_refused [of ?cl1 1] reap_refused [of ?cl2 2]
  from go [OF refused_turn run_step.loop [OF loop_step.reap [of _ "connecting 0 5" "- 111"
        "[(connecting 1 6, - 111), (connecting 2 7, - 111)]"]]]
  have "?run (Reaping, loop_at fd [] [?ev] [(connecting 1 6, - 111), (connecting 2 7, - 111)] 1 [Task_reconnect 0], ?cl1)"
    using reaped(1) by (simp add: handle_completion_def loop_at_post clients_with_simps)
  from go [OF this run_step.loop [OF loop_step.reap [of _ "connecting 1 6" "- 111" "[(connecting 2 7, - 111)]"]]]
  have run: "?run (Reaping, loop_at fd [] [?ev] [(connecting 2 7, - 111)] 2 [Task_reconnect 0, Task_reconnect 1], ?cl2)"
    using reaped(2) by (simp add: handle_completion_def loop_at_post clients_with_simps numeral_2_eq_2)
  have "exec_client_callback (connecting 2 7) (- 111) undefined (loop_at fd [] [?ev] [] 2 [Task_reconnect 0, Task_reconnect 1], ?cl2) =
      Some (loop_at fd [] [?ev] [] 3 [Task_reconnect 0, Task_reconnect 1, Task_reconnect 2], ?cl3)"
    using reaped(3) by (simp add: loop_at_post clients_with_simps)
  then obtain lp where lp: "(client_step_in False blake3)\<^sup>*\<^sup>*
        (Reaping, loop_at fd [] [?ev] [(connecting 2 7, - 111)] 2 [Task_reconnect 0, Task_reconnect 1], ?cl2) (Waiting, lp, ?cl3)"
    "lp_work_queue lp = [Task_reconnect 0, Task_reconnect 1, Task_reconnect 2]" "lp_event_count lp = 0" "lp_cq lp = []"
    "lp_inflight lp = [?ev]"
    using cli.posted_work_stranded [of "loop_at fd [] [?ev] [(connecting 2 7, - 111)] 2 [Task_reconnect 0, Task_reconnect 1]"
        "connecting 2 7" "- 111" ?ev undefined ?cl2
        "loop_at fd [] [?ev] [] 3 [Task_reconnect 0, Task_reconnect 1, Task_reconnect 2]" ?cl3 False "types_line blake3"]
    by (auto simp flip: wake_read_def)
  have "?run (Waiting, lp, ?cl3)"
    using lp(1) run by (induction rule: rtranclp_induct) (auto intro: running.step)
  moreover have down: "all_down ?cl3" "om_ok (cl_clients ?cl3)"
    by (simp_all add: all_down_def clients_with_def refused(3) om_ok_def)
  have "ph' = Waiting \<and> lp' = lp \<and> (\<forall>i t. om_find (cl_clients cl') i = Some t \<longrightarrow> \<not> is_connected t)"
    if "(client_step_in False blake3)\<^sup>*\<^sup>* (Waiting, lp, ?cl3) (ph', lp', cl')" for ph' lp' cl'
  proof -
    have "ph' = Waiting \<and> lp' = lp \<and> cl_clients cl' = cl_clients ?cl3"
      using asleep_for_good [OF that lp(4,3) _ down] lp(5) by simp
    then show ?thesis
      using down(1) all_down_find [of cl'] by (simp add: all_down_def)
  qed
  ultimately show ?thesis
    using lp(2) by blast
qed

theorem client_never_reconnects_witness:
  "\<exists>lp cl. running False (types_line (\<lambda>_. [])) exec_client_work exec_client_callback (client_start_loop 256 4) start_clients
       (Waiting, lp, cl) \<and>
     lp_work_queue lp = [Task_reconnect 0, Task_reconnect 1, Task_reconnect 2] \<and>
     (\<forall>i t. om_find (cl_clients cl) i = Some t \<longrightarrow> \<not> is_connected t)"
  using client_never_reconnects [of "\<lambda>_. []" 4] by blast

end
