(* ===== verification/Vsr_Protocol.thy ===== *)
theory Vsr_Protocol
  imports Replica_State "HOL-Library.Sublist"
begin

text \<open>
  An abstract specification of Viewstamped Replication without recovery: what the messages of
  the replicas promise, with logs as lists, views and op numbers as natural numbers, and every
  acknowledgement and every DoViewChange ever sent remembered. The handlers of
  \<open>src/server/replica.cpp\<close> are shown to implement it in \<open>Cluster_Simulation\<close>.

  Two ghost components record, for every view that has started, the log it started with and
  the log its primary has built since. An operation is committed in a view when a quorum has
  acknowledged it there; the theorem of this theory is that the log of every later view starts
  with all operations committed before.
\<close>

section \<open>The specification\<close>

record ('p, 'e) protocol =
  p_view :: "'p \<Rightarrow> nat"
  p_normal :: "'p \<Rightarrow> bool"
  p_last_normal :: "'p \<Rightarrow> nat"
  p_log :: "'p \<Rightarrow> 'e list"
  p_acks :: "(nat \<times> nat \<times> 'p) set"
  p_dvc :: "(nat \<times> 'p \<times> nat \<times> 'e list) set"
  p_start :: "nat \<rightharpoonup> 'e list"
  p_hist :: "nat \<rightharpoonup> 'e list"

definition proto_init :: "('p, 'e) protocol" where
  "proto_init = \<lparr>p_view = (\<lambda>_. 0), p_normal = (\<lambda>_. True), p_last_normal = (\<lambda>_. 0), p_log = (\<lambda>_. []),
     p_acks = {}, p_dvc = {}, p_start = [0 \<mapsto> []], p_hist = [0 \<mapsto> []]\<rparr>"

text \<open>The last view in which a replica was normal; its log belongs to that view.\<close>

definition last_view :: "('p, 'e) protocol \<Rightarrow> 'p \<Rightarrow> nat" where
  "last_view a j = (if p_normal a j then p_view a j else p_last_normal a j)"

inductive proto_step :: "'p set \<Rightarrow> nat \<Rightarrow> (nat \<Rightarrow> 'p) \<Rightarrow> ('p, 'e) protocol \<Rightarrow> ('p, 'e) protocol \<Rightarrow> bool"
  for M :: "'p set" and q :: nat and prim :: "nat \<Rightarrow> 'p" where
  append: "j \<in> M \<Longrightarrow> p_normal a j \<Longrightarrow> prim (p_view a j) = j \<Longrightarrow> l = p_log a j @ [e] \<Longrightarrow>
     proto_step M q prim a (a\<lparr>p_log := (p_log a)(j := l), p_hist := (p_hist a)(p_view a j \<mapsto> l),
       p_acks := insert (p_view a j, length l, j) (p_acks a)\<rparr>)"
| accept: "j \<in> M \<Longrightarrow> p_normal a j \<Longrightarrow> p_hist a (p_view a j) = Some h \<Longrightarrow> length (p_log a j) < length h \<Longrightarrow>
     l = take (Suc (length (p_log a j))) h \<Longrightarrow>
     proto_step M q prim a (a\<lparr>p_log := (p_log a)(j := l),
       p_acks := insert (p_view a j, length l, j) (p_acks a)\<rparr>)"
| acknowledge: "j \<in> M \<Longrightarrow> p_normal a j \<Longrightarrow> k \<le> length (p_log a j) \<Longrightarrow>
     proto_step M q prim a (a\<lparr>p_acks := insert (p_view a j, k, j) (p_acks a)\<rparr>)"
| leave: "j \<in> M \<Longrightarrow> p_view a j < v \<Longrightarrow>
     proto_step M q prim a (a\<lparr>p_view := (p_view a)(j := v), p_normal := (p_normal a)(j := False),
       p_last_normal := (p_last_normal a)(j := last_view a j)\<rparr>)"
| promise: "j \<in> M \<Longrightarrow> \<not> p_normal a j \<Longrightarrow>
     proto_step M q prim a (a\<lparr>p_dvc := insert (p_view a j, j, p_last_normal a j, p_log a j) (p_dvc a)\<rparr>)"
| start: "j \<in> M \<Longrightarrow> \<not> p_normal a j \<Longrightarrow> p_view a j = v \<Longrightarrow> prim v = j \<Longrightarrow>
     Q \<subseteq> M \<Longrightarrow> q \<le> card Q \<Longrightarrow> (v, j0, w0, l) \<in> p_dvc a \<Longrightarrow>
     \<forall>i\<in>Q. \<exists>w l'. (v, i, w, l') \<in> p_dvc a \<and> lex_le (w, length l') (w0, length l) \<Longrightarrow>
     proto_step M q prim a (a\<lparr>p_normal := (p_normal a)(j := True), p_log := (p_log a)(j := l),
       p_start := (p_start a)(v \<mapsto> l), p_hist := (p_hist a)(v \<mapsto> l)\<rparr>)"
| adopt: "j \<in> M \<Longrightarrow> \<not> p_normal a j \<Longrightarrow> prim (p_view a j) \<noteq> j \<Longrightarrow> p_start a (p_view a j) = Some l \<Longrightarrow>
     proto_step M q prim a (a\<lparr>p_normal := (p_normal a)(j := True), p_log := (p_log a)(j := l)\<rparr>)"

definition committed :: "'p set \<Rightarrow> nat \<Rightarrow> ('p, 'e) protocol \<Rightarrow> nat \<Rightarrow> nat \<Rightarrow> bool" where
  "committed M q a v k \<longleftrightarrow> (\<exists>Q \<subseteq> M. q \<le> card Q \<and> (\<forall>j\<in>Q. (v, k, j) \<in> p_acks a))"

section \<open>Invariants\<close>

definition log_between :: "('p, 'e) protocol \<Rightarrow> nat \<Rightarrow> 'e list \<Rightarrow> bool" where
  "log_between a v l \<longleftrightarrow> (\<exists>s h. p_start a v = Some s \<and> p_hist a v = Some h \<and> prefix s l \<and> prefix l h)"

definition inv_logs :: "'p set \<Rightarrow> ('p, 'e) protocol \<Rightarrow> bool" where
  "inv_logs M a \<longleftrightarrow> (\<forall>j\<in>M. log_between a (last_view a j) (p_log a j) \<and>
     (\<not> p_normal a j \<longrightarrow> p_last_normal a j < p_view a j))"

definition inv_hist :: "'p set \<Rightarrow> (nat \<Rightarrow> 'p) \<Rightarrow> ('p, 'e) protocol \<Rightarrow> bool" where
  "inv_hist M prim a \<longleftrightarrow> (\<forall>v. p_start a v = None \<longleftrightarrow> p_hist a v = None) \<and>
     (\<forall>v s h. p_start a v = Some s \<longrightarrow> p_hist a v = Some h \<longrightarrow> prefix s h) \<and>
     (\<forall>v h. p_hist a v = Some h \<longrightarrow> prim v \<in> M \<and> (v < p_view a (prim v) \<or>
        v = p_view a (prim v) \<and> p_normal a (prim v) \<and> p_log a (prim v) = h))"

definition inv_acks :: "'p set \<Rightarrow> ('p, 'e) protocol \<Rightarrow> bool" where
  "inv_acks M a \<longleftrightarrow> (\<forall>v k j. (v, k, j) \<in> p_acks a \<longrightarrow> j \<in> M \<and> v \<le> last_view a j \<and>
     (v = last_view a j \<longrightarrow> k \<le> length (p_log a j)) \<and> (\<exists>h. p_hist a v = Some h \<and> k \<le> length h))"

definition inv_dvc :: "'p set \<Rightarrow> ('p, 'e) protocol \<Rightarrow> bool" where
  "inv_dvc M a \<longleftrightarrow> (\<forall>v j w l. (v, j, w, l) \<in> p_dvc a \<longrightarrow> j \<in> M \<and> v \<le> p_view a j \<and> w < v \<and>
     log_between a w l \<and>
     (\<forall>u k. (u, k, j) \<in> p_acks a \<longrightarrow> u < v \<longrightarrow> u \<le> w \<and> (u = w \<longrightarrow> k \<le> length l)))"

definition inv_start :: "'p set \<Rightarrow> nat \<Rightarrow> ('p, 'e) protocol \<Rightarrow> bool" where
  "inv_start M q a \<longleftrightarrow> p_start a 0 = Some [] \<and> (\<forall>v s. p_start a v = Some s \<longrightarrow> 0 < v \<longrightarrow>
     (\<exists>Q j0 w0. Q \<subseteq> M \<and> q \<le> card Q \<and> (v, j0, w0, s) \<in> p_dvc a \<and>
        (\<forall>i\<in>Q. \<exists>w l'. (v, i, w, l') \<in> p_dvc a \<and> lex_le (w, length l') (w0, length s))))"

lemma log_between_append:
  assumes "log_between a v l" and "p_hist a u = Some h" and "prefix h h'"
  shows "log_between (a\<lparr>p_log := x, p_hist := (p_hist a)(u \<mapsto> h'), p_acks := y\<rparr>) v l"
  using assms by (auto simp: log_between_def intro: prefix_order.order_trans)

lemma log_between_frame [simp]:
  "log_between (a\<lparr>p_log := x\<rparr>) = log_between a" "log_between (a\<lparr>p_acks := y\<rparr>) = log_between a"
  "log_between (a\<lparr>p_view := z\<rparr>) = log_between a" "log_between (a\<lparr>p_normal := n\<rparr>) = log_between a"
  "log_between (a\<lparr>p_last_normal := m\<rparr>) = log_between a" "log_between (a\<lparr>p_dvc := d\<rparr>) = log_between a"
  by (simp_all add: fun_eq_iff log_between_def)

section \<open>Preservation\<close>

lemmas inv_defs = inv_logs_def inv_hist_def inv_acks_def inv_dvc_def inv_start_def

definition proto_inv :: "'p set \<Rightarrow> nat \<Rightarrow> (nat \<Rightarrow> 'p) \<Rightarrow> ('p, 'e) protocol \<Rightarrow> bool" where
  "proto_inv M q prim a \<longleftrightarrow> inv_logs M a \<and> inv_hist M prim a \<and> inv_acks M a \<and> inv_dvc M a \<and> inv_start M q a"

lemma proto_inv_init: "prim 0 \<in> M \<Longrightarrow> proto_inv M q prim proto_init"
  by (auto simp: proto_inv_def inv_defs proto_init_def log_between_def last_view_def)

lemma log_betweenD:
  "log_between a v l \<Longrightarrow> p_hist a v = Some h \<Longrightarrow> prefix l h"
  "log_between a v l \<Longrightarrow> p_start a v = Some s \<Longrightarrow> prefix s l"
  by (auto simp: log_between_def)

lemma inv_acksD:
  assumes "inv_acks M a" and "(v, k, j) \<in> p_acks a"
  shows "j \<in> M" "v \<le> last_view a j" "v = last_view a j \<Longrightarrow> k \<le> length (p_log a j)"
    "\<exists>h. p_hist a v = Some h \<and> k \<le> length h"
  using assms unfolding inv_acks_def by blast+

lemma inv_acks_extend:
  assumes "inv_acks M a" and "last_view a' = last_view a" and "\<And>i. length (p_log a i) \<le> length (p_log a' i)"
    and "\<And>v h. p_hist a v = Some h \<Longrightarrow> \<exists>h'. p_hist a' v = Some h' \<and> length h \<le> length h'"
    and "p_acks a' = insert (last_view a j, k, j) (p_acks a)" and "j \<in> M" and "k \<le> length (p_log a' j)"
    and "\<exists>h. p_hist a' (last_view a j) = Some h \<and> k \<le> length h"
  shows "inv_acks M a'"
  unfolding inv_acks_def assms(2,5)
proof (intro allI impI)
  fix v n i assume "(v, n, i) \<in> insert (last_view a j, k, j) (p_acks a)"
  then consider "v = last_view a j" "n = k" "i = j" | "(v, n, i) \<in> p_acks a" by auto
  then show "i \<in> M \<and> v \<le> last_view a i \<and> (v = last_view a i \<longrightarrow> n \<le> length (p_log a' i)) \<and>
      (\<exists>h. p_hist a' v = Some h \<and> n \<le> length h)"
  proof cases
    case 2
    note old = inv_acksD [OF assms(1) 2]
    moreover have "\<exists>h. p_hist a' v = Some h \<and> n \<le> length h"
      using old(4) assms(4) order_trans by metis
    ultimately show ?thesis
      using assms(3) [of i] by auto
  qed (use assms(6-8) in simp)
qed

lemma inv_dvcD:
  assumes "inv_dvc M a" and "(v, j, w, l) \<in> p_dvc a"
  shows "j \<in> M" "v \<le> p_view a j" "w < v" "log_between a w l"
    "(u, k, j) \<in> p_acks a \<Longrightarrow> u < v \<Longrightarrow> u \<le> w \<and> (u = w \<longrightarrow> k \<le> length l)"
  using assms unfolding inv_dvc_def by blast+

lemma inv_dvc_extend:
  assumes "inv_dvc M a" and "p_dvc a' = p_dvc a" and "\<And>i. p_view a i \<le> p_view a' i"
    and "\<And>v l. log_between a v l \<Longrightarrow> log_between a' v l"
    and "\<And>u k i. (u, k, i) \<in> p_acks a' \<Longrightarrow> (u, k, i) \<in> p_acks a \<or> u = p_view a i"
  shows "inv_dvc M a'"
  unfolding inv_dvc_def assms(2)
proof (intro allI impI)
  fix v j w l assume d: "(v, j, w, l) \<in> p_dvc a"
  note old = inv_dvcD [OF assms(1) d]
  have "u \<le> w \<and> (u = w \<longrightarrow> k \<le> length l)" if "(u, k, j) \<in> p_acks a'" "u < v" for u k
    using assms(5) [OF that(1)] old(2) old(5) [OF _ that(2), of k] that(2) by auto
  then show "j \<in> M \<and> v \<le> p_view a' j \<and> w < v \<and> log_between a' w l \<and>
      (\<forall>u k. (u, k, j) \<in> p_acks a' \<longrightarrow> u < v \<longrightarrow> u \<le> w \<and> (u = w \<longrightarrow> k \<le> length l))"
    using old(1-4) assms(3) [of j] assms(4) order_trans by blast
qed

text \<open>The primary of a started view, while normal in it, holds the whole log of the view.\<close>

lemma primary_log:
  assumes "proto_inv M q prim a" and "j \<in> M" and "p_normal a j" and "prim (p_view a j) = j"
  shows "p_hist a (p_view a j) = Some (p_log a j)"
proof -
  obtain h where h: "p_hist a (p_view a j) = Some h"
    using assms by (fastforce simp: proto_inv_def inv_logs_def log_between_def last_view_def)
  then have "p_view a j < p_view a (prim (p_view a j)) \<or> p_log a (prim (p_view a j)) = h"
    using assms(1) unfolding proto_inv_def inv_hist_def by blast
  with h assms(4) show ?thesis by simp
qed

lemma proto_inv_append:
  fixes e :: 'e and a :: "('p, 'e) protocol"
  assumes inv: "proto_inv M q prim a" and "j \<in> M" and normal: "p_normal a j" and prim: "prim (p_view a j) = j"
  defines "l \<equiv> p_log a j @ [e]"
  defines "a' \<equiv> a\<lparr>p_log := (p_log a)(j := l), p_hist := (p_hist a)(p_view a j \<mapsto> l),
       p_acks := insert (p_view a j, length l, j) (p_acks a)\<rparr>"
  shows "proto_inv M q prim a'"
proof -
  note hist = primary_log [OF assms(1-4)]
  have between: "log_between a' v k" if "log_between a v k" for v k
    using log_between_append [OF that hist, of l] by (simp add: a'_def l_def)
  have new: "log_between a' (p_view a j) l"
    using inv \<open>j \<in> M\<close> normal
    by (auto simp: a'_def proto_inv_def inv_logs_def log_between_def last_view_def l_def)
  have same: "last_view a' = last_view a" "p_view a' = p_view a" "p_normal a' = p_normal a" "p_dvc a' = p_dvc a"
    "p_start a' = p_start a" "p_last_normal a' = p_last_normal a"
    by (simp_all add: a'_def last_view_def fun_eq_iff)
  have "inv_logs M a'"
    using inv new between normal by (auto simp: proto_inv_def inv_logs_def same) (auto simp: a'_def last_view_def)
  moreover have "inv_hist M prim a'"
    using inv hist prim \<open>j \<in> M\<close> normal
    by (auto simp: proto_inv_def inv_hist_def same) (auto simp: a'_def l_def split: if_splits)
  moreover have "inv_acks M a'"
    by (rule inv_acks_extend [where a = a and j = j and k = "length l"])
      (use inv hist \<open>j \<in> M\<close> normal in \<open>auto simp: proto_inv_def a'_def l_def last_view_def\<close>)
  moreover have "inv_dvc M a'"
    by (rule inv_dvc_extend [where a = a])
      (use inv between in \<open>simp_all add: proto_inv_def same\<close>, auto simp: a'_def)
  ultimately show ?thesis
    using inv by (simp add: proto_inv_def inv_start_def same)
qed

lemma inv_hist_frame:
  assumes "inv_hist M prim a" and "p_start a' = p_start a" and "p_hist a' = p_hist a"
    and "\<And>u h. u < p_view a (prim u) \<or> u = p_view a (prim u) \<and> p_normal a (prim u) \<and> p_log a (prim u) = h \<Longrightarrow>
      u < p_view a' (prim u) \<or> u = p_view a' (prim u) \<and> p_normal a' (prim u) \<and> p_log a' (prim u) = h"
  shows "inv_hist M prim a'"
  using assms(1,4) unfolding inv_hist_def assms(2,3) by blast

lemma inv_start_mono:
  assumes "inv_start M q a" and "p_start a' = p_start a" and "p_dvc a \<subseteq> p_dvc a'"
  shows "inv_start M q a'"
  unfolding inv_start_def assms(2)
proof (intro conjI allI impI)
  fix v s assume "p_start a v = Some s" "0 < v"
  then obtain Q j0 w0 where "Q \<subseteq> M" "q \<le> card Q" "(v, j0, w0, s) \<in> p_dvc a"
    "\<forall>i\<in>Q. \<exists>w l'. (v, i, w, l') \<in> p_dvc a \<and> lex_le (w, length l') (w0, length s)"
    using assms(1) unfolding inv_start_def by blast
  with assms(3) show "\<exists>Q j0 w0. Q \<subseteq> M \<and> q \<le> card Q \<and> (v, j0, w0, s) \<in> p_dvc a' \<and>
      (\<forall>i\<in>Q. \<exists>w l'. (v, i, w, l') \<in> p_dvc a' \<and> lex_le (w, length l') (w0, length s))"
    by (intro exI [of _ Q] exI [of _ j0] exI [of _ w0]) blast
qed (use assms(1) in \<open>simp add: inv_start_def\<close>)

lemma proto_inv_accept:
  fixes a :: "('p, 'e) protocol"
  assumes inv: "proto_inv M q prim a" and "j \<in> M" and normal: "p_normal a j"
    and hist: "p_hist a (p_view a j) = Some h" and shorter: "length (p_log a j) < length h"
  defines "l \<equiv> take (Suc (length (p_log a j))) h"
  defines "a' \<equiv> a\<lparr>p_log := (p_log a)(j := l), p_acks := insert (p_view a j, length l, j) (p_acks a)\<rparr>"
  shows "proto_inv M q prim a'"
proof -
  have view: "last_view a j = p_view a j"
    using normal by (simp add: last_view_def)
  obtain s where s: "p_start a (p_view a j) = Some s" "prefix s (p_log a j)" "prefix (p_log a j) h"
    using inv \<open>j \<in> M\<close> hist view by (fastforce simp: proto_inv_def inv_logs_def log_between_def)
  have l: "length l = Suc (length (p_log a j))" "prefix l h" "prefix (p_log a j) l"
    using shorter s(3) by (auto simp: l_def take_is_prefix intro: prefix_length_prefix)
  have same: "last_view a' = last_view a" "p_view a' = p_view a" "p_normal a' = p_normal a" "p_dvc a' = p_dvc a"
    "p_start a' = p_start a" "p_hist a' = p_hist a" "p_last_normal a' = p_last_normal a"
    "log_between a' = log_between a"
    by (simp_all add: a'_def last_view_def fun_eq_iff log_between_def)
  have "log_between a (p_view a j) l"
    using s l hist by (auto simp: log_between_def intro: prefix_order.order_trans)
  then have "inv_logs M a'"
    using inv view by (auto simp: proto_inv_def inv_logs_def same) (auto simp: a'_def)
  moreover have "prim (p_view a j) \<noteq> j"
    using primary_log [OF inv \<open>j \<in> M\<close> normal] hist shorter by auto
  then have "inv_hist M prim a'"
    by - (rule inv_hist_frame [where a = a], use inv in \<open>auto simp: proto_inv_def same\<close>, auto simp: a'_def)
  moreover have "inv_acks M a'"
    by (rule inv_acks_extend [where a = a and j = j and k = "length l"])
      (use inv hist \<open>j \<in> M\<close> view l prefix_length_le [OF l(2)] in \<open>auto simp: proto_inv_def same\<close>, auto simp: a'_def)
  moreover have "inv_dvc M a'"
    by (rule inv_dvc_extend [where a = a]) (use inv in \<open>simp_all add: proto_inv_def same\<close>, auto simp: a'_def)
  ultimately show ?thesis
    using inv by (simp add: proto_inv_def inv_start_def same)
qed

lemma proto_inv_acknowledge:
  fixes a :: "('p, 'e) protocol"
  assumes inv: "proto_inv M q prim a" and "j \<in> M" and normal: "p_normal a j" and "k \<le> length (p_log a j)"
  defines "a' \<equiv> a\<lparr>p_acks := insert (p_view a j, k, j) (p_acks a)\<rparr>"
  shows "proto_inv M q prim a'"
proof -
  have view: "last_view a j = p_view a j"
    using normal by (simp add: last_view_def)
  obtain h where h: "p_hist a (p_view a j) = Some h" "prefix (p_log a j) h"
    using inv \<open>j \<in> M\<close> view by (fastforce simp: proto_inv_def inv_logs_def log_between_def)
  have same: "last_view a' = last_view a" "p_view a' = p_view a" "p_normal a' = p_normal a" "p_dvc a' = p_dvc a"
    "p_log a' = p_log a" "p_start a' = p_start a" "p_hist a' = p_hist a" "p_last_normal a' = p_last_normal a"
    "log_between a' = log_between a"
    by (simp_all add: a'_def last_view_def fun_eq_iff log_between_def)
  have "inv_acks M a'"
    by (rule inv_acks_extend [where a = a and j = j and k = k])
      (use inv h \<open>j \<in> M\<close> view \<open>k \<le> length (p_log a j)\<close> prefix_length_le [OF h(2)] in \<open>auto simp: proto_inv_def same\<close>,
        auto simp: a'_def)
  moreover have "inv_dvc M a'"
    by (rule inv_dvc_extend [where a = a]) (use inv in \<open>simp_all add: proto_inv_def same\<close>, auto simp: a'_def)
  ultimately show ?thesis
    using inv by (simp add: proto_inv_def inv_start_def inv_logs_def inv_hist_def same)
qed

lemma proto_inv_leave:
  fixes a :: "('p, 'e) protocol"
  assumes inv: "proto_inv M q prim a" and "j \<in> M" and later: "p_view a j < v"
  defines "a' \<equiv> a\<lparr>p_view := (p_view a)(j := v), p_normal := (p_normal a)(j := False),
       p_last_normal := (p_last_normal a)(j := last_view a j)\<rparr>"
  shows "proto_inv M q prim a'"
proof -
  have same: "last_view a' = last_view a" "p_log a' = p_log a" "p_dvc a' = p_dvc a" "p_acks a' = p_acks a"
    "p_start a' = p_start a" "p_hist a' = p_hist a" "log_between a' = log_between a"
    by (simp_all add: a'_def last_view_def fun_eq_iff log_between_def)
  have "last_view a j \<le> p_view a j"
    using inv \<open>j \<in> M\<close> by (auto simp: proto_inv_def inv_logs_def last_view_def)
  then have "inv_logs M a'"
    using inv later by (auto simp: proto_inv_def inv_logs_def same) (auto simp: a'_def)
  moreover have "u < p_view a' (prim u) \<or> u = p_view a' (prim u) \<and> p_normal a' (prim u) \<and> p_log a' (prim u) = h"
    if "u < p_view a (prim u) \<or> u = p_view a (prim u) \<and> p_normal a (prim u) \<and> p_log a (prim u) = h" for u h
    using that later by (cases "prim u = j") (auto simp: a'_def)
  then have "inv_hist M prim a'"
    by - (rule inv_hist_frame [where a = a], use inv in \<open>simp_all add: proto_inv_def same\<close>)
  moreover have "inv_dvc M a'"
    by (rule inv_dvc_extend [where a = a]) (use inv later in \<open>simp_all add: proto_inv_def same\<close>, auto simp: a'_def)
  ultimately show ?thesis
    using inv by (simp add: proto_inv_def inv_start_def inv_acks_def same)
qed

lemma proto_inv_promise:
  fixes a :: "('p, 'e) protocol"
  assumes inv: "proto_inv M q prim a" and "j \<in> M" and changing: "\<not> p_normal a j"
  defines "a' \<equiv> a\<lparr>p_dvc := insert (p_view a j, j, p_last_normal a j, p_log a j) (p_dvc a)\<rparr>"
  shows "proto_inv M q prim a'"
proof -
  have same: "last_view a' = last_view a" "p_log a' = p_log a" "p_view a' = p_view a" "p_acks a' = p_acks a"
    "p_start a' = p_start a" "p_hist a' = p_hist a" "log_between a' = log_between a"
    "p_normal a' = p_normal a" "p_last_normal a' = p_last_normal a"
    by (simp_all add: a'_def last_view_def fun_eq_iff log_between_def)
  have view: "last_view a j = p_last_normal a j" "p_last_normal a j < p_view a j"
    "log_between a (p_last_normal a j) (p_log a j)"
    using inv \<open>j \<in> M\<close> changing by (auto simp: proto_inv_def inv_logs_def last_view_def)
  have "inv_dvc M a'"
    unfolding inv_dvc_def same
  proof (intro allI impI)
    fix v i w l assume "(v, i, w, l) \<in> p_dvc a'"
    then consider "(v, i, w, l) \<in> p_dvc a" | "v = p_view a j" "i = j" "w = p_last_normal a j" "l = p_log a j"
      by (auto simp: a'_def)
    then show "i \<in> M \<and> v \<le> p_view a i \<and> w < v \<and> log_between a w l \<and>
        (\<forall>u k. (u, k, i) \<in> p_acks a \<longrightarrow> u < v \<longrightarrow> u \<le> w \<and> (u = w \<longrightarrow> k \<le> length l))"
    proof cases
      case 1
      with inv show ?thesis unfolding proto_inv_def inv_dvc_def by blast
    next
      case 2
      then show ?thesis
        using inv view \<open>j \<in> M\<close> inv_acksD [of M a _ _ j] by (auto simp: proto_inv_def)
    qed
  qed
  moreover have "inv_start M q a'"
    by (rule inv_start_mono [where a = a]) (use inv in \<open>auto simp: proto_inv_def a'_def\<close>)
  ultimately show ?thesis
    using inv by (simp add: proto_inv_def inv_logs_def inv_hist_def inv_acks_def same)
qed

lemma inv_histD:
  assumes "inv_hist M prim a" and "p_hist a v = Some h"
  shows "prim v \<in> M" "v < p_view a (prim v) \<or> v = p_view a (prim v) \<and> p_normal a (prim v) \<and> p_log a (prim v) = h"
  using assms unfolding inv_hist_def by blast+

lemma proto_inv_start:
  fixes a :: "('p, 'e) protocol"
  assumes inv: "proto_inv M q prim a" and "j \<in> M" and changing: "\<not> p_normal a j" and view: "p_view a j = v"
    and prim: "prim v = j" and Q: "Q \<subseteq> M" "q \<le> card Q" and best: "(v, j0, w0, l) \<in> p_dvc a"
    and promised: "\<forall>i\<in>Q. \<exists>w l'. (v, i, w, l') \<in> p_dvc a \<and> lex_le (w, length l') (w0, length l)"
  defines "a' \<equiv> a\<lparr>p_normal := (p_normal a)(j := True), p_log := (p_log a)(j := l),
       p_start := (p_start a)(v \<mapsto> l), p_hist := (p_hist a)(v \<mapsto> l)\<rparr>"
  shows "proto_inv M q prim a'"
proof -
  have none: "p_hist a v = None" "p_start a v = None"
  proof -
    show "p_hist a v = None"
      using inv_histD [of M prim a v] inv changing view prim by (cases "p_hist a v") (auto simp: proto_inv_def)
    then show "p_start a v = None"
      using inv unfolding proto_inv_def inv_hist_def by blast
  qed
  have between: "log_between a' u k" if "log_between a u k" for u k
    using that none by (auto simp: log_between_def a'_def)
  have other: "last_view a' i = last_view a i" if "i \<noteq> j" for i
    using that by (simp add: a'_def last_view_def)
  have lv: "last_view a' j = v" "last_view a j < v"
    using inv \<open>j \<in> M\<close> changing view by (auto simp: a'_def last_view_def proto_inv_def inv_logs_def)
  have same: "p_view a' = p_view a" "p_dvc a' = p_dvc a" "p_acks a' = p_acks a" "p_last_normal a' = p_last_normal a"
    by (simp_all add: a'_def)
  have "inv_logs M a'"
    unfolding inv_logs_def
  proof
    fix i assume "i \<in> M"
    show "log_between a' (last_view a' i) (p_log a' i) \<and> (\<not> p_normal a' i \<longrightarrow> p_last_normal a' i < p_view a' i)"
    proof (cases "i = j")
      case True
      then show ?thesis using lv by (simp add: log_between_def) (simp add: a'_def)
    next
      case False
      then show ?thesis
        using inv \<open>i \<in> M\<close> between other [OF False] by (auto simp: proto_inv_def inv_logs_def same) (auto simp: a'_def)
    qed
  qed
  moreover have "inv_hist M prim a'"
  proof -
    have old: "inv_hist M prim a" using inv by (simp add: proto_inv_def)
    have "prim u \<in> M \<and> (u < p_view a (prim u) \<or>
        u = p_view a (prim u) \<and> p_normal a' (prim u) \<and> p_log a' (prim u) = h)"
      if "p_hist a' u = Some h" for u h
      using that inv_histD [OF old, of u] none \<open>j \<in> M\<close> prim view changing
      by (cases "u = v"; cases "prim u = j") (auto simp: a'_def)
    moreover have "(p_start a' u = None) = (p_hist a' u = None)"
      "p_start a' u = Some s \<Longrightarrow> p_hist a' u = Some h \<Longrightarrow> prefix s h" for u s h
      using old by (auto simp: inv_hist_def a'_def split: if_splits)
    ultimately show ?thesis
      unfolding inv_hist_def same by blast
  qed
  moreover have "inv_acks M a'"
    unfolding inv_acks_def same
  proof (intro allI impI)
    fix u k i assume ack: "(u, k, i) \<in> p_acks a"
    note old = inv_acksD [OF _ ack, of M]
    have "inv_acks M a" using inv by (simp add: proto_inv_def)
    note old = old [OF this]
    have "\<exists>h. p_hist a' u = Some h \<and> k \<le> length h"
      using old(4) none by (auto simp: a'_def)
    then show "i \<in> M \<and> u \<le> last_view a' i \<and> (u = last_view a' i \<longrightarrow> k \<le> length (p_log a' i)) \<and>
        (\<exists>h. p_hist a' u = Some h \<and> k \<le> length h)"
      using old lv other [of i] by (cases "i = j") (auto simp: a'_def)
  qed
  moreover have "inv_dvc M a'"
    by (rule inv_dvc_extend [where a = a]) (use inv between in \<open>simp_all add: proto_inv_def same\<close>)
  moreover have "inv_start M q a'"
    unfolding inv_start_def same
  proof (intro conjI allI impI)
    show "p_start a' 0 = Some []"
      using inv none by (auto simp: proto_inv_def inv_start_def a'_def)
    fix u s assume u: "p_start a' u = Some s" "0 < u"
    show "\<exists>Q j0 w0. Q \<subseteq> M \<and> q \<le> card Q \<and> (u, j0, w0, s) \<in> p_dvc a \<and>
        (\<forall>i\<in>Q. \<exists>w l'. (u, i, w, l') \<in> p_dvc a \<and> lex_le (w, length l') (w0, length s))"
    proof (cases "u = v")
      case True
      then have "s = l" using u by (simp add: a'_def)
      with True Q best promised show ?thesis by blast
    next
      case False
      then have "p_start a u = Some s" using u by (simp add: a'_def)
      with u(2) inv show ?thesis unfolding proto_inv_def inv_start_def by blast
    qed
  qed
  ultimately show ?thesis
    by (simp add: proto_inv_def)
qed

lemma proto_inv_adopt:
  fixes a :: "('p, 'e) protocol"
  assumes inv: "proto_inv M q prim a" and "j \<in> M" and changing: "\<not> p_normal a j"
    and backup: "prim (p_view a j) \<noteq> j" and start: "p_start a (p_view a j) = Some l"
  defines "a' \<equiv> a\<lparr>p_normal := (p_normal a)(j := True), p_log := (p_log a)(j := l)\<rparr>"
  shows "proto_inv M q prim a'"
proof -
  have same: "p_view a' = p_view a" "p_dvc a' = p_dvc a" "p_acks a' = p_acks a" "p_last_normal a' = p_last_normal a"
    "p_start a' = p_start a" "p_hist a' = p_hist a" "log_between a' = log_between a"
    by (simp_all add: a'_def)
  have other: "last_view a' i = last_view a i" if "i \<noteq> j" for i
    using that by (simp add: a'_def last_view_def)
  have lv: "last_view a' j = p_view a j" "last_view a j < p_view a j"
    using inv \<open>j \<in> M\<close> changing by (auto simp: a'_def last_view_def proto_inv_def inv_logs_def)
  have "log_between a (p_view a j) l"
  proof -
    obtain h where "p_hist a (p_view a j) = Some h"
      using inv start unfolding proto_inv_def inv_hist_def by (metis not_Some_eq)
    moreover from this have "prefix l h"
      using inv start unfolding proto_inv_def inv_hist_def by blast
    ultimately show ?thesis using start by (simp add: log_between_def)
  qed
  then have "log_between a' (last_view a' i) (p_log a' i) \<and> (\<not> p_normal a' i \<longrightarrow> p_last_normal a' i < p_view a' i)"
    if "i \<in> M" for i
    using inv that lv other [of i]
    by (cases "i = j") (auto simp: proto_inv_def inv_logs_def same, auto simp: a'_def)
  then have "inv_logs M a'"
    by (simp add: inv_logs_def)
  moreover have "inv_hist M prim a'"
    by (rule inv_hist_frame [where a = a]) (use inv backup in \<open>auto simp: proto_inv_def same\<close>, auto simp: a'_def)
  moreover have "inv_acks M a'"
    unfolding inv_acks_def same
  proof (intro allI impI)
    fix u k i assume ack: "(u, k, i) \<in> p_acks a"
    have "inv_acks M a" using inv by (simp add: proto_inv_def)
    note old = inv_acksD [OF this ack]
    then show "i \<in> M \<and> u \<le> last_view a' i \<and> (u = last_view a' i \<longrightarrow> k \<le> length (p_log a' i)) \<and>
        (\<exists>h. p_hist a u = Some h \<and> k \<le> length h)"
      using lv other [of i] by (cases "i = j") (auto simp: a'_def)
  qed
  moreover have "inv_dvc M a'"
    by (rule inv_dvc_extend [where a = a]) (use inv in \<open>simp_all add: proto_inv_def same\<close>)
  ultimately show ?thesis
    using inv by (simp add: proto_inv_def inv_start_def same)
qed

lemma proto_step_inv:
  assumes "proto_step M q prim a a'" and "proto_inv M q prim a"
  shows "proto_inv M q prim a'"
  using assms
proof (induction rule: proto_step.induct)
  case (append j a l e)
  then show ?case using proto_inv_append [of M q prim a j e] by simp
next
  case (accept j a h l)
  then show ?case using proto_inv_accept [of M q prim a j h] by simp
next
  case (acknowledge j a k)
  then show ?case by (intro proto_inv_acknowledge)
next
  case (leave j a v)
  then show ?case by (intro proto_inv_leave)
next
  case (promise j a)
  then show ?case by (intro proto_inv_promise)
next
  case (start j a v Q j0 w0 l)
  then show ?case by (intro proto_inv_start [of M q prim a j v Q j0 w0 l])
next
  case (adopt j a l)
  then show ?case by (intro proto_inv_adopt)
qed

section \<open>Committed operations survive\<close>

lemma committed_hist:
  assumes "inv_acks M a" and "committed M q a v k" and "0 < q"
  obtains h where "p_hist a v = Some h" "k \<le> length h"
proof -
  obtain Q where "q \<le> card Q" "\<forall>j\<in>Q. (v, k, j) \<in> p_acks a"
    using assms(2) by (auto simp: committed_def)
  moreover from this(1) assms(3) have "Q \<noteq> {}" by auto
  ultimately show ?thesis
    using inv_acksD(4) [OF assms(1)] that by blast
qed

lemma take_prefix: "prefix xs ys \<Longrightarrow> k \<le> length xs \<Longrightarrow> take k xs = take k ys"
  by (auto simp: prefix_def)

context quorum_system
begin

text \<open>
  A quorum that acknowledged an operation and a quorum that promised a later view share a
  replica, whose promise accounts for the acknowledgement.
\<close>

lemma promise_of_acknowledger:
  assumes "committed members size_q a v k" and "Q \<subseteq> members" and "size_q \<le> card Q"
    and "\<forall>i\<in>Q. \<exists>w l'. (v', i, w, l') \<in> p_dvc a \<and> lex_le (w, length l') b"
    and "inv_dvc members a" and "v < v'"
  obtains i w l' where "(v', i, w, l') \<in> p_dvc a" "lex_le (w, length l') b" "v \<le> w" "v = w \<longrightarrow> k \<le> length l'"
proof -
  obtain A where A: "A \<subseteq> members" "size_q \<le> card A" "\<forall>j\<in>A. (v, k, j) \<in> p_acks a"
    using assms(1) by (auto simp: committed_def)
  obtain i where i: "i \<in> A" "i \<in> Q"
    using quorums_intersect [OF A(1) assms(2) A(2) assms(3)] by blast
  then obtain w l' where d: "(v', i, w, l') \<in> p_dvc a" "lex_le (w, length l') b"
    using assms(4) by blast
  have "(v, k, i) \<in> p_acks a"
    using A(3) i(1) by blast
  from inv_dvcD(5) [OF assms(5) d(1) this assms(6)] d show ?thesis
    by (intro that) auto
qed

lemma size_q_pos: "0 < size_q"
  using majority by simp

theorem committed_in_later_start:
  assumes inv: "proto_inv members size_q prim a"
    and com: "committed members size_q a v k" and hist: "p_hist a v = Some h"
    and start: "p_start a v' = Some s" and later: "v < v'"
  shows "k \<le> length s \<and> take k h = take k s"
  using start later
proof (induction v' arbitrary: s rule: less_induct)
  case (less v')
  have acks: "inv_acks members a" and dvc: "inv_dvc members a"
    using inv by (simp_all add: proto_inv_def)
  have k: "k \<le> length h"
    using committed_hist [OF acks com size_q_pos] hist by (metis option.inject)
  obtain Q j0 w0 where Q: "Q \<subseteq> members" "size_q \<le> card Q" "(v', j0, w0, s) \<in> p_dvc a"
    "\<forall>i\<in>Q. \<exists>w l'. (v', i, w, l') \<in> p_dvc a \<and> lex_le (w, length l') (w0, length s)"
    using inv less.prems unfolding proto_inv_def inv_start_def by blast
  obtain j1 w l' where "(v', j1, w, l') \<in> p_dvc a" and i: "lex_le (w, length l') (w0, length s)" "v \<le> w" "v = w \<longrightarrow> k \<le> length l'"
    by (rule promise_of_acknowledger [OF com Q(1,2,4) dvc less.prems(2)])
  have w0: "log_between a w0 s" "w0 < v'"
    using inv_dvcD [OF dvc Q(3)] by blast+
  have "v \<le> w0"
    using i(1,2) by (auto simp: lex_le_def)
  then consider (same) "v = w0" | (between) "v < w0" by linarith
  then show ?case
  proof cases
    case same
    then have "w = w0" "length l' \<le> length s"
      using i(1,2) by (auto simp: lex_le_def)
    with same i(3) have "k \<le> length s" by simp
    with log_betweenD(1) [OF w0(1)] hist same show ?thesis
      by (auto simp: take_prefix)
  next
    case between
    obtain s0 where s0: "p_start a w0 = Some s0" "prefix s0 s"
      using w0(1) by (auto simp: log_between_def)
    from less.IH [OF w0(2) s0(1) between] show ?thesis
      using s0(2) prefix_length_le [OF s0(2)] take_prefix [OF s0(2), of k] by simp
  qed
qed

text \<open>A replica whose log belongs to a view no older than a commit agrees with it.\<close>

lemma log_agrees_with_committed:
  assumes inv: "proto_inv members size_q prim a" and com: "committed members size_q a v k"
    and hist: "p_hist a v = Some h" and "log_between a w l" and "v \<le> w"
  shows "take (min k (length l)) l = take (min k (length l)) h" and "v < w \<Longrightarrow> k \<le> length l"
proof -
  obtain s h' where s: "p_start a w = Some s" "p_hist a w = Some h'" "prefix s l" "prefix l h'"
    using assms(4) by (auto simp: log_between_def)
  have "take (min k (length l)) l = take (min k (length l)) h \<and> (v < w \<longrightarrow> k \<le> length l)"
  proof (cases "v = w")
    case True
    then show ?thesis using s hist by (simp add: take_prefix)
  next
    case False
    then have "v < w" using assms(5) by simp
    from committed_in_later_start [OF inv com hist s(1) this]
    have "k \<le> length s" "take k h = take k s" by auto
    then show ?thesis
      using prefix_length_le [OF s(3)] take_prefix [OF s(3), of k] by (simp add: min_absorb1)
  qed
  then show "take (min k (length l)) l = take (min k (length l)) h" and "v < w \<Longrightarrow> k \<le> length l"
    by auto
qed

text \<open>What is committed in two views is the same sequence of operations.\<close>

lemma committed_agree:
  assumes inv: "proto_inv members size_q prim a"
    and com: "committed members size_q a v k" "committed members size_q a v' k'"
    and hist: "p_hist a v = Some h" "p_hist a v' = Some h'" and "n \<le> k" and "n \<le> k'"
  shows "take n h = take n h'"
proof -
  have *: "take n h = take n h'"
    if c: "committed members size_q a v k" and h: "p_hist a v = Some h" "p_hist a v' = Some h'"
      and n: "n \<le> k" and le: "v \<le> v'" for v v' k h h'
  proof (cases "v = v'")
    case True
    then show ?thesis using h by simp
  next
    case False
    obtain s where s: "p_start a v' = Some s" "prefix s h'"
      using inv h(2) unfolding proto_inv_def inv_hist_def by (metis not_Some_eq)
    from committed_in_later_start [OF inv c h(1) s(1)] False le
    have "k \<le> length s" "take k h = take k s" by auto
    then have "take k h = take k h'" using take_prefix [OF s(2)] by simp
    then have "take n (take k h) = take n (take k h')" by simp
    then show ?thesis using n by (simp add: min_absorb1)
  qed
  show ?thesis
    using * [OF com(1) hist assms(6)] * [OF com(2) hist(2,1) assms(7)] by (metis linear)
qed

end

section \<open>What a step keeps\<close>

text \<open>Promises, acknowledgements and logs of views are never withdrawn.\<close>

definition grows :: "'p set \<Rightarrow> ('p, 'e) protocol \<Rightarrow> ('p, 'e) protocol \<Rightarrow> bool" where
  "grows M a a' \<longleftrightarrow> p_acks a \<subseteq> p_acks a' \<and> p_dvc a \<subseteq> p_dvc a' \<and> p_start a \<subseteq>\<^sub>m p_start a' \<and>
     (\<forall>v h. p_hist a v = Some h \<longrightarrow> (\<exists>h'. p_hist a' v = Some h' \<and> prefix h h')) \<and>
     (\<forall>j\<in>M. p_view a j \<le> p_view a' j \<and> last_view a j \<le> last_view a' j)"

lemma grows_refl [simp]: "grows M a a"
  by (simp add: grows_def)

lemma grows_trans:
  assumes "grows M a a'" and "grows M a' a''"
  shows "grows M a a''"
proof -
  have "\<exists>h''. p_hist a'' v = Some h'' \<and> prefix h h''" if "p_hist a v = Some h" for v h
    using assms that unfolding grows_def by (metis prefix_order.order_trans)
  moreover have "p_view a j \<le> p_view a'' j" "last_view a j \<le> last_view a'' j" if "j \<in> M" for j
    using assms that unfolding grows_def by (meson order_trans)+
  ultimately show ?thesis
    using assms unfolding grows_def by (meson map_le_trans order_trans)
qed

lemma proto_step_grows:
  assumes "proto_step M q prim a a'" and "proto_inv M q prim a"
  shows "grows M a a'"
  using assms
proof (induction rule: proto_step.induct)
  case (append j a l e)
  note hist = primary_log [OF append.prems append.hyps(1-3)]
  show ?case
    using hist append.hyps by (auto simp: grows_def last_view_def)
next
  case (leave j a v)
  then have "last_view a j \<le> p_view a j"
    by (auto simp: proto_inv_def inv_logs_def last_view_def)
  with leave show ?case
    by (auto simp: grows_def last_view_def)
next
  case (start j a v Q j0 w0 l)
  have "p_hist a v = None"
    using inv_histD [of M prim a v] start by (cases "p_hist a v") (auto simp: proto_inv_def)
  moreover from this have "p_start a v = None"
    using start.prems unfolding proto_inv_def inv_hist_def by blast
  moreover have "p_last_normal a j < p_view a j"
    using start by (auto simp: proto_inv_def inv_logs_def)
  ultimately show ?case
    using start.hyps by (auto simp: grows_def last_view_def map_le_def)
next
  case (adopt j a l)
  then have "p_last_normal a j < p_view a j"
    by (auto simp: proto_inv_def inv_logs_def)
  with adopt show ?case
    by (auto simp: grows_def last_view_def)
qed (auto simp: grows_def last_view_def)

lemma proto_steps:
  assumes "(proto_step M q prim)\<^sup>*\<^sup>* a a'" and "proto_inv M q prim a"
  shows "proto_inv M q prim a' \<and> grows M a a'"
  using assms
proof (induction rule: rtranclp_induct)
  case (step b c)
  then show ?case
    using proto_step_inv proto_step_grows grows_trans by metis
qed simp

lemma growsD:
  assumes "grows M a a'"
  shows "x \<in> p_acks a \<Longrightarrow> x \<in> p_acks a'" "y \<in> p_dvc a \<Longrightarrow> y \<in> p_dvc a'"
    "p_start a v = Some s \<Longrightarrow> p_start a' v = Some s"
    "p_hist a v = Some h \<Longrightarrow> \<exists>h'. p_hist a' v = Some h' \<and> prefix h h'"
    "j \<in> M \<Longrightarrow> p_view a j \<le> p_view a' j" "j \<in> M \<Longrightarrow> last_view a j \<le> last_view a' j"
  using assms by (auto simp: grows_def map_le_def dom_def)

lemma committed_grows:
  assumes "committed M q a v k" and "grows M a a'"
  shows "committed M q a' v k"
proof -
  obtain Q where "Q \<subseteq> M" "q \<le> card Q" "\<forall>j\<in>Q. (v, k, j) \<in> p_acks a"
    using assms(1) by (auto simp: committed_def)
  moreover from this(3) have "\<forall>j\<in>Q. (v, k, j) \<in> p_acks a'"
    using growsD(1) [OF assms(2)] by blast
  ultimately show ?thesis by (auto simp: committed_def)
qed

end
