(* ===== verification/Cluster_Simulation.thy ===== *)
theory Cluster_Simulation
  imports Cluster Vsr_Protocol
begin

text \<open>
  The handlers of \<open>src/server/replica.cpp\<close> implement the abstract protocol: for every replica,
  message and packet of a cluster there is an abstract state they
  agree with, and every step of the cluster is matched by abstract steps. A recovery that ends in a
  later view is matched by leaving the old view and adopting the start of the new one; one that ends
  in the same view by accepting the operations that were missing.
\<close>

section \<open>Logs as lists\<close>

definition log_rep :: "vsr_log \<Rightarrow> u64 \<Rightarrow> log_entry list \<Rightarrow> bool" where
  "log_rep log op l \<longleftrightarrow> length l = unat op \<and>
     (\<forall>k. map_option strip_acks (om_find log k) =
        (if 0 < unat k \<and> unat k \<le> length l then Some (l ! (unat k - 1)) else None))"

lemma log_rep_Nil [simp]: "log_rep [] 0 []"
  by (auto simp: log_rep_def)

lemma log_rep_length: "log_rep log op l \<Longrightarrow> length l = unat op"
  by (simp add: log_rep_def)

lemma log_rep_find:
  assumes "log_rep log op l" and "om_find log k = Some e"
  shows "0 < unat k" "unat k \<le> length l" "strip_acks e = l ! (unat k - 1)"
proof -
  have "map_option strip_acks (om_find log k) =
      (if 0 < unat k \<and> unat k \<le> length l then Some (l ! (unat k - 1)) else None)"
    using assms(1) by (simp add: log_rep_def)
  then show "0 < unat k" "unat k \<le> length l" "strip_acks e = l ! (unat k - 1)"
    using assms(2) by (auto split: if_splits)
qed

lemma log_rep_Some:
  assumes "log_rep log op l" and "0 < unat k" and "unat k \<le> length l"
  obtains e where "om_find log k = Some e" "strip_acks e = l ! (unat k - 1)"
proof -
  have "map_option strip_acks (om_find log k) = Some (l ! (unat k - 1))"
    using assms by (simp add: log_rep_def)
  then show ?thesis
    using that by auto
qed

lemma log_rep_snoc:
  assumes "log_rep log op l" and "op \<noteq> - 1"
  shows "log_rep (om_assign (op + 1) e log) (op + 1) (l @ [strip_acks e])"
proof -
  have "map_option strip_acks (om_find (om_assign (op + 1) e log) k) =
      (if 0 < unat k \<and> unat k \<le> length (l @ [strip_acks e]) then Some ((l @ [strip_acks e]) ! (unat k - 1)) else None)" for k
  proof (cases "k = op + 1")
    case True
    then show ?thesis
      using log_rep_length [OF assms(1)] unat_plus_one [OF assms(2)] by (simp add: nth_append)
  next
    case False
    then have "unat k \<noteq> Suc (length l)"
      using assms unat_plus_one [OF assms(2)] by (metis log_rep_length word_unat_eq_iff)
    with False assms(1) show ?thesis
      by (auto simp: log_rep_def nth_append)
  qed
  then show ?thesis
    using assms by (simp add: log_rep_def unat_plus_one)
qed

lemma log_rep_same:
  assumes "log_rep log op l" and "om_find log k = Some e" and "strip_acks e' = strip_acks e"
  shows "log_rep (om_assign k e' log) op l"
proof -
  have "map_option strip_acks (om_find (om_assign k e' log) i) = map_option strip_acks (om_find log i)" for i
    using assms(2,3) by simp
  then show ?thesis
    using assms(1) by (simp add: log_rep_def)
qed

lemma log_rep_strip [simp]: "log_rep (strip_log log) op l = log_rep log op l"
proof -
  have "map_option strip_acks (map_option strip_acks x) = map_option strip_acks x" for x
    by (cases x) (simp_all add: strip_acks_def)
  then show ?thesis
    by (simp add: log_rep_def)
qed

lemma wf_log_rep:
  assumes "log_ok log" and "log_rep log op l"
  shows "wf_log log"
proof -
  have "0 \<notin> om_keys log"
    using log_rep_find(1) [OF assms(2)] by (fastforce simp: om_keys_dom)
  then have "om_keys log \<subseteq> UNIV - {0}" by auto
  then have "card (om_keys log) \<le> card (UNIV - {0 :: u64})"
    by (intro card_mono) auto
  then have "length log < 2 ^ 64"
    using assms(1) by (simp add: log_ok_def card_om_keys card_word)
  with assms(1) show ?thesis
    by (auto simp: wf_log_def log_ok_def list_all_iff)
qed

section \<open>What a message says\<close>

abbreviation commits :: "peer_config list \<Rightarrow> (int, log_entry) protocol \<Rightarrow> nat \<Rightarrow> nat \<Rightarrow> bool" where
  "commits config \<equiv> committed (members config) (quorum_of config)"

definition commit_ok :: "peer_config list \<Rightarrow> (int, log_entry) protocol \<Rightarrow> nat \<Rightarrow> u64 \<Rightarrow> bool" where
  "commit_ok config a v k \<longleftrightarrow> k = 0 \<or> (\<exists>u\<le>v. commits config a u (unat k))"

definition entry_of :: "vsr_message \<Rightarrow> log_entry" where
  "entry_of m = (let h = msg_header m in
     \<lparr>le_view = h_view h, le_op_type = h_operation h, le_client_id = h_client h,
      le_request_num = h_request h, le_payload = msg_payload m, le_prepare_ok_acks = {}\<rparr>)"

definition no_acks :: "vsr_log \<Rightarrow> bool" where
  "no_acks log \<longleftrightarrow> (\<forall>k e. om_find log k = Some e \<longrightarrow> le_prepare_ok_acks e = {})"

definition prepare_says :: "peer_config list \<Rightarrow> (int, log_entry) protocol \<Rightarrow> vsr_message \<Rightarrow> bool" where
  "prepare_says config a m \<longleftrightarrow> (\<exists>h. p_hist a (unat (h_view (msg_header m))) = Some h \<and>
     0 < unat (h_op (msg_header m)) \<and> unat (h_op (msg_header m)) \<le> length h \<and>
     h ! (unat (h_op (msg_header m)) - 1) = entry_of m \<and>
     commit_ok config a (unat (h_view (msg_header m))) (h_commit (msg_header m)))"

definition do_view_change_says :: "peer_config list \<Rightarrow> (int, log_entry) protocol \<Rightarrow> vsr_message \<Rightarrow> bool" where
  "do_view_change_says config a m \<longleftrightarrow> (\<exists>w log l.
     (\<forall>junk. do_view_change_deserialize (msg_payload m) \<lparr>dvc_last_normal_view = junk, dvc_log = []\<rparr> =
        (True, \<lparr>dvc_last_normal_view = w, dvc_log = log\<rparr>)) \<and>
     log_rep log (h_op (msg_header m)) l \<and> no_acks log \<and>
     (unat (h_view (msg_header m)), uint (h_replica (msg_header m)), unat w, l) \<in> p_dvc a \<and>
     commit_ok config a (unat w) (h_commit (msg_header m)))"

definition start_view_says :: "peer_config list \<Rightarrow> (int, log_entry) protocol \<Rightarrow> vsr_message \<Rightarrow> bool" where
  "start_view_says config a m \<longleftrightarrow> (\<exists>log l.
     start_view_deserialize (msg_payload m) \<lparr>sv_log = []\<rparr> = (True, \<lparr>sv_log = log\<rparr>) \<and>
     log_rep log (h_op (msg_header m)) l \<and> no_acks log \<and>
     p_start a (unat (h_view (msg_header m))) = Some l \<and>
     commit_ok config a (unat (h_view (msg_header m))) (h_commit (msg_header m)))"

definition recovery_response_says :: "peer_config list \<Rightarrow> (int, log_entry) protocol \<Rightarrow> vsr_message \<Rightarrow> bool" where
  "recovery_response_says config a m \<longleftrightarrow> (\<exists>nonce log l.
     recovery_response_deserialize (msg_payload m) \<lparr>rs_nonce = uint128_zero, rs_log = []\<rparr> =
       (True, \<lparr>rs_nonce = nonce, rs_log = log\<rparr>) \<and>
     log_rep log (h_op (msg_header m)) l \<and> no_acks log \<and> log_between a (unat (h_view (msg_header m))) l \<and>
     commit_ok config a (unat (h_view (msg_header m))) (h_commit (msg_header m)))"

definition says :: "peer_config list \<Rightarrow> (int, log_entry) protocol \<Rightarrow> vsr_message \<Rightarrow> bool" where
  "says config a m \<longleftrightarrow>
     (h_command (msg_header m) = command_prepare \<longrightarrow> prepare_says config a m) \<and>
     (h_command (msg_header m) = command_prepare_ok \<longrightarrow>
        (unat (h_view (msg_header m)), unat (h_op (msg_header m)), uint (h_replica (msg_header m))) \<in> p_acks a) \<and>
     (h_command (msg_header m) = command_commit \<longrightarrow>
        commit_ok config a (unat (h_view (msg_header m))) (h_commit (msg_header m))) \<and>
     (h_command (msg_header m) = command_do_view_change \<longrightarrow> do_view_change_says config a m) \<and>
     (h_command (msg_header m) = command_start_view \<longrightarrow> start_view_says config a m) \<and>
     (h_command (msg_header m) = command_recovery_response \<longrightarrow> recovery_response_says config a m)"

text \<open>What a message says does not depend on sealing and stays true.\<close>

lemma says_prepared [simp]: "says config a (prepared_message blake3 m) = says config a m"
  by (simp add: says_def prepare_says_def do_view_change_says_def start_view_says_def recovery_response_says_def
      entry_of_def Let_def)

lemma commit_ok_mono:
  assumes "commit_ok config a v k" and "v \<le> v'" and "grows (members config) a a'"
  shows "commit_ok config a' v' k"
  using assms(1,2) committed_grows [OF _ assms(3)] by (auto simp: commit_ok_def dest: order_trans)

lemma commit_ok_max: "commit_ok config a v k \<Longrightarrow> commit_ok config a v k' \<Longrightarrow> commit_ok config a v (max k k')"
  by (simp add: max_def)

lemma log_between_grows:
  assumes "log_between a v l" and grows: "grows M a a'"
  shows "log_between a' v l"
proof -
  obtain s h where sh: "p_start a v = Some s" "p_hist a v = Some h" "prefix s l" "prefix l h"
    using assms(1) by (auto simp: log_between_def)
  obtain h' where "p_hist a' v = Some h'" "prefix h h'"
    using growsD(4) [OF grows sh(2)] by blast
  with sh growsD(3) [OF grows sh(1)] show ?thesis
    by (auto simp: log_between_def intro: prefix_order.order_trans)
qed

lemma says_grows:
  assumes "says config a m" and grows: "grows (members config) a a'"
  shows "says config a' m"
proof -
  have prepare: "prepare_says config a' m" if "prepare_says config a m"
  proof -
    obtain h where h: "p_hist a (unat (h_view (msg_header m))) = Some h"
      "0 < unat (h_op (msg_header m))" "unat (h_op (msg_header m)) \<le> length h"
      "h ! (unat (h_op (msg_header m)) - 1) = entry_of m"
      "commit_ok config a (unat (h_view (msg_header m))) (h_commit (msg_header m))"
      using \<open>prepare_says config a m\<close> by (auto simp: prepare_says_def)
    obtain h' where h': "p_hist a' (unat (h_view (msg_header m))) = Some h'" "prefix h h'"
      using growsD(4) [OF grows h(1)] by blast
    have "h' ! (unat (h_op (msg_header m)) - 1) = entry_of m" "unat (h_op (msg_header m)) \<le> length h'"
      using h(2-4) h'(2) by (auto simp: prefix_def nth_append)
    with h h' show ?thesis
      using commit_ok_mono [OF h(5) order_refl grows] by (auto simp: prepare_says_def)
  qed
  moreover have "do_view_change_says config a' m" if "do_view_change_says config a m"
    using that growsD(2) [OF grows] commit_ok_mono [OF _ order_refl grows]
    unfolding do_view_change_says_def by blast
  moreover have "start_view_says config a' m" if "start_view_says config a m"
    using that growsD(3) [OF grows] commit_ok_mono [OF _ order_refl grows]
    unfolding start_view_says_def by blast
  moreover have "recovery_response_says config a' m" if "recovery_response_says config a m"
    using that log_between_grows [OF _ grows] commit_ok_mono [OF _ order_refl grows]
    unfolding recovery_response_says_def by blast
  ultimately show ?thesis
    using assms(1) growsD(1) [OF grows] commit_ok_mono [OF _ order_refl grows] by (simp add: says_def)
qed

section \<open>What a replica stands for\<close>

definition acked :: "(int, log_entry) protocol \<Rightarrow> ReplicaState \<Rightarrow> bool" where
  "acked a s \<longleftrightarrow> (\<forall>k e i. om_find (st_log s) k = Some e \<longrightarrow> i \<in> le_prepare_ok_acks e \<longrightarrow>
     (unat (st_view s), unat k, i) \<in> p_acks a)"

text \<open>A recovering replica still stands for its last state: it neither acts on it nor has it given up.\<close>

definition stands :: "peer_config list \<Rightarrow> (int, log_entry) protocol \<Rightarrow> int \<Rightarrow> ReplicaState \<Rightarrow> bool" where
  "stands config a j s \<longleftrightarrow> belongs config j s \<and>
     p_view a j = unat (st_view s) \<and> p_normal a j = (st_status s \<noteq> VIEW_CHANGE) \<and>
     (st_status s = VIEW_CHANGE \<longrightarrow> p_last_normal a j = unat (st_last_normal_view s)) \<and>
     log_rep (st_log s) (st_op s) (p_log a j) \<and> (st_status s \<noteq> VIEW_CHANGE \<longrightarrow> acked a s) \<and>
     commit_ok config a (last_view a j) (st_commit s) \<and>
     (\<forall>m\<in>set (st_do_view_change_received s). h_command (msg_header m) = command_do_view_change \<and>
        h_view (msg_header m) = st_view s \<and> says config a m) \<and>
     (st_do_view_change_received s \<noteq> [] \<longrightarrow> st_status s = VIEW_CHANGE \<and> primary_of config (unat (st_view s)) = j) \<and>
     (st_status s = RECOVERY \<longrightarrow> (\<forall>m\<in>set (st_recovery_responses s).
        h_command (msg_header m) = command_recovery_response \<and> says config a m))"

text \<open>Abstract steps of one replica, and the move of a replica that they match.\<close>

definition moves :: "peer_config list \<Rightarrow> int \<Rightarrow> (int, log_entry) protocol \<Rightarrow> (int, log_entry) protocol \<Rightarrow> bool" where
  "moves config j a a' \<longleftrightarrow>
     (proto_step (members config) (quorum_of config) (primary_of config))\<^sup>*\<^sup>* a a' \<and>
     (\<forall>i. i \<noteq> j \<longrightarrow> p_view a' i = p_view a i \<and> p_normal a' i = p_normal a i \<and>
        p_last_normal a' i = p_last_normal a i \<and> p_log a' i = p_log a i)"

definition implements :: "peer_config list \<Rightarrow> (int, log_entry) protocol \<Rightarrow> int \<Rightarrow> replica \<Rightarrow> replica \<Rightarrow> bool" where
  "implements config a j r r' \<longleftrightarrow> (\<exists>a' acts. moves config j a a' \<and> stands config a' j (r_state r') \<and>
     r_outbox r' = r_outbox r @ acts \<and> (\<forall>x\<in>set acts. \<forall>m. message_of x = Some m \<longrightarrow> says config a' m))"

abbreviation cluster_inv :: "peer_config list \<Rightarrow> (int, log_entry) protocol \<Rightarrow> bool" where
  "cluster_inv config \<equiv> proto_inv (members config) (quorum_of config) (primary_of config)"

lemma moves_refl [simp]: "moves config j a a"
  by (simp add: moves_def)

lemma moves_trans: "moves config j a a' \<Longrightarrow> moves config j a' a'' \<Longrightarrow> moves config j a a''"
  unfolding moves_def by (auto dest: rtranclp_trans)

lemma moves_step:
  assumes "proto_step (members config) (quorum_of config) (primary_of config) a a'"
    and "\<And>i. i \<noteq> j \<Longrightarrow> p_view a' i = p_view a i \<and> p_normal a' i = p_normal a i \<and>
        p_last_normal a' i = p_last_normal a i \<and> p_log a' i = p_log a i"
  shows "moves config j a a'"
  using assms by (auto simp: moves_def)

lemma moves_inv: "moves config j a a' \<Longrightarrow> cluster_inv config a \<Longrightarrow> cluster_inv config a' \<and> grows (members config) a a'"
  unfolding moves_def using proto_steps by blast

lemma implements_same:
  assumes "stands config a j (r_state r')" and "r_outbox r' = r_outbox r @ acts"
    and "\<And>x m. x \<in> set acts \<Longrightarrow> message_of x = Some m \<Longrightarrow> says config a m"
  shows "implements config a j r r'"
  using assms moves_refl unfolding implements_def by blast

lemma implements_step:
  assumes "moves config j a a'" and "stands config a' j (r_state r')" and "r_outbox r' = r_outbox r @ acts"
    and "\<And>x m. x \<in> set acts \<Longrightarrow> message_of x = Some m \<Longrightarrow> says config a' m"
  shows "implements config a j r r'"
  using assms unfolding implements_def by blast

text \<open>Execution changes nothing that matters here and sends only replies.\<close>

lemma stands_execute [simp]:
  "stands config a j (r_state (execute_commited_ops r)) = stands config a j (r_state r)"
  by (simp add: stands_def belongs_def acked_def)

lemma stands_frame [simp]:
  "stands config a j (s\<lparr>st_client_table := t\<rparr>) = stands config a j s"
  by (simp add: stands_def belongs_def acked_def)

definition quiet :: "vsr_message \<Rightarrow> bool" where
  "quiet m \<longleftrightarrow> h_command (msg_header m) \<in> {command_reply, command_pong}"

lemma quiet_says: "quiet m \<Longrightarrow> says config a m"
  by (auto simp: quiet_def says_def)

lemma execute_entry_replies:
  "\<exists>acts. r_outbox (execute_entry e r) = r_outbox r @ acts \<and>
     (\<forall>x\<in>set acts. \<exists>c m. x = Send_message c m \<and> quiet m)"
  by (auto simp: execute_entry_def send_reply_def reply_message_def quiet_def Let_def split: option.splits prod.splits)

lemma execute_replies:
  "\<exists>acts. r_outbox (execute_commited_ops r) = r_outbox r @ acts \<and>
     (\<forall>x\<in>set acts. \<exists>c m. x = Send_message c m \<and> quiet m)"
proof (induction r rule: execute_commited_ops_induct)
  case (stop r)
  then show ?case by simp
next
  case (advance r e)
  obtain acts where acts: "r_outbox (execute_next e r) = r_outbox r @ acts"
    "\<forall>x\<in>set acts. \<exists>c m. x = Send_message c m \<and> quiet m"
    using execute_entry_replies [of e r] by (auto simp: execute_next_def)
  obtain acts' where "r_outbox (execute_commited_ops (execute_next e r)) = r_outbox (execute_next e r) @ acts'"
    "\<forall>x\<in>set acts'. \<exists>c m. x = Send_message c m \<and> quiet m"
    using advance.IH by blast
  with acts advance(3) show ?case
    by (intro exI [of _ "acts @ acts'"]) auto
qed

lemma implements_execute:
  assumes "implements config a j r0 r"
  shows "implements config a j r0 (execute_commited_ops r)"
proof -
  obtain a' acts where a': "moves config j a a'" "stands config a' j (r_state r)" "r_outbox r = r_outbox r0 @ acts"
    "\<forall>x\<in>set acts. \<forall>m. message_of x = Some m \<longrightarrow> says config a' m"
    using assms by (auto simp: implements_def)
  obtain acts' where acts': "r_outbox (execute_commited_ops r) = r_outbox r @ acts'"
    "\<forall>x\<in>set acts'. \<exists>c m. x = Send_message c m \<and> quiet m"
    using execute_replies by blast
  show ?thesis
  proof (rule implements_step [OF a'(1)])
    show "r_outbox (execute_commited_ops r) = r_outbox r0 @ (acts @ acts')"
      using a'(3) acts'(1) by simp
    show "says config a' m" if "x \<in> set (acts @ acts')" "message_of x = Some m" for x m
      using that a'(4) acts'(2) quiet_says by fastforce
  qed (use a'(2) in simp)
qed

lemma implements_learn_commit:
  assumes "implements config a j r0 r" and "\<And>a'. moves config j a a' \<Longrightarrow> stands config a' j (r_state r) \<Longrightarrow>
      commit_ok config a' (last_view a' j) k"
  shows "implements config a j r0 (learn_commit k r)"
proof (cases "k > st_commit (r_state r)")
  case True
  obtain a' acts where a': "moves config j a a'" "stands config a' j (r_state r)" "r_outbox r = r_outbox r0 @ acts"
    "\<forall>x\<in>set acts. \<forall>m. message_of x = Some m \<longrightarrow> says config a' m"
    using assms(1) by (auto simp: implements_def)
  have "stands config a' j ((r_state r)\<lparr>st_commit := k\<rparr>)"
    using a'(2) assms(2) [OF a'(1,2)] by (simp add: stands_def belongs_def acked_def)
  then have "implements config a j r0 (set_state (\<lambda>s. s\<lparr>st_commit := k\<rparr>) r)"
    using a' by (intro implements_step [OF a'(1)]) auto
  with True show ?thesis
    by (simp add: learn_commit_def implements_execute)
qed (use assms(1) in \<open>simp add: learn_commit_def\<close>)

lemma stands_learn: "stands config a j (r_state r) \<Longrightarrow> p_normal a j \<Longrightarrow> last_view a j = unat (st_view (r_state r))"
  by (simp add: stands_def last_view_def)

section \<open>Normal operation\<close>

lemma implements_ping:
  assumes "stands config a j (r_state r)"
  shows "implements config a j r (handle_ping inbound r)"
  using assms
  by (intro implements_same [where acts = "[Send_message (in_connection inbound) (message_with (zero_header\<lparr>
        h_command := command_pong, h_view := st_view (r_state r), h_replica := word_of_int (st_id (r_state r)),
        h_client := h_client (in_header inbound), h_request := h_request (in_header inbound)\<rparr>) [])]"])
    (auto simp: handle_ping_def Let_def says_def)

text \<open>Appending an entry to the log, as a primary does for a request and a backup for a Prepare.\<close>

lemma stands_extend:
  assumes sim: "stands config a j s" and normal: "st_status s = NORMAL" and op: "st_op s \<noteq> - 1"
    and grows: "grows (members config) a a'"
    and a': "p_view a' j = p_view a j" "p_normal a' j" "p_log a' j = p_log a j @ [strip_acks e]"
      "\<And>i. i \<in> le_prepare_ok_acks e \<Longrightarrow> (p_view a j, Suc (length (p_log a j)), i) \<in> p_acks a'"
  shows "stands config a' j (s\<lparr>st_op := st_op s + 1, st_log := om_assign (st_op s + 1) e (st_log s),
    st_client_table := t\<rparr>)"
proof -
  have log: "log_rep (st_log s) (st_op s) (p_log a j)" and view: "p_view a j = unat (st_view s)"
    and acked: "acked a s" and commit: "commit_ok config a (last_view a j) (st_commit s)"
    using sim normal by (simp_all add: stands_def)
  have "(unat (st_view s), unat k, i) \<in> p_acks a'"
    if k: "om_find (om_assign (st_op s + 1) e (st_log s)) k = Some e'" "i \<in> le_prepare_ok_acks e'" for k e' i
  proof (cases "k = st_op s + 1")
    case True
    then have "e' = e" using k(1) by simp
    with True k(2) a'(4) [of i] view show ?thesis
      using log_rep_length [OF log] unat_plus_one [OF op] by simp
  next
    case False
    with k acked growsD(1) [OF grows] show ?thesis by (simp add: acked_def)
  qed
  moreover have "last_view a' j = last_view a j"
    using a' sim normal by (simp add: last_view_def stands_def)
  moreover have "\<forall>m\<in>set (st_do_view_change_received s). h_command (msg_header m) = command_do_view_change \<and>
      h_view (msg_header m) = st_view s \<and> says config a' m"
    using sim says_grows [OF _ grows] by (auto simp: stands_def)
  ultimately show ?thesis
    using sim normal a' log_rep_snoc [OF log op, of e] commit_ok_mono [OF commit order_refl grows]
    by (simp add: stands_def belongs_def acked_def)
qed

lemma implements_request_new:
  fixes inbound :: inbound_message and r :: replica
  defines "h \<equiv> in_header inbound" and "s \<equiv> r_state r"
  assumes inv: "cluster_inv config a" and "numbered config" and "j \<in> members config"
    and sim: "stands config a j s" and guard: "check_can_process_request s (in_message inbound)"
    and op: "st_op s \<noteq> - 1"
    and new: "ct_request_number (om_index new_client_table_entry (st_client_table s) (h_client h)) < h_request h"
  shows "implements config a j r (handle_request inbound r)"
proof -
  define e where "e = \<lparr>le_view = st_view s, le_op_type = h_operation h, le_client_id = h_client h,
    le_request_num = h_request h, le_payload = in_payload inbound, le_prepare_ok_acks = {j}\<rparr>"
  define l where "l = p_log a j @ [strip_acks e]"
  define a' where "a' = a\<lparr>p_log := (p_log a)(j := l), p_hist := (p_hist a)(p_view a j \<mapsto> l),
     p_acks := insert (p_view a j, length l, j) (p_acks a)\<rparr>"
  have id: "st_id s = j" and normal: "p_normal a j" "st_status s = NORMAL" and view: "p_view a j = unat (st_view s)"
    and prim: "primary_of config (p_view a j) = j"
    and log: "log_rep (st_log s) (st_op s) (p_log a j)" and commit: "commit_ok config a (last_view a j) (st_commit s)"
    using sim guard belongs_arith(4) [OF assms(4), of j s]
    by (auto simp: stands_def check_can_process_request_def belongs_def)
  obtain t where s': "r_state (handle_request inbound r) = s\<lparr>st_op := st_op s + 1,
      st_log := om_assign (st_op s + 1) e (st_log s), st_client_table := t\<rparr>"
    and out: "r_outbox (handle_request inbound r) = r_outbox r @
      [Broadcast_to_peers (prepare_message inbound (r_state (handle_request inbound r)))]"
    using id less_imp_neq [OF new] less_imp_not_less [OF new]
    by (simp add: s_def h_def e_def handle_request_def Let_def)
  have move: "moves config j a a'"
    unfolding a'_def
    by (rule moves_step [OF proto_step.append]) (use assms(5) normal(1) prim in \<open>auto simp: l_def\<close>)
  have grows: "grows (members config) a a'"
    using moves_inv [OF move inv] by simp
  have "stands config a' j (r_state (handle_request inbound r))"
    unfolding s' by (rule stands_extend [OF sim normal(2) op grows])
      (use normal in \<open>auto simp: a'_def l_def e_def\<close>)
  moreover have "commit_ok config a' (unat (st_view s)) (st_commit s)"
    using commit_ok_mono [OF commit _ grows] normal view by (simp add: last_view_def)
  then have "prepare_says config a' (prepare_message inbound (r_state (handle_request inbound r)))"
    using view log_rep_length [OF log] unat_plus_one [OF op]
    by (auto simp: prepare_says_def prepare_message_def s' a'_def e_def h_def entry_of_def Let_def l_def strip_acks_def
        nth_append)
  then have "says config a' (prepare_message inbound (r_state (handle_request inbound r)))"
    by (simp add: says_def) (simp add: prepare_message_def)
  ultimately show ?thesis
    using out by (intro implements_step [OF move]) auto
qed

lemma implements_request:
  assumes "cluster_inv config a" and "numbered config" and "j \<in> members config"
    and sim: "stands config a j (r_state r)"
    and "check_can_process_request (r_state r) (in_message inbound)" and "st_op (r_state r) \<noteq> - 1"
  shows "implements config a j r (handle_request inbound r)"
proof -
  let ?ce = "om_index new_client_table_entry (st_client_table (r_state r)) (h_client (in_header inbound))"
  consider (old) "h_request (in_header inbound) < ct_request_number ?ce"
    | (repeated) "h_request (in_header inbound) = ct_request_number ?ce"
    | (new) "ct_request_number ?ce < h_request (in_header inbound)"
    by (metis linorder_neqE)
  then show ?thesis
  proof cases
    case old
    then show ?thesis
      using sim by (intro implements_same [where acts = "[]"]) (simp_all add: handle_request_def Let_def)
  next
    case repeated
    then show ?thesis
      using sim
      by (intro implements_same [where acts = "[Send_message (in_connection inbound) (cached_reply inbound (ct_result ?ce))]"])
        (auto simp: handle_request_def Let_def says_def cached_reply_def)
  next
    case new
    with assms show ?thesis by (intro implements_request_new)
  qed
qed

lemma implements_prepare:
  fixes inbound :: inbound_message and r :: replica
  defines "m \<equiv> in_message inbound" and "s \<equiv> r_state r"
  assumes inv: "cluster_inv config a" and num: "numbered config" and member: "j \<in> members config"
    and sim: "stands config a j s" and guard: "check_can_process_prepare s m" and op: "st_op s \<noteq> - 1"
    and said: "prepare_says config a m"
  shows "implements config a j r (handle_prepare env inbound r)"
proof -
  obtain h where h: "p_hist a (p_view a j) = Some h" "unat (st_op s) < length h" "h ! unat (st_op s) = entry_of m"
    and commit: "commit_ok config a (p_view a j) (h_commit (msg_header m))"
    using said guard sim unat_plus_one [OF op]
    by (auto simp: prepare_says_def check_can_process_prepare_def stands_def)
  have normal: "p_normal a j" "st_status s = NORMAL" and view: "p_view a j = unat (st_view s)" and id: "st_id s = j"
    and log: "log_rep (st_log s) (st_op s) (p_log a j)" and hv: "h_view (msg_header m) = st_view s"
    using sim guard by (auto simp: stands_def check_can_process_prepare_def belongs_def)
  have len: "length (p_log a j) = unat (st_op s)"
    using log by (rule log_rep_length)
  define l where "l = take (Suc (length (p_log a j))) h"
  define a' where "a' = a\<lparr>p_log := (p_log a)(j := l), p_acks := insert (p_view a j, length l, j) (p_acks a)\<rparr>"
  have "prefix (p_log a j) h"
    using inv member h(1) normal by (fastforce simp: proto_inv_def inv_logs_def log_between_def last_view_def)
  then have l: "l = p_log a j @ [entry_of m]"
    using h(2,3) len by (auto simp: l_def prefix_def take_Suc_conv_app_nth)
  have move: "moves config j a a'"
    unfolding a'_def
    by (rule moves_step [OF proto_step.accept [where h = h]]) (use member normal(1) h len in \<open>auto simp: l_def\<close>)
  have grows: "grows (members config) a a'"
    using moves_inv [OF move inv] by simp
  define t where "t = om_assign (h_client (msg_header m)) \<lparr>ct_request_number = h_request (msg_header m),
    ct_executed = False, ct_result = []\<rparr> (st_client_table s)"
  define s1 where "s1 = s\<lparr>st_op := st_op s + 1, st_log := om_assign (st_op s + 1) (entry_of m) (st_log s),
    st_client_table := t\<rparr>"
  define r1 where "r1 = emit (Send_message (in_connection inbound) (prepare_ok_message s1 (st_op s + 1)))
    (r\<lparr>r_last_primary_contact := env_now env, r_state := s1\<rparr>)"
  have r1: "handle_prepare env inbound r = learn_commit (h_commit (msg_header m)) r1"
    by (simp add: handle_prepare_def Let_def r1_def s1_def t_def s_def m_def entry_of_def hv [unfolded m_def s_def])
  have "stands config a' j s1"
    unfolding s1_def by (rule stands_extend [OF sim normal(2) op grows])
      (use normal l in \<open>auto simp: a'_def entry_of_def strip_acks_def Let_def\<close>)
  moreover have "says config a' (prepare_ok_message s1 (st_op s + 1))"
    using l len view id unat_plus_one [OF op] uint_member [OF num member]
    by (simp add: says_def prepare_ok_message_def s1_def a'_def)
  ultimately have imp: "implements config a j r r1"
    by (intro implements_step [OF move, where acts = "[Send_message (in_connection inbound) (prepare_ok_message s1 (st_op s + 1))]"])
      (auto simp: r1_def)
  have "commit_ok config b (last_view b j) (h_commit (msg_header m))"
    if "moves config j a b" "stands config b j (r_state r1)" for b
    using that view normal commit_ok_mono [OF commit order_refl, of b] moves_inv [OF that(1) inv]
    by (simp add: stands_def last_view_def r1_def s1_def)
  then show ?thesis
    unfolding r1 by (rule implements_learn_commit [OF imp])
qed

lemma standsD:
  assumes "stands config a j s"
  shows "belongs config j s" "p_view a j = unat (st_view s)" "p_normal a j \<longleftrightarrow> st_status s \<noteq> VIEW_CHANGE"
    "log_rep (st_log s) (st_op s) (p_log a j)" "commit_ok config a (last_view a j) (st_commit s)"
    "st_status s \<noteq> VIEW_CHANGE \<Longrightarrow> acked a s" "st_status s \<noteq> VIEW_CHANGE \<Longrightarrow> last_view a j = unat (st_view s)"
    "st_status s = VIEW_CHANGE \<Longrightarrow> last_view a j = unat (st_last_normal_view s)"
  using assms by (cases "st_status s"; simp add: stands_def last_view_def)+

lemma stands_commit:
  assumes "stands config a j s" and "commit_ok config a (last_view a j) k"
  shows "stands config a j (s\<lparr>st_commit := k\<rparr>)"
  using assms by (simp add: stands_def belongs_def acked_def)

lemma advance_loop_commit:
  "st_commit (advance_loop n s) = st_commit s \<or>
     (\<exists>e. om_find (st_log s) (st_commit (advance_loop n s)) = Some e \<and> quorum s \<le> card (le_prepare_ok_acks e))"
proof -
  obtain k where k: "st_commit (advance_loop n s) = st_commit s + of_nat k"
    "\<forall>j<k. can_commit_next (s\<lparr>st_commit := st_commit s + of_nat j\<rparr>)"
    using advance_loop_rounds [of n s] by blast
  show ?thesis
  proof (cases k)
    case (Suc i)
    with k(2) have "can_commit_next (s\<lparr>st_commit := st_commit s + of_nat i\<rparr>)" by simp
    then show ?thesis
      unfolding can_commit_next_iff k(1) Suc by (simp add: ac_simps)
  qed (use k(1) in simp)
qed

text \<open>The acknowledgements a primary has recorded for an entry are a quorum of the abstract protocol.\<close>

lemma recorded_quorum_commits:
  assumes inv: "cluster_inv config a" and num: "numbered config" and sim: "stands config a j s"
    and normal: "st_status s = NORMAL"
    and e: "om_find (st_log s) k = Some e" "quorum s \<le> card (le_prepare_ok_acks e)"
  shows "commit_ok config a (last_view a j) k"
proof -
  have acked: "acked a s" and view: "last_view a j = unat (st_view s)" and q: "quorum s = quorum_of config"
    using standsD [OF sim] normal belongs_arith(1) [OF num] by simp_all
  have "inv_acks (members config) a"
    using inv by (simp add: proto_inv_def)
  note ack = inv_acksD(1) [OF this]
  have in_acks: "(unat (st_view s), unat k, i) \<in> p_acks a" if "i \<in> le_prepare_ok_acks e" for i
    using acked e(1) that by (simp add: acked_def)
  have "le_prepare_ok_acks e \<subseteq> members config"
    using ack [OF in_acks] by blast
  with in_acks e(2) q have "commits config a (unat (st_view s)) (unat k)"
    unfolding committed_def by (intro exI [of _ "le_prepare_ok_acks e"]) simp
  then show ?thesis
    by (auto simp: commit_ok_def view)
qed

lemma implements_advance:
  assumes inv: "cluster_inv config a" and num: "numbered config" and imp: "stands config a j (r_state r)"
    and normal: "st_status (r_state r) = NORMAL"
  shows "implements config a j r (advance_primary_commit_number r)"
proof (cases "is_primary (r_state r)")
  case True
  define s where "s = advance_loop (Suc (length (st_log (r_state r)))) (r_state r)"
  have s: "s = (r_state r)\<lparr>st_commit := st_commit s\<rparr>"
    unfolding s_def by (rule advance_loop_frame)
  have "commit_ok config a (last_view a j) (st_commit s)"
    using advance_loop_commit [of "Suc (length (st_log (r_state r)))" "r_state r", folded s_def]
  proof
    assume "st_commit s = st_commit (r_state r)"
    with imp show ?thesis by (simp add: stands_def)
  qed (use recorded_quorum_commits [OF inv num imp normal] in blast)
  then have "stands config a j s"
    by (subst s) (rule stands_commit [OF imp])
  then have "implements config a j r (r\<lparr>r_state := s\<rparr>)"
    by (intro implements_same [where acts = "[]"]) simp_all
  with True show ?thesis
    by (simp add: advance_primary_commit_number_def s_def implements_execute del: advance_loop.simps)
qed (use imp in \<open>auto simp: advance_primary_commit_number_def intro: implements_same [where acts = "[]"]\<close>)

lemma implements_prepare_ok:
  fixes inbound :: inbound_message and r :: replica
  defines "m \<equiv> in_message inbound" and "s \<equiv> r_state r"
  assumes inv: "cluster_inv config a" and num: "numbered config"
    and sim: "stands config a j s" and guard: "check_can_process_prepare_ok s m"
    and said: "(unat (h_view (msg_header m)), unat (h_op (msg_header m)), uint (h_replica (msg_header m))) \<in> p_acks a"
  shows "implements config a j r (handle_prepare_ok inbound r)"
proof (cases "om_find (st_log s) (h_op (msg_header m))")
  case None
  then show ?thesis
    using sim by (intro implements_same [where acts = "[]"]) (simp_all add: handle_prepare_ok_def s_def m_def)
next
  case (Some e)
  define e' where "e' = e\<lparr>le_prepare_ok_acks := insert (uint (h_replica (msg_header m))) (le_prepare_ok_acks e)\<rparr>"
  define s1 where "s1 = s\<lparr>st_log := om_assign (h_op (msg_header m)) e' (st_log s)\<rparr>"
  have normal: "st_status s = NORMAL" and view: "h_view (msg_header m) = st_view s"
    and log: "log_rep (st_log s) (st_op s) (p_log a j)" and acked: "acked a s"
    using guard sim by (auto simp: check_can_process_prepare_ok_def stands_def)
  have "log_rep (st_log s1) (st_op s1) (p_log a j)"
    using log_rep_same [OF log Some, of e'] by (simp add: s1_def e'_def strip_acks_def)
  moreover have "acked a s1"
    using acked Some said view by (auto simp: acked_def s1_def e'_def)
  ultimately have "stands config a j s1"
    using sim by (simp add: stands_def s1_def belongs_def)
  then have "implements config a j (r\<lparr>r_state := s1\<rparr>) (advance_primary_commit_number (r\<lparr>r_state := s1\<rparr>))"
    using normal by (intro implements_advance [OF inv num]) (simp_all add: s1_def)
  moreover have "handle_prepare_ok inbound r = advance_primary_commit_number (r\<lparr>r_state := s1\<rparr>)"
    using Some by (simp add: handle_prepare_ok_def Let_def s1_def e'_def s_def m_def)
  ultimately show ?thesis
    by (simp add: implements_def)
qed

lemma implements_commit:
  fixes inbound :: inbound_message and r :: replica
  defines "m \<equiv> in_message inbound" and "s \<equiv> r_state r"
  assumes inv: "cluster_inv config a"
    and sim: "stands config a j s" and guard: "check_can_process_commit s m"
    and said: "commit_ok config a (unat (h_view (msg_header m))) (h_commit (msg_header m))"
  shows "implements config a j r (handle_commit env inbound r)"
proof -
  define r1 where "r1 = r\<lparr>r_last_primary_contact := env_now env\<rparr>"
  have imp: "implements config a j r r1"
    using sim by (intro implements_same [where acts = "[]"]) (simp_all add: r1_def s_def)
  have normal: "st_status s = NORMAL" and view: "h_view (msg_header m) = st_view s"
    using guard by (auto simp: check_can_process_commit_def)
  have "commit_ok config b (last_view b j) (h_commit (msg_header m))"
    if "moves config j a b" "stands config b j (r_state r1)" for b
    using that normal view commit_ok_mono [OF said order_refl, of b] moves_inv [OF that(1) inv]
    by (simp add: stands_def last_view_def r1_def s_def)
  then show ?thesis
    unfolding handle_commit_def r1_def [symmetric] m_def [symmetric] by (rule implements_learn_commit [OF imp])
qed

lemma implements_heartbeat:
  assumes "stands config a j (r_state r)"
  shows "implements config a j r (heartbeat r)"
proof (cases "\<not> is_primary (r_state r) \<or> st_status (r_state r) \<noteq> NORMAL")
  case True
  then show ?thesis
    using assms by (intro implements_same [where acts = "[Submit_timeout heartbeat_interval Heartbeat]"])
      (auto simp: heartbeat_def schedule_heartbeat_def send_commit_message_if_needed_def Let_def)
next
  case False
  let ?m = "message_with (zero_header\<lparr>h_command := command_commit, h_view := st_view (r_state r),
      h_commit := st_commit (r_state r)\<rparr>) []"
  have "says config a ?m"
    using standsD(5,7) [OF assms] False by (simp add: says_def)
  with False assms show ?thesis
    by (intro implements_same [where acts = "[Broadcast_to_peers ?m, Submit_timeout heartbeat_interval Heartbeat]"])
      (auto simp: heartbeat_def schedule_heartbeat_def send_commit_message_if_needed_def Let_def)
qed

section \<open>The view change\<close>

lemma implements_initiate_view_change:
  assumes inv: "cluster_inv config a" and member: "j \<in> members config"
    and sim: "stands config a j (r_state r)" and view: "st_view (r_state r) \<noteq> - 1"
    and normal: "st_status (r_state r) = NORMAL"
  shows "implements config a j r (initiate_view_change r)"
proof -
  define s where "s = r_state r"
  define a' where "a' = a\<lparr>p_view := (p_view a)(j := Suc (unat (st_view s))), p_normal := (p_normal a)(j := False),
       p_last_normal := (p_last_normal a)(j := last_view a j)\<rparr>"
  have move: "moves config j a a'"
    unfolding a'_def by (rule moves_step [OF proto_step.leave]) (use member standsD(2) [OF sim] in \<open>auto simp: s_def\<close>)
  have grows: "grows (members config) a a'"
    using moves_inv [OF move inv] by simp
  define s' where "s' = enter_new_view (st_view s + 1) s"
  have "last_view a j = unat (st_last_normal_view s')"
    using standsD(7) [OF sim] normal by (simp add: s'_def s_def enter_new_view_def Let_def)
  moreover have "st_status s' = VIEW_CHANGE" "st_view s' = st_view s + 1" "st_log s' = st_log s" "st_op s' = st_op s"
    "st_commit s' = st_commit s" "st_do_view_change_received s' = []" "belongs config j s'"
    using standsD(1) [OF sim] by (simp_all add: s'_def s_def enter_new_view_def Let_def belongs_def)
  moreover have "last_view a' j = last_view a j" "p_log a' = p_log a"
    by (simp_all add: a'_def last_view_def)
  ultimately have "stands config a' j s'"
    using unat_plus_one [OF view] standsD(4) [OF sim] commit_ok_mono [OF standsD(5) [OF sim] order_refl grows]
    by (simp add: stands_def s_def) (simp add: a'_def s_def)
  then show ?thesis
    by (intro implements_step [OF move, where acts = "[Broadcast_to_peers (message_with (zero_header\<lparr>h_command :=
        command_start_view_change, h_view := st_view s', h_replica := word_of_int (st_id s')\<rparr>) [])]"])
      (auto simp: initiate_view_change_def Let_def s'_def s_def says_def)
qed

lemma lex_le_unat:
  "lex_le (a, b) (c, d) \<Longrightarrow> lex_le (unat (a :: 'a::len word), unat (b :: 'b::len word)) (unat c, unat d)"
  by (auto simp: lex_le_def word_less_nat_alt word_le_nat_alt)

lemma says_payload:
  assumes "do_view_change_says config a m"
  obtains l where "payload_ok junk m" "log_rep (dvc_log (payload_of junk m)) (h_op (msg_header m)) l"
    "no_acks (dvc_log (payload_of junk m))" "log_ok (dvc_log (payload_of junk m))"
    "(unat (h_view (msg_header m)), uint (h_replica (msg_header m)),
      unat (dvc_last_normal_view (payload_of junk m)), l) \<in> p_dvc a"
    "commit_ok config a (unat (dvc_last_normal_view (payload_of junk m))) (h_commit (msg_header m))"
proof -
  obtain w log l where d: "\<And>junk. do_view_change_deserialize (msg_payload m)
      \<lparr>dvc_last_normal_view = junk, dvc_log = []\<rparr> = (True, \<lparr>dvc_last_normal_view = w, dvc_log = log\<rparr>)"
    and m: "log_rep log (h_op (msg_header m)) l" "no_acks log"
      "(unat (h_view (msg_header m)), uint (h_replica (msg_header m)), unat w, l) \<in> p_dvc a"
      "commit_ok config a (unat w) (h_commit (msg_header m))"
    using assms unfolding do_view_change_says_def by blast
  have "log_ok log"
    using log_ok_do_view_change [OF d] by simp
  with d m show ?thesis
    by (intro that [of l]) (simp_all add: payload_ok_def payload_of_def)
qed

lemma no_acks_strip [simp]: "no_acks (strip_log log)"
  by (auto simp: no_acks_def strip_acks_def)

lemma start_view_message_says:
  assumes "log_ok (st_log s)" and "log_rep (st_log s) (st_op s) l" and "p_start a (unat (st_view s)) = Some l"
    and "commit_ok config a (unat (st_view s)) (st_commit s)"
  shows "says config a (start_view_message s)"
proof -
  have "start_view_deserialize (msg_payload (start_view_message s)) \<lparr>sv_log = []\<rparr> = (True, \<lparr>sv_log = strip_log (st_log s)\<rparr>)"
    using wf_log_rep [OF assms(1,2)] by (simp add: start_view_message_def start_view_roundtrip)
  moreover have "h_op (msg_header (start_view_message s)) = st_op s" "h_view (msg_header (start_view_message s)) = st_view s"
    "h_commit (msg_header (start_view_message s)) = st_commit s"
    "h_command (msg_header (start_view_message s)) = command_start_view"
    by (simp_all add: start_view_message_def)
  ultimately show ?thesis
    using assms(2-4) by (simp add: says_def start_view_says_def)
qed

text \<open>The quorum of messages a new primary has received is a quorum of promises.\<close>

lemma received_quorum:
  assumes inv: "cluster_inv config a" and says: "\<forall>m\<in>set ms. do_view_change_says config a m \<and> h_view (msg_header m) = v"
    and distinct: "distinct (map (\<lambda>m. uint (h_replica (msg_header m))) ms)"
    and best: "\<forall>m'\<in>set ms. lex_le (dvc_last_normal_view (payload_of junk m'), h_op (msg_header m'))
        (dvc_last_normal_view (payload_of junk m), h_op (msg_header m))"
    and l: "length l = unat (h_op (msg_header m))"
  defines "Q \<equiv> (\<lambda>m. uint (h_replica (msg_header m))) ` set ms"
  shows "Q \<subseteq> members config" and "card Q = length ms"
    and "\<forall>i\<in>Q. \<exists>w l'. (unat v, i, w, l') \<in> p_dvc a \<and>
      lex_le (w, length l') (unat (dvc_last_normal_view (payload_of junk m)), length l)"
proof -
  show "card Q = length ms"
    using distinct_card [OF distinct] by (simp add: Q_def)
  have *: "\<exists>w l'. (unat v, uint (h_replica (msg_header m')), w, l') \<in> p_dvc a \<and>
      lex_le (w, length l') (unat (dvc_last_normal_view (payload_of junk m)), length l)" if mem: "m' \<in> set ms" for m'
  proof -
    have d: "do_view_change_says config a m'" and v: "h_view (msg_header m') = v"
      using says mem by blast+
    obtain l' where l': "log_rep (dvc_log (payload_of junk m')) (h_op (msg_header m')) l'"
      "(unat (h_view (msg_header m')), uint (h_replica (msg_header m')),
        unat (dvc_last_normal_view (payload_of junk m')), l') \<in> p_dvc a"
      by (rule says_payload [OF d])
    moreover have "lex_le (unat (dvc_last_normal_view (payload_of junk m')), length l')
        (unat (dvc_last_normal_view (payload_of junk m)), length l)"
      using lex_le_unat best mem log_rep_length [OF l'(1)] l by fastforce
    ultimately show ?thesis
      unfolding v by blast
  qed
  then show "\<forall>i\<in>Q. \<exists>w l'. (unat v, i, w, l') \<in> p_dvc a \<and>
      lex_le (w, length l') (unat (dvc_last_normal_view (payload_of junk m)), length l)"
    by (auto simp: Q_def)
  show "Q \<subseteq> members config"
    using * inv_dvcD(1) inv by (fastforce simp: Q_def proto_inv_def)
qed

lemma Max_commit_ok:
  assumes "finite A" and "commit_ok config a v c" and "\<And>k. k \<in> A \<Longrightarrow> commit_ok config a v k"
  shows "commit_ok config a v (Max (insert c A))"
proof -
  have "Max (insert c A) \<in> insert c A"
    using assms(1) by (intro Max_in) auto
  with assms(2,3) show ?thesis by auto
qed

text \<open>Becoming primary with a quorum of DoViewChange messages of distinct senders.\<close>

lemma implements_become_primary:
  fixes r :: replica and env :: environment and ms :: "vsr_message list"
  defines "s \<equiv> r_state r"
  assumes inv: "cluster_inv config a" and num: "numbered config" and member: "j \<in> members config"
    and sim: "stands config a j s" and changing: "st_status s = VIEW_CHANGE"
    and prim: "get_primary_id_for_view (st_view s) s = st_id s" and ms: "ms \<noteq> []" "quorum s \<le> length ms"
    and said: "\<forall>m\<in>set ms. do_view_change_says config a m \<and> h_view (msg_header m) = st_view s"
    and distinct: "distinct (map (\<lambda>m. uint (h_replica (msg_header m))) ms)"
    and sel: "fold (select_next (env_junk env)) (tl ms) (select_first (env_junk env) (st_commit s) (hd ms)) =
      (best_payload, best_op, max_commit)"
  defines "s3 \<equiv> s\<lparr>st_do_view_change_received := [], st_log := dvc_log best_payload, st_op := best_op,
      st_commit := max_commit, st_status := NORMAL\<rparr>"
  shows "implements config a j r (emit (Broadcast_to_peers (start_view_message s3)) (r\<lparr>r_state := s3\<rparr>))"
proof -
  let ?p = "payload_of (env_junk env)"
  have ok: "\<forall>m\<in>set ms. payload_ok (env_junk env) m"
    using said says_payload by metis
  obtain m where m: "m \<in> set ms" "best_payload = ?p m" "best_op = h_op (msg_header m)"
    "max_commit = Max (insert (st_commit s) ((\<lambda>m. h_commit (msg_header m)) ` set ms))"
    "\<forall>m'\<in>set ms. lex_le (dvc_last_normal_view (?p m'), h_op (msg_header m'))
        (dvc_last_normal_view (?p m), h_op (msg_header m))"
    using select_from_messages [OF ms(1) ok, of "st_commit s"] sel by auto
  have view: "p_view a j = unat (st_view s)" and "\<not> p_normal a j" and id: "st_id s = j"
    and v: "primary_of config (unat (st_view s)) = j"
    using standsD(1-3) [OF sim] changing prim belongs_arith(3) [OF num standsD(1) [OF sim]] by (auto simp: belongs_def)
  have "do_view_change_says config a m" and hv: "h_view (msg_header m) = st_view s"
    using said m(1) by blast+
  then obtain l where l: "log_rep (dvc_log (?p m)) (h_op (msg_header m)) l" "no_acks (dvc_log (?p m))"
    "log_ok (dvc_log (?p m))"
    "(unat (st_view s), uint (h_replica (msg_header m)), unat (dvc_last_normal_view (?p m)), l) \<in> p_dvc a"
    using says_payload [of config a m "env_junk env"] by metis
  define a' where "a' = a\<lparr>p_normal := (p_normal a)(j := True), p_log := (p_log a)(j := l),
       p_start := (p_start a)(unat (st_view s) \<mapsto> l), p_hist := (p_hist a)(unat (st_view s) \<mapsto> l)\<rparr>"
  note quorum = received_quorum [OF inv said distinct m(5) log_rep_length [OF l(1)]]
  have q: "quorum s = quorum_of config"
    using belongs_arith(1) [OF num standsD(1) [OF sim]] .
  have move: "moves config j a a'"
    unfolding a'_def
    by (rule moves_step [OF proto_step.start
        [where Q = "(\<lambda>m. uint (h_replica (msg_header m))) ` set ms" and ?j0.0 = "uint (h_replica (msg_header m))"
          and ?w0.0 = "unat (dvc_last_normal_view (?p m))"]])
      (use member \<open>\<not> p_normal a j\<close> view v quorum l(4) ms(2) q in auto)
  have grows: "grows (members config) a a'"
    using moves_inv [OF move inv] by simp
  have lv: "last_view a' j = unat (st_view s)" "last_view a j \<le> unat (st_view s)"
    using view growsD(6) [OF grows member] by (simp_all add: a'_def last_view_def)
  have commit: "commit_ok config a' (unat (st_view s)) max_commit"
    unfolding m(4)
  proof (rule Max_commit_ok)
    show "commit_ok config a' (unat (st_view s)) (st_commit s)"
      using commit_ok_mono [OF standsD(5) [OF sim] lv(2) grows] .
    fix k assume "k \<in> (\<lambda>m. h_commit (msg_header m)) ` set ms"
    then obtain m' where m': "m' \<in> set ms" "k = h_commit (msg_header m')" by blast
    then have "do_view_change_says config a m'" "h_view (msg_header m') = st_view s"
      using said by blast+
    then obtain l' where "(unat (st_view s), uint (h_replica (msg_header m')), unat (dvc_last_normal_view (?p m')), l') \<in> p_dvc a"
      and c: "commit_ok config a (unat (dvc_last_normal_view (?p m'))) k"
      using says_payload [of config a m' "env_junk env"] m'(2) by metis
    then have "unat (dvc_last_normal_view (?p m')) < unat (st_view s)"
      using inv_dvcD(3) inv by (auto simp: proto_inv_def)
    then show "commit_ok config a' (unat (st_view s)) k"
      using commit_ok_mono [OF c _ grows] by simp
  qed simp
  have "stands config a' j s3"
    using standsD(1) [OF sim] view commit lv l(1,2) m(2,3)
    by (simp add: stands_def s3_def belongs_def acked_def no_acks_def) (auto simp: a'_def)
  moreover have "says config a' (start_view_message s3)"
    by (rule start_view_message_says [where l = l]) (use l m(2,3) commit in \<open>simp_all add: s3_def a'_def\<close>)
  ultimately show ?thesis
    by (intro implements_step [OF move, where acts = "[Broadcast_to_peers (start_view_message s3)]"]) auto
qed

lemma implements_do_view_change:
  fixes inbound :: inbound_message and r :: replica
  defines "m \<equiv> in_message inbound" and "s \<equiv> r_state r"
  defines "ms \<equiv> st_do_view_change_received s @ [m]"
  assumes inv: "cluster_inv config a" and num: "numbered config" and member: "j \<in> members config"
    and sim: "stands config a j s" and guard: "check_can_process_do_view_change s m"
    and command: "h_command (msg_header m) = command_do_view_change" and said: "do_view_change_says config a m"
    and distinct: "distinct (map (\<lambda>m. uint (h_replica (msg_header m))) ms)"
  shows "implements config a j r (handle_do_view_change env inbound r)"
proof -
  have view: "h_view (msg_header m) = st_view s" and changing: "st_status s = VIEW_CHANGE"
    and prim: "get_primary_id_for_view (st_view s) s = st_id s"
    using guard by (auto simp: check_can_process_do_view_change_def split: if_splits)
  have all: "\<forall>m\<in>set ms. do_view_change_says config a m \<and> h_view (msg_header m) = st_view s"
    using sim said view by (auto simp: ms_def stands_def says_def)
  show ?thesis
  proof (cases "quorum s \<le> length ms")
    case False
    have "says config a m"
      using said command by (simp add: says_def)
    moreover have "primary_of config (unat (st_view s)) = j"
      using prim belongs_arith(3) [OF num standsD(1) [OF sim]] standsD(1) [OF sim] by (simp add: belongs_def)
    ultimately have "stands config a j (s\<lparr>st_do_view_change_received := ms\<rparr>)"
      using sim command view changing by (auto simp: stands_def belongs_def acked_def ms_def)
    with False show ?thesis
      by (intro implements_same [where acts = "[]"])
        (simp_all add: handle_do_view_change_def Let_def s_def m_def ms_def)
  next
    case True
    obtain bp bo mc where sel: "fold (select_next (env_junk env)) (tl ms)
        (select_first (env_junk env) (st_commit s) (hd ms)) = (bp, bo, mc)"
      by (metis prod.exhaust)
    define s3 where "s3 = s\<lparr>st_do_view_change_received := [], st_log := dvc_log bp, st_op := bo,
      st_commit := mc, st_status := NORMAL\<rparr>"
    have "implements config a j r (emit (Broadcast_to_peers (start_view_message s3)) (r\<lparr>r_state := s3\<rparr>))"
      unfolding s3_def s_def
      by (rule implements_become_primary [OF inv num member _ _ _ _ _ all [unfolded s_def] distinct])
        (use sim changing prim True sel in \<open>simp_all add: s_def ms_def\<close>)
    then have "implements config a j r
        (execute_commited_ops (emit (Broadcast_to_peers (start_view_message s3)) (r\<lparr>r_state := s3\<rparr>)))"
      by (rule implements_execute)
    with True sel show ?thesis
      by (simp add: handle_do_view_change_def Let_def s_def m_def ms_def s3_def)
  qed
qed

lemma implements_after:
  assumes "moves config j a a1" and "implements config a1 j r1 r'" and "r_outbox r1 = r_outbox r"
  shows "implements config a j r r'"
  using assms moves_trans unfolding implements_def by metis

lemma stands_grows:
  assumes sim: "stands config a j s" and grows: "grows (members config) a a'"
    and same: "p_view a' j = p_view a j" "p_normal a' j = p_normal a j" "p_last_normal a' j = p_last_normal a j"
      "p_log a' j = p_log a j"
  shows "stands config a' j s"
proof -
  have "last_view a' j = last_view a j"
    by (simp add: last_view_def same)
  moreover have "acked a' s" if "acked a s"
    using that growsD(1) [OF grows] by (simp add: acked_def)
  ultimately show ?thesis
    using sim says_grows [OF _ grows] commit_ok_mono [OF _ order_refl grows] by (simp add: stands_def same)
qed

lemma stands_count [simp]:
  "stands config a j (s\<lparr>st_start_view_change_received := A\<rparr>) = stands config a j s"
  by (simp add: stands_def belongs_def acked_def)

lemma do_view_change_message_says:
  assumes "log_ok (st_log s)" and sim: "stands config a j s" and changing: "st_status s = VIEW_CHANGE"
    and "uint (word_of_int j :: byte) = j"
    and promised: "(p_view a j, j, p_last_normal a j, p_log a j) \<in> p_dvc a"
  shows "do_view_change_says config a (do_view_change_message s)"
proof -
  have "last_view a j = p_last_normal a j" "p_last_normal a j = unat (st_last_normal_view s)" "st_id s = j"
    using sim changing by (simp_all add: stands_def last_view_def belongs_def)
  moreover have "wf_log (st_log s)"
    using wf_log_rep [OF assms(1) standsD(4) [OF sim]] .
  ultimately show ?thesis
    using standsD [OF sim] assms(4) promised unfolding do_view_change_says_def
    by (intro exI [of _ "st_last_normal_view s"] exI [of _ "strip_log (st_log s)"] exI [of _ "p_log a j"])
      (simp add: do_view_change_message_def do_view_change_roundtrip)
qed

lemma implements_start_view_change:
  fixes inbound :: inbound_message and r :: replica
  defines "s \<equiv> r_state r"
  defines "A \<equiv> insert (uint (h_replica (in_header inbound))) (st_start_view_change_received s)"
  assumes inv: "cluster_inv config a" and num: "numbered config" and member: "j \<in> members config"
    and sim: "stands config a j s" and guard: "check_can_process_start_view_change s (in_message inbound)"
    and ok: "log_ok (st_log s)"
    and distinct: "quorum s \<le> card A \<Longrightarrow>
      distinct (map (\<lambda>m. uint (h_replica (msg_header m))) (st_do_view_change_received s @ [do_view_change_message s]))"
  shows "implements config a j r (handle_start_view_change env inbound r)"
proof (cases "quorum s \<le> card A")
  case False
  then show ?thesis
    using sim by (intro implements_same [where acts = "[]"])
      (simp_all add: handle_start_view_change_def Let_def s_def A_def)
next
  case True
  have changing: "st_status s = VIEW_CHANGE"
    using guard by (simp add: check_can_process_start_view_change_def)
  define m where "m = do_view_change_message s"
  define s2 where "s2 = s\<lparr>st_start_view_change_received := {}\<rparr>"
  define r2 where "r2 = r\<lparr>r_state := s2\<rparr>"
  define a1 where "a1 = a\<lparr>p_dvc := insert (p_view a j, j, p_last_normal a j, p_log a j) (p_dvc a)\<rparr>"
  have move: "moves config j a a1"
    unfolding a1_def by (rule moves_step [OF proto_step.promise]) (use member standsD(3) [OF sim] changing in auto)
  then have inv1: "cluster_inv config a1" and grows: "grows (members config) a a1"
    using moves_inv [OF move inv] by simp_all
  have "stands config a1 j s"
    by (rule stands_grows [OF sim grows]) (simp_all add: a1_def)
  then have sim1: "stands config a1 j s2" and said: "do_view_change_says config a1 m"
    using do_view_change_message_says [OF ok, of config a1 j] changing uint_member [OF num member]
    by (simp_all add: s2_def m_def a1_def)
  have m: "do_view_change_message s2 = m" "h_view (msg_header m) = st_view s"
    "h_command (msg_header m) = command_do_view_change" "st_view s2 = st_view s" "st_status s2 = VIEW_CHANGE"
    "get_primary_id_for_view (st_view s) s2 = get_primary_id_for_view (st_view s) s" "st_id s2 = st_id s"
    using changing by (simp_all add: m_def do_view_change_message_def s2_def get_primary_id_for_view_def)
  show ?thesis
  proof (cases "get_primary_id_for_view (st_view s) s = st_id s")
    case own: True
    have "implements config a1 j r2 (handle_do_view_change env \<lparr>in_connection = None, in_message = m\<rparr> r2)"
      by (rule implements_do_view_change [OF inv1 num member])
        (use sim1 said distinct [OF True] own m in \<open>simp_all add: r2_def check_can_process_do_view_change_def,
          simp_all add: s2_def m_def\<close>)
    from implements_after [OF move this, of r] show ?thesis
      using True own m by (simp add: handle_start_view_change_def Let_def r2_def s_def A_def s2_def)
  next
    case False
    have "says config a1 m"
      using said m(3) by (simp add: says_def)
    with sim1 True False m show ?thesis
      by (intro implements_step [OF move, where acts = "[Send_to_peer (get_primary_id_for_view (st_view s) s) m]"])
        (auto simp: handle_start_view_change_def Let_def s_def A_def s2_def)
  qed
qed

text \<open>Adopting the log of a StartView: every op up to the end of the log may be acknowledged.\<close>

lemma moves_acknowledge:
  assumes "j \<in> members config" and "p_normal a j" and "n \<le> Suc (length (p_log a j))"
  shows "moves config j a (a\<lparr>p_acks := {(p_view a j, k, j) | k. k < n} \<union> p_acks a\<rparr>)"
  using assms(3)
proof (induction n)
  case (Suc n)
  let ?b = "a\<lparr>p_acks := {(p_view a j, k, j) | k. k < n} \<union> p_acks a\<rparr>"
  have "moves config j ?b (?b\<lparr>p_acks := insert (p_view ?b j, n, j) (p_acks ?b)\<rparr>)"
    by (rule moves_step [OF proto_step.acknowledge]) (use assms(1,2) Suc.prems in auto)
  moreover have "insert (p_view a j, n, j) ({(p_view a j, k, j) | k. k < n} \<union> p_acks a) =
      {(p_view a j, k, j) | k. k < Suc n} \<union> p_acks a"
    by (auto simp: less_Suc_eq)
  ultimately have new: "moves config j ?b (a\<lparr>p_acks := {(p_view a j, k, j) | k. k < Suc n} \<union> p_acks a\<rparr>)"
    by simp
  have "moves config j a ?b"
    using Suc by simp
  from moves_trans [OF this new] show ?case .
qed simp

lemma retroactive_loop_sends:
  "\<exists>acts. r_outbox (retroactive_loop n op p r) = r_outbox r @ acts \<and>
     (\<forall>x\<in>set acts. \<exists>k\<le> st_op (r_state r). x = Send_to_peer p (prepare_ok_message (r_state r) k))"
proof (induction n arbitrary: op r)
  case (Suc n)
  let ?r = "if om_find (st_log (r_state r)) op \<noteq> None
    then emit (Send_to_peer p (prepare_ok_message (r_state r) op)) r else r"
  show ?case
  proof (cases "op \<le> st_op (r_state r)")
    case True
    obtain acts where acts: "r_outbox (retroactive_loop n (op + 1) p ?r) = r_outbox ?r @ acts"
      "\<forall>x\<in>set acts. \<exists>k\<le> st_op (r_state ?r). x = Send_to_peer p (prepare_ok_message (r_state ?r) k)"
      using Suc.IH by blast
    have "r_state ?r = r_state r" by simp
    with acts True show ?thesis
      by (cases "om_find (st_log (r_state r)) op = None") (auto simp: retroactive_loop.simps(2))
  qed (simp add: retroactive_loop.simps(2))
qed simp

lemma implements_retroactive:
  assumes "implements config a j r0 r" and "cluster_inv config a"
    and says: "\<And>b k. grows (members config) a b \<Longrightarrow> k \<le> st_op (r_state r) \<Longrightarrow>
      says config b (prepare_ok_message (r_state r) k)"
  shows "implements config a j r0 (retroactive_loop n op p r)"
proof -
  obtain a' acts where a': "moves config j a a'" "stands config a' j (r_state r)" "r_outbox r = r_outbox r0 @ acts"
    "\<forall>x\<in>set acts. \<forall>m. message_of x = Some m \<longrightarrow> says config a' m"
    using assms(1) by (auto simp: implements_def)
  have grows: "grows (members config) a a'"
    using moves_inv [OF a'(1) assms(2)] by simp
  obtain acts' where acts': "r_outbox (retroactive_loop n op p r) = r_outbox r @ acts'"
    "\<forall>x\<in>set acts'. \<exists>k\<le> st_op (r_state r). x = Send_to_peer p (prepare_ok_message (r_state r) k)"
    using retroactive_loop_sends by blast
  show ?thesis
  proof (rule implements_step [OF a'(1)])
    show "r_outbox (retroactive_loop n op p r) = r_outbox r0 @ (acts @ acts')"
      using a'(3) acts'(1) by simp
    show "says config a' m" if "x \<in> set (acts @ acts')" "message_of x = Some m" for x m
      using that a'(4) acts'(2) says [OF grows] by fastforce
  qed (use a'(2) in simp)
qed

lemma start_adopted:
  assumes inv: "cluster_inv config a" and member: "j \<in> members config" and "\<not> p_normal a j"
    and start: "p_start a (p_view a j) = Some l"
  defines "a1 \<equiv> a\<lparr>p_normal := (p_normal a)(j := True), p_log := (p_log a)(j := l)\<rparr>"
  defines "a2 \<equiv> a1\<lparr>p_acks := {(p_view a1 j, k, j) | k. k < Suc (length l)} \<union> p_acks a1\<rparr>"
  shows "moves config j a a2" and "cluster_inv config a2" and "grows (members config) a a2"
    and "primary_of config (p_view a j) \<noteq> j"
proof -
  show "primary_of config (p_view a j) \<noteq> j"
  proof
    assume prim: "primary_of config (p_view a j) = j"
    obtain h where "p_hist a (p_view a j) = Some h"
      using inv start unfolding proto_inv_def inv_hist_def by (metis not_Some_eq)
    with inv prim assms(3) show False
      unfolding proto_inv_def inv_hist_def by (metis less_irrefl)
  qed
  then have "moves config j a a1"
    unfolding a1_def by (intro moves_step [OF proto_step.adopt]) (use member assms(3) start in auto)
  moreover have "moves config j a1 a2"
    unfolding a2_def by (rule moves_acknowledge) (use member in \<open>simp_all add: a1_def\<close>)
  ultimately show "moves config j a a2"
    by (rule moves_trans)
  from moves_inv [OF this inv] show "cluster_inv config a2" "grows (members config) a a2"
    by simp_all
qed

lemma implements_start_view:
  fixes inbound :: inbound_message and r :: replica
  defines "m \<equiv> in_message inbound" and "s \<equiv> r_state r"
  assumes inv: "cluster_inv config a" and num: "numbered config" and member: "j \<in> members config"
    and sim: "stands config a j s" and guard: "check_can_process_start_view s m"
    and said: "start_view_says config a m"
  shows "implements config a j r (handle_start_view env inbound r)"
proof -
  have changing: "st_status s = VIEW_CHANGE" and view: "h_view (msg_header m) = st_view s"
    using guard by (auto simp: check_can_process_start_view_def split: if_splits)
  have pv: "p_view a j = unat (st_view s)" "\<not> p_normal a j"
    using standsD(2,3) [OF sim] changing by simp_all
  obtain log l where d: "start_view_deserialize (msg_payload m) \<lparr>sv_log = []\<rparr> = (True, \<lparr>sv_log = log\<rparr>)"
    and l: "log_rep log (h_op (msg_header m)) l" "no_acks log" "p_start a (p_view a j) = Some l"
      "commit_ok config a (p_view a j) (h_commit (msg_header m))"
    using said view pv by (auto simp: start_view_says_def)
  define a1 where "a1 = a\<lparr>p_normal := (p_normal a)(j := True), p_log := (p_log a)(j := l)\<rparr>"
  define a2 where "a2 = a1\<lparr>p_acks := {(p_view a1 j, k, j) | k. k < Suc (length l)} \<union> p_acks a1\<rparr>"
  note adopted = start_adopted [OF inv member pv(2) l(3), folded a1_def, folded a2_def]
  define s1 where "s1 = s\<lparr>st_view := h_view (msg_header m), st_op := h_op (msg_header m),
    st_commit := h_commit (msg_header m), st_log := log, st_status := NORMAL,
    st_client_table := fold raise_request_number log (st_client_table s)\<rparr>"
  define r1 where "r1 = r\<lparr>r_state := s1, r_last_primary_contact := env_now env\<rparr>"
  define r2 where "r2 = execute_commited_ops r1"
  have a2: "p_view a2 j = unat (st_view s)" "p_normal a2 j" "p_log a2 j = l" "last_view a2 j = unat (st_view s)"
    using pv by (simp_all add: a2_def a1_def last_view_def)
  have "stands config a2 j s1"
    using sim view a2 l(1,2) commit_ok_mono [OF l(4) order_refl adopted(3)] says_grows [OF _ adopted(3)] pv adopted(4)
    by (auto simp: stands_def s1_def belongs_def acked_def no_acks_def)
  then have "stands config a2 j (r_state r2)"
    by (simp add: r2_def r1_def)
  have handler: "handle_start_view env inbound r =
      retroactive_loop (unat (st_op (r_state r2)) + 2) (h_commit (msg_header m) + 1) (get_primary_id (r_state r2)) r2"
    using d by (simp add: handle_start_view_def Let_def r2_def r1_def s1_def s_def m_def)
  have imp2: "implements config a2 j r1 r2"
    unfolding r2_def by (rule implements_execute, rule implements_same [where acts = "[]"])
      (use \<open>stands config a2 j s1\<close> in \<open>simp_all add: r1_def\<close>)
  have ack: "says config b (prepare_ok_message (r_state r2) k)"
    if "grows (members config) a2 b" "k \<le> st_op (r_state r2)" for b k
  proof -
    have "unat k < Suc (length l)"
      using that(2) log_rep_length [OF l(1)] by (simp add: r2_def r1_def s1_def word_le_nat_alt)
    then have "(unat (st_view s), unat k, j) \<in> p_acks a2"
      using pv by (simp add: a2_def a1_def)
    then have "(unat (st_view s), unat k, j) \<in> p_acks b"
      using growsD(1) [OF that(1)] by blast
    then show ?thesis
      using view standsD(1) [OF sim] uint_member [OF num member]
      by (simp add: says_def prepare_ok_message_def r2_def r1_def s1_def belongs_def)
  qed
  have "implements config a2 j r1 (handle_start_view env inbound r)"
    unfolding handler
    by (rule implements_retroactive [OF imp2 adopted(2)]) (rule ack)
  from implements_after [OF adopted(1) this, of r] show ?thesis
    by (simp add: r1_def)
qed

section \<open>Recovery\<close>

text \<open>A replica may take over any state its view has had that is not behind its own.\<close>

lemma moves_accept:
  assumes inv: "cluster_inv config a" and j: "j \<in> members config" "p_normal a j"
    and h: "p_hist a (p_view a j) = Some h" and "prefix (p_log a j) l" "prefix l h"
  shows "\<exists>a'. moves config j a a' \<and> p_view a' j = p_view a j \<and> p_normal a' j \<and> p_log a' j = l"
  using assms
proof (induction "length l - length (p_log a j)" arbitrary: a)
  case 0
  then have "p_log a j = l"
    using prefix_length_le not_equal_is_parallel by (fastforce simp: prefix_def)
  with 0 show ?case by (intro exI [of _ a]) simp
next
  case (Suc n)
  let ?l = "take (Suc (length (p_log a j))) h"
  define b where "b = a\<lparr>p_log := (p_log a)(j := ?l), p_acks := insert (p_view a j, length ?l, j) (p_acks a)\<rparr>"
  have less: "length (p_log a j) < length l" "length l \<le> length h"
    using Suc.hyps(2) Suc.prems(6) by (auto dest: prefix_length_le)
  then have l: "?l = take (Suc (length (p_log a j))) l"
    using Suc.prems(6) by (auto simp: prefix_def)
  have move: "moves config j a b"
    unfolding b_def by (rule moves_step [OF proto_step.accept [OF Suc.prems(2-4)]]) (use less in auto)
  then have inv: "cluster_inv config b"
    using moves_inv Suc.prems(1) by blast
  have "\<exists>a'. moves config j b a' \<and> p_view a' j = p_view b j \<and> p_normal a' j \<and> p_log a' j = l"
    by (rule Suc.hyps(1) [OF _ inv])
      (use Suc.hyps(2) Suc.prems less in \<open>simp_all add: b_def, simp_all add: l take_is_prefix\<close>)
  then show ?case
    using moves_trans [OF move] by (auto simp: b_def)
qed

lemma recovery_moves:
  assumes inv: "cluster_inv config a" and j: "j \<in> members config" "p_normal a j"
    and l: "log_between a w l" and w: "p_view a j \<le> w" "w = p_view a j \<Longrightarrow> length (p_log a j) \<le> length l"
  shows "\<exists>a'. moves config j a a' \<and> p_view a' j = w \<and> p_normal a' j \<and> p_log a' j = l"
proof -
  obtain s h where sh: "p_start a w = Some s" "p_hist a w = Some h" "prefix s l" "prefix l h"
    using l by (auto simp: log_between_def)
  show ?thesis
  proof (cases "w = p_view a j")
    case True
    have "last_view a j = w"
      using j(2) True by (simp add: last_view_def)
    then have "log_between a w (p_log a j)"
      using inv j(1) by (auto simp: proto_inv_def inv_logs_def)
    then have "prefix (p_log a j) h"
      using sh(2) by (rule log_betweenD)
    then have "prefix (p_log a j) l"
      using sh(4) w(2) [OF True] by (blast intro: prefix_length_prefix)
    from moves_accept [OF inv j _ this sh(4)] sh(2) True show ?thesis by blast
  next
    case False
    define b where "b = a\<lparr>p_view := (p_view a)(j := w), p_normal := (p_normal a)(j := False),
       p_last_normal := (p_last_normal a)(j := last_view a j)\<rparr>"
    have b: "moves config j a b"
      unfolding b_def by (rule moves_step [OF proto_step.leave]) (use j w False in auto)
    then have inv_b: "cluster_inv config b"
      using moves_inv [OF b inv] by simp
    have start: "p_start b (p_view b j) = Some s" "\<not> p_normal b j"
      using sh(1) by (simp_all add: b_def)
    note adopted = start_adopted [OF inv_b j(1) start(2,1)]
    let ?c = "b\<lparr>p_normal := (p_normal b)(j := True), p_log := (p_log b)(j := s)\<rparr>"
    let ?d = "?c\<lparr>p_acks := {(p_view ?c j, k, j) | k. k < Suc (length s)} \<union> p_acks ?c\<rparr>"
    have "\<exists>a'. moves config j ?d a' \<and> p_view a' j = p_view ?d j \<and> p_normal a' j \<and> p_log a' j = l"
      by (rule moves_accept [OF adopted(2) j(1)]) (use sh in \<open>simp_all add: b_def\<close>)
    then show ?thesis
      using moves_trans [OF moves_trans [OF b adopted(1)]] by (auto simp: b_def)
  qed
qed

lemma better_response_in: "fold better_response ms m \<in> insert m (set ms)"
proof (induction ms arbitrary: m)
  case (Cons m' ms)
  show ?case
    using Cons [of "better_response m' m"] by (auto simp: better_response_def split: if_splits)
qed simp

lemma implements_adopt_recovery:
  fixes r :: replica and env :: environment and m :: vsr_message
  defines "s \<equiv> r_state r" and "r' \<equiv> adopt_recovery env m r"
  assumes inv: "cluster_inv config a" and member: "j \<in> members config" and sim: "stands config a j s"
    and recovering: "st_status s = RECOVERY" and said: "recovery_response_says config a m"
    and view: "st_view s \<le> h_view (msg_header m)" and rem: "remembers s (r_state r')"
  shows "implements config a j r r'"
proof -
  let ?h = "msg_header m"
  obtain nonce log l where d: "recovery_response_deserialize (msg_payload m) \<lparr>rs_nonce = uint128_zero, rs_log = []\<rparr> =
       (True, \<lparr>rs_nonce = nonce, rs_log = log\<rparr>)" "log_rep log (h_op ?h) l" "no_acks log"
     "log_between a (unat (h_view ?h)) l" "commit_ok config a (unat (h_view ?h)) (h_commit ?h)"
    using said by (auto simp: recovery_response_says_def)
  define s1 where "s1 = s\<lparr>st_view := h_view ?h, st_op := h_op ?h, st_commit := h_commit ?h, st_log := log,
    st_last_executed_op := 0, st_status := NORMAL, st_client_table := fold raise_request_number log []\<rparr>"
  define r1 where "r1 = execute_commited_ops (r\<lparr>r_state := s1, r_last_primary_contact := env_now env\<rparr>)"
  have r': "r' = set_state (\<lambda>t. t\<lparr>st_recovery_nonce := uint128_zero, st_recovery_responses := []\<rparr>) r1"
    using d(1) by (simp add: r'_def adopt_recovery_def Let_def r1_def s1_def s_def)
  have r1: "st_status (r_state r1) = NORMAL" "st_view (r_state r1) = h_view ?h" "st_op (r_state r1) = h_op ?h"
    by (simp_all add: r1_def s1_def)
  have "st_op s \<le> h_op ?h" if "h_view ?h = st_view s"
    using rem recovering that r1 by (simp add: remembers_def r')
  then have "\<exists>a'. moves config j a a' \<and> p_view a' j = unat (h_view ?h) \<and> p_normal a' j \<and> p_log a' j = l"
    using standsD(2-4) [OF sim] recovering view log_rep_length [OF d(2)] log_rep_length [OF standsD(4) [OF sim]]
    by (intro recovery_moves [OF inv member _ d(4)]) (auto simp: word_le_nat_alt word_unat_eq_iff)
  then obtain a' where a': "moves config j a a'" "p_view a' j = unat (h_view ?h)" "p_normal a' j" "p_log a' j = l"
    by blast
  have grows: "grows (members config) a a'"
    using moves_inv [OF a'(1) inv] by simp
  have "st_do_view_change_received s = []"
    using sim recovering by (auto simp: stands_def)
  then have "stands config a' j s1"
    using standsD(1) [OF sim] a'(2-4) d(2,3) commit_ok_mono [OF d(5) order_refl grows]
    by (simp add: stands_def s1_def belongs_def acked_def no_acks_def last_view_def)
  then have "implements config a' j (r\<lparr>r_state := s1, r_last_primary_contact := env_now env\<rparr>) r1"
    unfolding r1_def by (intro implements_execute implements_same [where acts = "[]"]) simp_all
  then have "implements config a j r r1"
    by (rule implements_after [OF a'(1)]) simp
  then obtain b acts where b: "moves config j a b" "stands config b j (r_state r1)" "r_outbox r1 = r_outbox r @ acts"
    "\<forall>x\<in>set acts. \<forall>m. message_of x = Some m \<longrightarrow> says config b m"
    by (auto simp: implements_def)
  moreover have "stands config b j (r_state r')"
    using b(2) r1(1) by (simp add: r' stands_def belongs_def acked_def)
  ultimately show ?thesis
    by (intro implements_step [OF b(1)]) (auto simp: r')
qed

lemma implements_recovery_response:
  fixes inbound :: inbound_message and r :: replica
  defines "m \<equiv> in_message inbound" and "s \<equiv> r_state r"
  assumes inv: "cluster_inv config a" and member: "j \<in> members config" and sim: "stands config a j s"
    and recovering: "st_status s = RECOVERY" and command: "h_command (msg_header m) = command_recovery_response"
    and said: "recovery_response_says config a m"
    and view: "\<forall>m'\<in>set (st_recovery_responses s @ [m]). st_view s \<le> h_view (msg_header m')"
    and rem: "remembers s (r_state (handle_recovery_response env inbound r))"
  shows "implements config a j r (handle_recovery_response env inbound r)"
proof -
  let ?ms = "st_recovery_responses s @ [m]"
  obtain nonce log where d: "recovery_response_deserialize (msg_payload m) \<lparr>rs_nonce = uint128_zero, rs_log = []\<rparr> =
       (True, \<lparr>rs_nonce = nonce, rs_log = log\<rparr>)"
    using said by (auto simp: recovery_response_says_def)
  let ?r1 = "set_state (\<lambda>s. s\<lparr>st_recovery_responses := ?ms\<rparr>) r"
  let ?best = "fold better_response (tl ?ms) (hd ?ms)"
  have "says config a m"
    using said command by (simp add: says_def)
  then have sim1: "stands config a j (r_state ?r1)"
    using sim command recovering by (auto simp: stands_def belongs_def acked_def s_def)
  have best: "?best \<in> set ?ms"
  proof -
    have "insert (hd ?ms) (set (tl ?ms)) = set ?ms"
      by (cases "st_recovery_responses s") simp_all
    then show ?thesis
      using better_response_in [of "tl ?ms" "hd ?ms"] by simp
  qed
  have "\<forall>m'\<in>set ?ms. h_command (msg_header m') = command_recovery_response \<and> says config a m'"
    using sim1 recovering unfolding stands_def by (simp add: s_def)
  then have all: "recovery_response_says config a m'" if "m' \<in> set ?ms" for m'
    using bspec [OF _ that] unfolding says_def by blast
  consider (other) "nonce \<noteq> st_recovery_nonce s" | (wait) "nonce = st_recovery_nonce s" "length ?ms < quorum (r_state ?r1)"
    | (adopt) "nonce = st_recovery_nonce s" "quorum (r_state ?r1) \<le> length ?ms"
    by linarith
  then show ?thesis
  proof cases
    case other
    with d sim show ?thesis
      by (intro implements_same [where acts = "[]"]) (simp_all add: handle_recovery_response_def s_def m_def)
  next
    case wait
    with d sim1 show ?thesis
      by (intro implements_same [where acts = "[]"]) (simp_all add: handle_recovery_response_def s_def m_def Let_def)
  next
    case adopt
    then have eq: "handle_recovery_response env inbound r = adopt_recovery env ?best ?r1"
      using d by (simp add: handle_recovery_response_def s_def m_def Let_def)
    have "remembers (r_state ?r1) (r_state (adopt_recovery env ?best ?r1))"
      using rem by (simp add: eq remembers_def s_def)
    moreover have "st_view (r_state ?r1) \<le> h_view (msg_header ?best)" "st_status (r_state ?r1) = RECOVERY"
      using bspec [OF view best] recovering by (simp_all add: s_def)
    ultimately have "implements config a j ?r1 (adopt_recovery env ?best ?r1)"
      by (intro implements_adopt_recovery [OF inv member sim1 _ all [OF best]])
    then show ?thesis
      by (simp add: eq implements_def)
  qed
qed

lemma implements_initiate_recovery:
  assumes "stands config a j (r_state r)" and "st_status (r_state r) = NORMAL"
  shows "implements config a j r (initiate_recovery env r)"
proof -
  obtain nonce counter where n: "generate_nonce (env_tv_sec env) (env_tv_nsec env) (r_nonce_counter r) (st_id (r_state r)) =
      (nonce, counter)"
    by fastforce
  show ?thesis
    by (rule implements_same [where acts = "[Broadcast_to_peers (message_with (zero_header\<lparr>h_command := command_recovery,
          h_replica := word_of_int (st_id (r_state r))\<rparr>) (recovery_request_serialize \<lparr>rq_nonce = nonce\<rparr>))]"])
      (use assms n in \<open>auto simp: initiate_recovery_def stands_def belongs_def acked_def says_def\<close>)
qed

section \<open>A turn of the queue and the timers\<close>

lemma recovery_response_message_says:
  assumes inv: "cluster_inv config a" and member: "j \<in> members config" and sim: "stands config a j s"
    and normal: "st_status s = NORMAL" and ok: "log_ok (st_log s)"
  shows "says config a (recovery_response_message s nonce)"
proof -
  have "log_between a (unat (st_view s)) (p_log a j)"
    using inv member standsD(7) [OF sim] normal by (auto simp: proto_inv_def inv_logs_def)
  moreover have "wf_log (st_log s)"
    using wf_log_rep [OF ok standsD(4) [OF sim]] .
  ultimately have "recovery_response_says config a (recovery_response_message s nonce)"
    using standsD(4,5,7) [OF sim] normal unfolding recovery_response_says_def
    by (intro exI [of _ nonce] exI [of _ "strip_log (st_log s)"] exI [of _ "p_log a j"])
      (simp add: recovery_response_payload_of)
  then show ?thesis
    by (simp add: says_def recovery_response_message_def)
qed

lemma implements_recovery_request:
  assumes "cluster_inv config a" and "j \<in> members config" and sim: "stands config a j (r_state r)"
    and "check_can_process_recovery_request (r_state r) (in_message inbound)" and "log_ok (st_log (r_state r))"
  shows "implements config a j r (handle_recovery_request inbound r)"
proof -
  obtain ok p where d: "recovery_request_deserialize (in_payload inbound) \<lparr>rq_nonce = uint128_zero\<rparr> = (ok, p)"
    by (metis prod.exhaust)
  let ?m = "recovery_response_message (r_state r) (rq_nonce p)"
  show ?thesis
  proof (cases ok)
    case True
    have "says config a ?m"
      using assms by (intro recovery_response_message_says) (simp_all add: check_can_process_recovery_request_def)
    with True d sim show ?thesis
      by (intro implements_same [where acts = "[Send_to_peer (uint (h_replica (in_header inbound))) ?m]"])
        (auto simp: handle_recovery_request_def)
  next
    case False
    with d sim show ?thesis
      by (intro implements_same [where acts = "[]"]) (simp_all add: handle_recovery_request_def)
  qed
qed

lemma implements_dispatch:
  assumes inv: "cluster_inv config a" and num: "numbered config" and member: "j \<in> members config"
    and sim: "stands config a j (r_state r)" and ok: "log_ok (st_log (r_state r))"
    and guard: "can_process (r_state r) inbound" and said: "says config a (in_message inbound)"
    and op: "st_op (r_state r) \<noteq> - 1"
    and recovery: "st_status (r_state r) = RECOVERY \<Longrightarrow>
        \<forall>m\<in>set (st_recovery_responses (r_state r)). st_view (r_state r) \<le> h_view (msg_header m)"
      "h_command (in_header inbound) = command_recovery_response \<Longrightarrow> st_view (r_state r) \<le> h_view (in_header inbound)"
      "remembers (r_state r) (r_state (dispatch env inbound r))"
    and once: "h_command (in_header inbound) = command_start_view_change \<Longrightarrow>
        quorum (r_state r) \<le> card (insert (uint (h_replica (in_header inbound))) (st_start_view_change_received (r_state r))) \<Longrightarrow>
        distinct (map (\<lambda>m. uint (h_replica (msg_header m)))
          (st_do_view_change_received (r_state r) @ [do_view_change_message (r_state r)]))"
      "h_command (in_header inbound) = command_do_view_change \<Longrightarrow>
        distinct (map (\<lambda>m. uint (h_replica (msg_header m))) (st_do_view_change_received (r_state r) @ [in_message inbound]))"
  shows "implements config a j r (dispatch env inbound r)"
proof -
  have idle: "implements config a j r r"
    using sim by (intro implements_same [where acts = "[]"]) simp_all
  show ?thesis
  proof (cases "h_command (in_header inbound)")
    case command_recovery_response
    then have d: "dispatch env inbound r = handle_recovery_response env inbound r" and "st_status (r_state r) = RECOVERY"
      and "recovery_response_says config a (in_message inbound)"
      using guard said by (simp_all add: dispatch_def can_process_def check_can_process_recovery_response_def says_def)
    then show ?thesis
      using recovery command_recovery_response unfolding d
      by (intro implements_recovery_response [OF inv member sim]) auto
  next
    case command_start_view_change
    with guard ok once(1) show ?thesis
      by (simp add: dispatch_def can_process_def Let_def implements_start_view_change [OF inv num member sim])
  next
    case command_do_view_change
    with guard said once(2) show ?thesis
      by (simp add: dispatch_def can_process_def Let_def says_def implements_do_view_change [OF inv num member sim])
  qed (use guard said op idle ok in \<open>simp_all add: dispatch_def can_process_def Let_def says_def implements_ping [OF sim]
      implements_recovery_request [OF inv member sim] implements_request [OF inv num member sim]
      implements_prepare [OF inv num member sim] implements_prepare_ok [OF inv num sim]
      implements_commit [OF inv sim] implements_start_view [OF inv num member sim]\<close>)
qed

lemma implements_emit:
  assumes "implements config a j r r'" and "message_of x = None"
  shows "implements config a j r (emit x r')"
proof -
  obtain a' acts where a': "moves config j a a'" "stands config a' j (r_state r')" "r_outbox r' = r_outbox r @ acts"
    "\<forall>x\<in>set acts. \<forall>m. message_of x = Some m \<longrightarrow> says config a' m"
    using assms(1) by (auto simp: implements_def)
  then show ?thesis
    using assms(2) by (intro implements_step [OF a'(1), where acts = "acts @ [x]"]) auto
qed

lemma implements_liveness:
  assumes inv: "cluster_inv config a" and member: "j \<in> members config"
    and sim: "stands config a j (r_state r)" and view: "st_view (r_state r) \<noteq> - 1"
  shows "implements config a j r (check_primary_liveness env r)"
  using implements_initiate_view_change [OF assms] implements_same [OF sim, of r "[]"]
  by (auto simp: check_primary_liveness_def schedule_liveness_check_def intro: implements_emit)

end
