(* ===== verification/Cluster_Votes.thy ===== *)
theory Cluster_Votes
  imports Cluster
begin

text \<open>
  Votes are counted at most once. The set of StartViewChange senders is emptied when a quorum is
  reached and the list of DoViewChange messages is not checked for repetitions, so that a view
  change is sound only because every replica sends either message at most once per view and the
  network delivers it at most once. The invariant of this theory says so for every run of a
  cluster.
\<close>

section \<open>Counting votes\<close>

text \<open>
  What the count of a view change depends on: per replica its view, whether it is in a view
  change and whose StartViewChange it has counted, and per addressee how many StartViewChange and
  DoViewChange messages of a view and a sender are still to be handled or, for the latter, kept.
\<close>

record tally =
  t_view :: "int \<Rightarrow> u32"
  t_changing :: "int \<Rightarrow> bool"
  t_votes :: "int \<Rightarrow> int set"
  t_svc :: "int \<Rightarrow> u32 \<Rightarrow> int \<Rightarrow> nat"
  t_dvc :: "int \<Rightarrow> u32 \<Rightarrow> int \<Rightarrow> nat"

text \<open>The replicas whose StartViewChange may still reach \<open>d\<close> in its view.\<close>

definition outstanding :: "int set \<Rightarrow> tally \<Rightarrow> int \<Rightarrow> int set" where
  "outstanding M t d = {i \<in> M - {d}. t_view t i < t_view t d \<or> 0 < t_svc t d (t_view t d) i}"

definition votes_ok :: "int set \<Rightarrow> nat \<Rightarrow> tally \<Rightarrow> int \<Rightarrow> bool" where
  "votes_ok M q t d \<longleftrightarrow> t_votes t d \<subseteq> M \<and>
     (\<forall>i\<in>t_votes t d. i \<noteq> d \<longrightarrow> t_view t d \<le> t_view t i \<and> t_svc t d (t_view t d) i = 0) \<and>
     (d \<notin> t_votes t d \<longrightarrow> card (t_votes t d \<union> outstanding M t d) < q)"

definition once :: "int set \<Rightarrow> nat \<Rightarrow> tally \<Rightarrow> bool" where
  "once M q t \<longleftrightarrow>
     (\<forall>d\<in>M. \<forall>v i. t_svc t d v i \<le> 1 \<and> (0 < t_svc t d v i \<longrightarrow> i \<in> M \<and> i \<noteq> d \<and> v \<le> t_view t i)) \<and>
     (\<forall>d\<in>M. t_changing t d \<longrightarrow> votes_ok M q t d) \<and>
     (\<forall>d\<in>M. \<forall>v i. t_dvc t d v i \<le> 1 \<and>
        (0 < t_dvc t d v i \<longrightarrow> i \<in> M \<and> v \<le> t_view t i \<and> (v = t_view t i \<longrightarrow> i \<notin> t_votes t i)))"

lemma onceD:
  assumes "once M q t" and "d \<in> M"
  shows "t_svc t d v i \<le> 1" "0 < t_svc t d v i \<Longrightarrow> i \<in> M \<and> i \<noteq> d \<and> v \<le> t_view t i"
    "t_changing t d \<Longrightarrow> votes_ok M q t d"
    "t_dvc t d v i \<le> 1" "0 < t_dvc t d v i \<Longrightarrow> i \<in> M \<and> v \<le> t_view t i \<and> (v = t_view t i \<longrightarrow> i \<notin> t_votes t i)"
  using assms unfolding once_def by blast+

lemma votes_okD:
  assumes "votes_ok M q t d"
  shows "t_votes t d \<subseteq> M" "i \<in> t_votes t d \<Longrightarrow> i \<noteq> d \<Longrightarrow> t_view t d \<le> t_view t i"
    "i \<in> t_votes t d \<Longrightarrow> i \<noteq> d \<Longrightarrow> t_svc t d (t_view t d) i = 0"
    "d \<notin> t_votes t d \<Longrightarrow> card (t_votes t d \<union> outstanding M t d) < q"
  using assms by (auto simp: votes_ok_def)

lemma card_outstanding:
  assumes "finite M" and "card (A \<union> outstanding M t d) < q" and "A' \<union> outstanding M t' d \<subseteq> A \<union> outstanding M t d"
    and "A \<subseteq> M"
  shows "card (A' \<union> outstanding M t' d) < q"
proof -
  have "finite (A \<union> outstanding M t d)"
    using assms(1,4) by (auto simp: outstanding_def intro: finite_subset)
  from card_mono [OF this assms(3)] assms(2) show ?thesis by simp
qed

lemma votes_ok_fewer:
  assumes "votes_ok M q t d" and "finite M" and "t_votes t' d = t_votes t d" and "t_view t' d = t_view t d"
    and "\<And>i. t_view t i \<le> t_view t' i"
    and "\<And>i. t_svc t' d (t_view t d) i \<le> t_svc t d (t_view t d) i \<or> t_view t i < t_view t d"
  shows "votes_ok M q t' d"
  unfolding votes_ok_def assms(3,4)
proof (intro conjI ballI impI)
  note t = votes_okD [OF assms(1)]
  show "t_votes t d \<subseteq> M" by (rule t(1))
  fix i assume i: "i \<in> t_votes t d" "i \<noteq> d"
  show "t_view t d \<le> t_view t' i"
    using t(2) [OF i] assms(5) [of i] by (rule order_trans)
  show "t_svc t' d (t_view t d) i = 0"
    using t(2,3) [OF i] assms(6) [of i] by auto
next
  note t = votes_okD [OF assms(1)]
  assume "d \<notin> t_votes t d"
  moreover have "outstanding M t' d \<subseteq> outstanding M t d"
    unfolding outstanding_def assms(4)
  proof
    fix i assume i: "i \<in> {i \<in> M - {d}. t_view t' i < t_view t d \<or> 0 < t_svc t' d (t_view t d) i}"
    then have "t_view t i < t_view t d \<or> 0 < t_svc t d (t_view t d) i"
      using assms(6) [of i] order.strict_trans1 [OF assms(5) [of i]] by auto
    with i show "i \<in> {i \<in> M - {d}. t_view t i < t_view t d \<or> 0 < t_svc t d (t_view t d) i}" by blast
  qed
  ultimately show "card (t_votes t d \<union> outstanding M t' d) < q"
    using card_outstanding [OF assms(2) t(4) _ t(1)] by blast
qed

text \<open>Steps that send no vote and count none; a recovery may lead to a later view.\<close>

lemma once_quiet:
  assumes t: "once M q t" and "finite M"
    and same: "\<And>i. t_view t i \<le> t_view t' i" "\<And>i. t_votes t' i = t_votes t i"
      "\<And>i. t_changing t' i \<Longrightarrow> t_changing t i \<and> t_view t' i = t_view t i"
    and svc: "\<And>d v i. d \<in> M \<Longrightarrow> t_svc t' d v i \<le> t_svc t d v i"
    and dvc: "\<And>d v i. d \<in> M \<Longrightarrow> t_dvc t' d v i \<le> t_dvc t d v i"
  shows "once M q t'"
  unfolding once_def
proof (intro conjI ballI allI impI)
  fix d assume d: "d \<in> M"
  note t = onceD [OF t d]
  show "votes_ok M q t' d" if "t_changing t' d"
    using same(3) [OF that] by (intro votes_ok_fewer [OF t(3)]) (use \<open>finite M\<close> same(1,2) svc d in auto)
  fix v i
  show "t_svc t' d v i \<le> 1" "t_dvc t' d v i \<le> 1"
    using svc [OF d] dvc [OF d] t(1,4) by (meson order_trans)+
  show "i \<in> M" "i \<noteq> d" "v \<le> t_view t' i" if "0 < t_svc t' d v i"
    using t(2) [OF less_le_trans [OF that svc [OF d]]] same(1) [of i] by auto
  show "i \<in> M" "v \<le> t_view t' i" if "0 < t_dvc t' d v i"
    using t(5) [OF less_le_trans [OF that dvc [OF d]]] same(1) [of i] by auto
  show "i \<notin> t_votes t' i" if "0 < t_dvc t' d v i" "v = t_view t' i"
    using t(5) [OF less_le_trans [OF that(1) dvc [OF d]]] that(2) same(1,2) [of i] by auto
qed

text \<open>Entering the next view and broadcasting a StartViewChange.\<close>

lemma once_leave:
  assumes t: "once M q t" and "finite M" and j: "j \<in> M" and less: "t_view t j < t_view t' j"
    and view: "\<And>i. i \<noteq> j \<Longrightarrow> t_view t' i = t_view t i" and votes: "\<And>i. t_votes t' i = (if i = j then {j} else t_votes t i)"
    and changing: "\<And>i. i \<noteq> j \<Longrightarrow> t_changing t' i = t_changing t i"
    and svc: "\<And>d v i. d \<in> M \<Longrightarrow> t_svc t' d v i \<le> t_svc t d v i + (if d \<noteq> j \<and> v = t_view t' j \<and> i = j then 1 else 0)"
    and dvc: "\<And>d v i. d \<in> M \<Longrightarrow> t_dvc t' d v i \<le> t_dvc t d v i"
  shows "once M q t'"
  unfolding once_def
proof (intro conjI ballI allI impI)
  have mono: "t_view t i \<le> t_view t' i" for i
    using less view by (cases "i = j") auto
  fix d assume d: "d \<in> M"
  note t = onceD [OF t d]
  have new: "t_svc t d (t_view t' j) j = 0"
    using t(2) [of "t_view t' j" j] less by force
  show "votes_ok M q t' d" if "t_changing t' d"
  proof (cases "d = j")
    case True
    with j votes show ?thesis by (simp add: votes_ok_def)
  next
    case False
    then have "t_changing t d" using that changing by simp
    then show ?thesis
    proof (rule votes_ok_fewer [OF t(3)])
      show "t_svc t' d (t_view t d) i \<le> t_svc t d (t_view t d) i \<or> t_view t i < t_view t d" for i
        using svc [OF d, of "t_view t d" i] less by (auto split: if_splits)
    qed (use False \<open>finite M\<close> mono votes view in auto)
  qed
  fix v i
  show "t_svc t' d v i \<le> 1"
    using svc [OF d, of v i] new t(1) [of v i] by (auto split: if_splits)
  show "i \<in> M" "i \<noteq> d" "v \<le> t_view t' i" if pos: "0 < t_svc t' d v i"
    using svc [OF d, of v i] pos t(2) [of v i] j mono [of i] by (auto split: if_splits)
  show "t_dvc t' d v i \<le> 1"
    using dvc [OF d] t(4) by (meson order_trans)
  show "i \<in> M" "v \<le> t_view t' i" if "0 < t_dvc t' d v i"
    using t(5) [OF less_le_trans [OF that dvc [OF d]]] mono [of i] by auto
  show "i \<notin> t_votes t' i" if "0 < t_dvc t' d v i" "v = t_view t' i"
    using t(5) [OF less_le_trans [OF that(1) dvc [OF d]]] that(2) view votes less by (cases "i = j") auto
qed

text \<open>Counting the StartViewChange of \<open>k\<close> at \<open>e\<close>.\<close>

lemma once_vote:
  assumes t: "once M q t" and "finite M" and e: "e \<in> M" "t_changing t e" "0 < t_svc t e (t_view t e) k"
    and view: "\<And>i. t_view t' i = t_view t i" and votes: "\<And>i. t_votes t' i = (if i = e then insert k (t_votes t e) else t_votes t i)"
    and changing: "\<And>i. t_changing t' i \<Longrightarrow> t_changing t i"
    and svc: "\<And>d v i. d \<in> M \<Longrightarrow> t_svc t' d v i \<le> t_svc t d v i" "t_svc t' e (t_view t e) k < t_svc t e (t_view t e) k"
    and dvc: "\<And>d v i. d \<in> M \<Longrightarrow> t_dvc t' d v i \<le> t_dvc t d v i"
  shows "once M q t'"
  unfolding once_def
proof (intro conjI ballI allI impI)
  have k: "k \<in> M" "k \<noteq> e" "t_view t e \<le> t_view t k" "t_svc t' e (t_view t e) k = 0"
    using onceD(1,2) [OF t e(1), of "t_view t e" k] e(3) svc(2) by auto
  fix d assume d: "d \<in> M"
  show "votes_ok M q t' d" if "t_changing t' d"
  proof (cases "d = e")
    case True
    note v = votes_okD [OF onceD(3) [OF t e(1,2)]]
    have old: "t_svc t' e (t_view t e) i \<le> t_svc t e (t_view t e) i" for i
      using svc(1) [OF e(1)] .
    have "card (insert k (t_votes t e) \<union> outstanding M t' e) < q" if "e \<notin> t_votes t e"
    proof (rule card_outstanding [OF \<open>finite M\<close> v(4) [OF that] _ v(1)])
      have "outstanding M t' e \<subseteq> outstanding M t e"
      proof
        fix i assume "i \<in> outstanding M t' e"
        then show "i \<in> outstanding M t e"
          using old [of i] by (auto simp: outstanding_def view)
      qed
      then show "insert k (t_votes t e) \<union> outstanding M t' e \<subseteq> t_votes t e \<union> outstanding M t e"
        using k(1,2) e(3) by (auto simp: outstanding_def)
    qed
    moreover have "t_svc t' e (t_view t e) i = 0" if "i \<in> t_votes t e" "i \<noteq> e" for i
      using v(3) [OF that] old [of i] by simp
    ultimately show ?thesis
      using True v(1,2) k by (auto simp: votes_ok_def votes view)
  next
    case False
    then show ?thesis
      by (intro votes_ok_fewer [OF onceD(3) [OF t d changing [OF that]]]) (use \<open>finite M\<close> view votes svc d in auto)
  qed
  note t = onceD [OF t d]
  fix v i
  show "t_svc t' d v i \<le> 1" "t_dvc t' d v i \<le> 1"
    using svc(1) [OF d] dvc [OF d] t(1,4) by (meson order_trans)+
  show "i \<in> M" "i \<noteq> d" "v \<le> t_view t' i" if "0 < t_svc t' d v i"
    using t(2) [OF less_le_trans [OF that svc(1) [OF d]]] view by auto
  show "i \<in> M" "v \<le> t_view t' i" if "0 < t_dvc t' d v i"
    using t(5) [OF less_le_trans [OF that dvc [OF d]]] view by auto
  show "i \<notin> t_votes t' i" if "0 < t_dvc t' d v i" "v = t_view t' i"
    using t(5) [OF less_le_trans [OF that(1) dvc [OF d]]] that(2) view votes k(2) by auto
qed

text \<open>A quorum is reached at most once per view, and only by a replica that counts itself.\<close>

lemma quorum_once:
  assumes t: "once M q t" and "finite M" and e: "e \<in> M" "t_changing t e" "0 < t_svc t e (t_view t e) k"
    and quorum: "q \<le> card (insert k (t_votes t e))"
  shows "e \<in> t_votes t e" and "\<And>d. d \<in> M \<Longrightarrow> t_dvc t d (t_view t e) e = 0"
proof -
  note v = votes_okD [OF onceD(3) [OF t e(1,2)]]
  have k: "k \<in> M" "k \<noteq> e"
    using onceD(2) [OF t e(1,3)] by auto
  show mem: "e \<in> t_votes t e"
  proof (rule ccontr)
    assume no: "e \<notin> t_votes t e"
    have sub: "insert k (t_votes t e) \<subseteq> t_votes t e \<union> outstanding M t e"
      using k e(3) by (auto simp: outstanding_def)
    have "finite (t_votes t e \<union> outstanding M t e)"
      using \<open>finite M\<close> v(1) by (auto simp: outstanding_def intro: finite_subset)
    from card_mono [OF this sub] show False
      using v(4) [OF no] quorum by simp
  qed
  show "t_dvc t d (t_view t e) e = 0" if "d \<in> M" for d
    using onceD(5) [OF t that, of "t_view t e" e] mem by auto
qed

lemma once_promise:
  assumes t: "once M q t" and "finite M" "card M < 2 * q" and e: "e \<in> M" "t_changing t e" "0 < t_svc t e (t_view t e) k"
    and quorum: "q \<le> card (insert k (t_votes t e))"
    and view: "\<And>i. t_view t' i = t_view t i" and votes: "\<And>i. t_votes t' i = (if i = e then {} else t_votes t i)"
    and changing: "\<And>i. t_changing t' i \<Longrightarrow> t_changing t i"
    and svc: "\<And>d v i. d \<in> M \<Longrightarrow> t_svc t' d v i \<le> t_svc t d v i" "t_svc t' e (t_view t e) k < t_svc t e (t_view t e) k"
    and dvc: "\<And>d v i. d \<in> M \<Longrightarrow> t_dvc t' d v i \<le> t_dvc t d v i + (if v = t_view t e \<and> i = e then 1 else 0)"
  shows "once M q t'"
  unfolding once_def
proof (intro conjI ballI allI impI)
  have k: "k \<in> M" "k \<noteq> e" "t_view t e \<le> t_view t k" "t_svc t' e (t_view t e) k = 0"
    using onceD(1,2) [OF t e(1), of "t_view t e" k] e(3) svc(2) by auto
  note first = quorum_once [OF t \<open>finite M\<close> e quorum]
  note v = votes_okD [OF onceD(3) [OF t e(1,2)]]
  have few: "card (outstanding M t' e) < q"
  proof -
    have "t_svc t' e (t_view t e) i = 0" "t_view t e \<le> t_view t i" if "i \<in> t_votes t e" "i \<noteq> e" for i
      using v(2,3) [OF that] svc(1) [OF e(1), of "t_view t e" i] by auto
    then have "outstanding M t' e \<subseteq> M - insert k (t_votes t e)"
      using k first(1) by (fastforce simp: outstanding_def view)
    then have "card (outstanding M t' e) \<le> card (M - insert k (t_votes t e))"
      using \<open>finite M\<close> by (intro card_mono) auto
    also have "\<dots> = card M - card (insert k (t_votes t e))"
      using \<open>finite M\<close> v(1) k(1) by (intro card_Diff_subset) (auto intro: finite_subset)
    finally show ?thesis using quorum assms(3) by simp
  qed
  fix d assume d: "d \<in> M"
  show "votes_ok M q t' d" if "t_changing t' d"
  proof (cases "d = e")
    case True
    with few votes show ?thesis by (simp add: votes_ok_def)
  next
    case False
    then show ?thesis
      by (intro votes_ok_fewer [OF onceD(3) [OF t d changing [OF that]]]) (use \<open>finite M\<close> view votes svc d in auto)
  qed
  note t = onceD [OF t d]
  fix v i
  show "t_svc t' d v i \<le> 1"
    using svc(1) [OF d] t(1) by (meson order_trans)
  show "i \<in> M" "i \<noteq> d" "v \<le> t_view t' i" if "0 < t_svc t' d v i"
    using t(2) [OF less_le_trans [OF that svc(1) [OF d]]] view by auto
  show "t_dvc t' d v i \<le> 1"
    using dvc [OF d, of v i] t(4) [of v i] first(2) [OF d] by (auto split: if_splits)
  show "i \<in> M" "v \<le> t_view t' i" if pos: "0 < t_dvc t' d v i"
    using dvc [OF d, of v i] pos t(5) [of v i] e(1) view by (auto split: if_splits)
  show "i \<notin> t_votes t' i" if "0 < t_dvc t' d v i" "v = t_view t' i"
    using dvc [OF d, of v i] that t(5) [of v i] view votes by (auto split: if_splits)
qed

section \<open>The votes of a cluster\<close>

definition key :: "vsr_message \<Rightarrow> command \<times> u32 \<times> int" where
  "key m = (h_command (msg_header m), h_view (msg_header m), uint (h_replica (msg_header m)))"

definition occurrences :: "command \<times> u32 \<times> int \<Rightarrow> vsr_message multiset \<Rightarrow> nat" where
  "occurrences k X = size {#m \<in># X. key m = k#}"

definition addressed :: "int \<Rightarrow> packet multiset \<Rightarrow> vsr_message multiset" where
  "addressed d N = image_mset snd {#p \<in># N. fst p = d#}"

definition pending :: "cluster \<Rightarrow> int \<Rightarrow> vsr_message multiset" where
  "pending c d = addressed d (cs_network c) + mset (map in_message (r_message_queue (cs_replica c d)))"

definition tally_of :: "cluster \<Rightarrow> tally" where
  "tally_of c = (let s = (\<lambda>i. r_state (cs_replica c i)) in
     \<lparr>t_view = (\<lambda>i. st_view (s i)), t_changing = (\<lambda>i. st_status (s i) = VIEW_CHANGE),
      t_votes = (\<lambda>i. st_start_view_change_received (s i)),
      t_svc = (\<lambda>d v i. occurrences (command_start_view_change, v, i) (pending c d)),
      t_dvc = (\<lambda>d v i. occurrences (command_do_view_change, v, i) (pending c d) +
         occurrences (command_do_view_change, v, i) (mset (st_do_view_change_received (s d))))\<rparr>)"

lemma occurrences_simps [simp]:
  "occurrences k {#} = 0" "occurrences k (add_mset m X) = (if key m = k then Suc (occurrences k X) else occurrences k X)"
  "occurrences k (X + Y) = occurrences k X + occurrences k Y"
  by (simp_all add: occurrences_def)

lemma occurrences_mono: "X \<subseteq># Y \<Longrightarrow> occurrences k X \<le> occurrences k Y"
  by (simp add: occurrences_def multiset_filter_mono size_mset_mono)

lemma occurrences_0: "(\<And>m. m \<in># X \<Longrightarrow> key m \<noteq> k) \<Longrightarrow> occurrences k X = 0"
  by (induction X) auto

lemma occurrences_pos: "m \<in># X \<Longrightarrow> 0 < occurrences (key m) X"
  by (induction X) auto

lemma addressed_simps [simp]:
  "addressed d {#} = {#}" "addressed d (X + Y) = addressed d X + addressed d Y"
  "addressed d (add_mset p X) = (if fst p = d then add_mset (snd p) (addressed d X) else addressed d X)"
  by (simp_all add: addressed_def)

lemma addressed_mono: "X \<subseteq># Y \<Longrightarrow> addressed d X \<subseteq># addressed d Y"
  by (simp add: addressed_def image_mset_subseteq_mono multiset_filter_mono)

lemma addressed_delivered:
  assumes "(i, m) \<in># N"
  shows "addressed d N = addressed d (N - {#(i, m)#}) + (if d = i then {#m#} else {#})"
proof -
  have "N = (N - {#(i, m)#}) + {#(i, m)#}"
    using assms by simp
  then have "addressed d N = addressed d ((N - {#(i, m)#}) + {#(i, m)#})" by simp
  then show ?thesis by (simp only: addressed_simps) simp
qed

lemma in_addressed: "m \<in># addressed d N \<longleftrightarrow> (d, m) \<in># N"
  by (force simp: addressed_def)

lemma tally_simps [simp]:
  "t_view (tally_of c) i = st_view (r_state (cs_replica c i))"
  "t_changing (tally_of c) i \<longleftrightarrow> st_status (r_state (cs_replica c i)) = VIEW_CHANGE"
  "t_votes (tally_of c) i = st_start_view_change_received (r_state (cs_replica c i))"
  "t_svc (tally_of c) d v i = occurrences (command_start_view_change, v, i) (pending c d)"
  "t_dvc (tally_of c) d v i = occurrences (command_do_view_change, v, i) (pending c d) +
     occurrences (command_do_view_change, v, i) (mset (st_do_view_change_received (r_state (cs_replica c d))))"
  by (simp_all add: tally_of_def Let_def)

lemma key_prepared [simp]: "key (prepared_message blake3 m) = key m"
  by (simp add: key_def)

text \<open>The messages of a view change, and steps of a replica that send none.\<close>

definition election :: "vsr_message \<Rightarrow> bool" where
  "election m \<longleftrightarrow> h_command (msg_header m) \<in> {command_start_view_change, command_do_view_change}"

text \<open>A well-formed message that is no vote.\<close>

definition mild :: "vsr_message \<Rightarrow> bool" where
  "mild m \<longleftrightarrow> \<not> election m \<and> wf_message m"

definition sends :: "(vsr_message \<Rightarrow> bool) \<Rightarrow> replica \<Rightarrow> replica \<Rightarrow> bool" where
  "sends P r r' \<longleftrightarrow> (\<exists>acts. r_outbox r' = r_outbox r @ acts \<and> (\<forall>x\<in>set acts. \<forall>m. message_of x = Some m \<longrightarrow> P m))"

abbreviation no_election :: "replica \<Rightarrow> replica \<Rightarrow> bool" where
  "no_election \<equiv> sends mild"

lemma sends_same: "r_outbox r' = r_outbox r \<Longrightarrow> sends P r r'"
  by (simp add: sends_def)

lemma sends_emit: "sends P r r' \<Longrightarrow> (\<And>m. message_of x = Some m \<Longrightarrow> P m) \<Longrightarrow> sends P r (emit x r')"
  by (force simp: sends_def)

lemma sends_trans: "sends P r r' \<Longrightarrow> sends P r' r'' \<Longrightarrow> sends P r r''"
  by (force simp: sends_def)

lemma execute_entry_sends: "no_election r (execute_entry e r)"
  by (auto simp: execute_entry_def send_reply_def reply_message_def mild_def election_def wf_message_def wf_header_def
      zero_header_def new_message_def Let_def sends_def
      split: option.splits prod.splits)

lemma execute_sends [intro]: "no_election r0 r \<Longrightarrow> no_election r0 (execute_commited_ops r)"
proof (induction r rule: execute_commited_ops_induct)
  case (stop r)
  then show ?case by simp
next
  case (advance r e)
  have "no_election r (execute_next e r)"
    using execute_entry_sends [of r e] by (simp add: execute_next_def sends_def)
  with advance show ?case
    by (metis sends_trans)
qed

lemma learn_commit_sends: "no_election r0 r \<Longrightarrow> no_election r0 (learn_commit k r)"
  by (simp add: learn_commit_def) (intro impI execute_sends, simp add: sends_def)

lemma advance_sends: "no_election r0 r \<Longrightarrow> no_election r0 (advance_primary_commit_number r)"
  by (simp add: advance_primary_commit_number_def del: advance_loop.simps)
    (intro impI execute_sends, simp add: sends_def)

lemma retroactive_sends: "no_election r0 r \<Longrightarrow> no_election r0 (retroactive_loop n op p r)"
proof (induction n arbitrary: op r)
  case (Suc n)
  have "no_election r0 (emit (Send_to_peer p (prepare_ok_message (r_state r) op)) r)"
    using Suc.prems by (rule sends_emit) (auto simp: mild_def election_def prepare_ok_message_def wf_message_def wf_header_def zero_header_def)
  with Suc show ?case
    by (simp add: retroactive_loop.simps(2))
qed simp

lemma wf_message_with [simp]:
  "wf_message (message_with (zero_header\<lparr>h_command := k, h_view := v, h_replica := i\<rparr>) p) = wf_command k"
  by (simp add: wf_message_def wf_header_def zero_header_def message_with_def)

lemma mild_messages [simp]:
  "mild (prepare_ok_message s k)" "mild (start_view_message s)"
  "wf_message (in_message inbound) \<Longrightarrow> mild (prepare_message inbound s)"
  "mild (cached_reply inbound res)" "mild (recovery_response_message s n)"
  by (simp_all add: mild_def election_def prepare_ok_message_def start_view_message_def prepare_message_def
      cached_reply_def recovery_response_message_def wf_message_def wf_header_def)
    (simp_all add: zero_header_def)

lemma learn_commit_votes [simp]:
  "st_view (r_state (learn_commit k r)) = st_view (r_state r)"
  "st_status (r_state (learn_commit k r)) = st_status (r_state r)"
  "st_start_view_change_received (r_state (learn_commit k r)) = st_start_view_change_received (r_state r)"
  "st_do_view_change_received (r_state (learn_commit k r)) = st_do_view_change_received (r_state r)"
  by (simp_all add: learn_commit_def)

lemma advance_votes [simp]:
  "st_view (r_state (advance_primary_commit_number r)) = st_view (r_state r)"
  "st_status (r_state (advance_primary_commit_number r)) = st_status (r_state r)"
  "st_start_view_change_received (r_state (advance_primary_commit_number r)) = st_start_view_change_received (r_state r)"
  "st_do_view_change_received (r_state (advance_primary_commit_number r)) = st_do_view_change_received (r_state r)"
proof -
  define s where "s = advance_loop (Suc (length (st_log (r_state r)))) (r_state r)"
  have frame: "s = (r_state r)\<lparr>st_commit := st_commit s\<rparr>"
    unfolding s_def by (rule advance_loop_frame)
  have s: "st_view s = st_view (r_state r)" "st_status s = st_status (r_state r)"
    "st_start_view_change_received s = st_start_view_change_received (r_state r)"
    "st_do_view_change_received s = st_do_view_change_received (r_state r)"
    by (subst frame, simp)+
  show "st_view (r_state (advance_primary_commit_number r)) = st_view (r_state r)"
    "st_status (r_state (advance_primary_commit_number r)) = st_status (r_state r)"
    "st_start_view_change_received (r_state (advance_primary_commit_number r)) = st_start_view_change_received (r_state r)"
    "st_do_view_change_received (r_state (advance_primary_commit_number r)) = st_do_view_change_received (r_state r)"
    using s by (simp_all add: advance_primary_commit_number_def s_def del: advance_loop.simps)
qed

definition harmless :: "replica \<Rightarrow> replica \<Rightarrow> bool" where
  "harmless r r' \<longleftrightarrow> no_election r r' \<and> st_view (r_state r) \<le> st_view (r_state r') \<and>
     st_start_view_change_received (r_state r') = st_start_view_change_received (r_state r) \<and>
     (st_status (r_state r') = VIEW_CHANGE \<longrightarrow>
        st_status (r_state r) = VIEW_CHANGE \<and> st_view (r_state r') = st_view (r_state r))"

definition keeps :: "vsr_message list \<Rightarrow> replica \<Rightarrow> replica \<Rightarrow> bool" where
  "keeps ms r r' \<longleftrightarrow> st_do_view_change_received (r_state r') = [] \<or>
     st_do_view_change_received (r_state r') = st_do_view_change_received (r_state r) @ ms"

lemma do_view_change_harmless:
  "harmless r (handle_do_view_change env inbound r) \<and> keeps [in_message inbound] r (handle_do_view_change env inbound r)"
proof -
  let ?received = "st_do_view_change_received (r_state r) @ [in_message inbound]"
  obtain bp bo mc where sel: "fold (select_next (env_junk env)) (tl ?received)
      (select_first (env_junk env) (st_commit (r_state r)) (hd ?received)) = (bp, bo, mc)"
    by (metis prod.exhaust)
  have "no_election r (emit (Broadcast_to_peers (start_view_message s)) (r\<lparr>r_state := s\<rparr>))" for s
    by (intro sends_emit sends_same) auto
  then show ?thesis
    using sel
    by (auto simp: handle_do_view_change_def Let_def harmless_def keeps_def intro!: execute_sends intro: sends_same)
qed

lemma prepare_harmless:
  "harmless r (handle_prepare env inbound r) \<and> keeps [] r (handle_prepare env inbound r)"
  unfolding harmless_def keeps_def
  by (auto simp: handle_prepare_def Let_def intro!: learn_commit_sends sends_emit intro: sends_same)

lemma start_view_harmless:
  assumes "check_can_process_start_view (r_state r) (in_message inbound)"
  shows "harmless r (handle_start_view env inbound r) \<and> keeps [] r (handle_start_view env inbound r)"
proof -
  have "h_view (in_header inbound) = st_view (r_state r)"
    using assms by (auto simp: check_can_process_start_view_def split: if_splits)
  then show ?thesis
    unfolding harmless_def keeps_def
    by (auto simp: handle_start_view_def Let_def split: prod.splits bool.splits
        intro!: retroactive_sends execute_sends intro: sends_same)
qed

lemma request_harmless: "wf_message (in_message inbound) \<Longrightarrow> harmless r (handle_request inbound r) \<and> keeps [] r (handle_request inbound r)"
  unfolding harmless_def keeps_def
  by (auto simp: handle_request_def Let_def intro!: sends_emit intro: sends_same)

lemma prepare_ok_harmless: "harmless r (handle_prepare_ok inbound r) \<and> keeps [] r (handle_prepare_ok inbound r)"
  unfolding harmless_def keeps_def
  by (auto simp: handle_prepare_ok_def Let_def intro!: advance_sends intro: sends_same split: option.splits)

lemma adopt_recovery_harmless:
  "no_election r (adopt_recovery env best r)" "st_status (r_state (adopt_recovery env best r)) = NORMAL"
  "st_start_view_change_received (r_state (adopt_recovery env best r)) = st_start_view_change_received (r_state r)"
  "st_do_view_change_received (r_state (adopt_recovery env best r)) = st_do_view_change_received (r_state r)"
proof -
  have "no_election r (set_state f (execute_commited_ops r1))" if "r_outbox r1 = r_outbox r" for f r1
    using execute_sends [OF sends_same [OF that]] by (simp add: sends_def)
  then show "no_election r (adopt_recovery env best r)"
    unfolding adopt_recovery_def Let_def by this simp
qed (simp_all add: adopt_recovery_def Let_def)

lemma recovery_response_harmless:
  assumes "st_status (r_state r) = RECOVERY" and "st_view (r_state r) \<le> st_view (r_state (handle_recovery_response env inbound r))"
  shows "harmless r (handle_recovery_response env inbound r) \<and> keeps [] r (handle_recovery_response env inbound r)"
proof -
  have same: "harmless r r \<and> keeps [] r r"
    by (simp add: harmless_def keeps_def sends_same)
  obtain ok p where d: "recovery_response_deserialize (in_payload inbound) \<lparr>rs_nonce = uint128_zero, rs_log = []\<rparr> = (ok, p)"
    by (metis prod.exhaust)
  let ?ms = "st_recovery_responses (r_state r) @ [in_message inbound]"
  let ?r1 = "set_state (\<lambda>s. s\<lparr>st_recovery_responses := ?ms\<rparr>) r"
  let ?r2 = "adopt_recovery env (fold better_response (tl ?ms) (hd ?ms)) ?r1"
  have stay: "harmless r ?r1 \<and> keeps [] r ?r1"
    using assms(1) by (simp add: harmless_def keeps_def sends_same)
  have adopt: "harmless r ?r2 \<and> keeps [] r ?r2" if "st_view (r_state r) \<le> st_view (r_state ?r2)"
    using that adopt_recovery_harmless [where r = ?r1 and env = env] by (simp add: harmless_def keeps_def sends_def)
  have "handle_recovery_response env inbound r \<in> {r, ?r1, ?r2}"
    unfolding handle_recovery_response_def d Let_def by (cases ok) simp_all
  then show ?thesis
    using same stay adopt assms(2) by (elim insertE emptyE) simp_all
qed

lemma dispatch_harmless:
  assumes "h_command (in_header inbound) \<noteq> command_start_view_change" and "can_process (r_state r) inbound"
    and "st_view (r_state r) \<le> st_view (r_state (dispatch env inbound r))" and "wf_message (in_message inbound)"
  shows "harmless r (dispatch env inbound r) \<and>
     keeps (if h_command (in_header inbound) = command_do_view_change then [in_message inbound] else [])
       r (dispatch env inbound r)"
proof (cases "h_command (in_header inbound)")
  case command_recovery_response
  then show ?thesis
    using assms recovery_response_harmless
    by (simp add: dispatch_def can_process_def Let_def check_can_process_recovery_response_def)
next
  case command_start_view
  with assms(2) show ?thesis
    using start_view_harmless by (simp add: dispatch_def can_process_def Let_def)
next
  case command_ping
  then show ?thesis
    by (auto simp: dispatch_def handle_ping_def Let_def harmless_def keeps_def mild_def election_def wf_message_def
        wf_header_def zero_header_def
        intro!: sends_emit intro: sends_same)
next
  case command_recovery
  then show ?thesis
    by (auto simp: dispatch_def handle_recovery_request_def Let_def harmless_def keeps_def intro!: sends_emit intro: sends_same split: prod.splits bool.splits)
next
  case command_commit
  then show ?thesis
    by (auto simp: dispatch_def handle_commit_def harmless_def keeps_def intro!: learn_commit_sends intro: sends_same)
next
  case command_do_view_change
  then show ?thesis
    using do_view_change_harmless by (simp add: dispatch_def)
next
  case command_prepare
  then show ?thesis
    using prepare_harmless by (simp add: dispatch_def)
next
  case command_request
  then show ?thesis
    using request_harmless assms(4) by (simp add: dispatch_def)
next
  case command_prepare_ok
  then show ?thesis
    using prepare_ok_harmless by (simp add: dispatch_def)
qed (use assms(1) in \<open>simp_all add: dispatch_def harmless_def keeps_def sends_same\<close>)

section \<open>Every run counts a vote at most once\<close>

lemma addressed_copies: "addressed d (image_mset (\<lambda>i. (i, m)) X) = replicate_mset (count X d) m"
  by (induction X) auto

lemma addressed_broadcast:
  "finite M \<Longrightarrow> addressed d (transmit M j (Broadcast_to_peers m)) = (if d \<in> M - {j} then {#m#} else {#})"
  by (simp add: addressed_copies)

lemma pending_moves:
  "pending (replica_moves M j r' c) d = addressed d (cs_network c) + addressed d (new_packets M j (cs_replica c j) r') +
     mset (map in_message (r_message_queue (if d = j then r' else cs_replica c d)))"
  by (simp add: pending_def replica_moves_def)

lemma moved_replica [simp]: "cs_replica (replica_moves M j r' c) i = (if i = j then r' else cs_replica c i)"
  by (simp add: replica_moves_def)

lemma no_election_packets:
  assumes "no_election r r'" and "k = command_start_view_change \<or> k = command_do_view_change"
  shows "occurrences (k, v, i) (addressed d (new_packets M j r r')) = 0"
proof (rule occurrences_0)
  fix m assume "m \<in># addressed d (new_packets M j r r')"
  moreover obtain acts where acts: "r_outbox r' = r_outbox r @ acts"
    "\<forall>x\<in>set acts. \<forall>m. message_of x = Some m \<longrightarrow> mild m"
    using assms(1) by (auto simp: sends_def)
  ultimately have "\<not> election m"
    by (auto simp: mild_def in_addressed new_packets_append set_sum_list_mset dest!: transmit_message)
  with assms(2) show "key m \<noteq> (k, v, i)"
    by (auto simp: key_def election_def)
qed

abbreviation queued :: "replica \<Rightarrow> vsr_message multiset" where
  "queued r \<equiv> mset (map in_message (r_message_queue r))"

lemma once_harmless:
  assumes once: "once M q (tally_of c)" and "finite M" and h: "harmless (cs_replica c j) r'"
    and svc: "\<And>v i. occurrences (command_start_view_change, v, i) (queued r') \<le>
      occurrences (command_start_view_change, v, i) (queued (cs_replica c j))"
    and dvc: "\<And>v i. occurrences (command_do_view_change, v, i)
        (queued r' + mset (st_do_view_change_received (r_state r'))) \<le>
      occurrences (command_do_view_change, v, i)
        (queued (cs_replica c j) + mset (st_do_view_change_received (r_state (cs_replica c j))))"
  shows "once M q (tally_of (replica_moves M j r' c))"
proof (rule once_quiet [OF once \<open>finite M\<close>])
  have none: "occurrences (k, v, i) (addressed d (new_packets M j (cs_replica c j) r')) = 0"
    if "k = command_start_view_change \<or> k = command_do_view_change" for k v i d
    using h that by (intro no_election_packets) (simp_all add: harmless_def)
  show "t_svc (tally_of (replica_moves M j r' c)) d v i \<le> t_svc (tally_of c) d v i" for d v i
    using svc [of v i] none by (simp add: pending_moves) (simp add: pending_def)
  show "t_dvc (tally_of (replica_moves M j r' c)) d v i \<le> t_dvc (tally_of c) d v i" for d v i
    using dvc [of v i] none by (simp add: pending_moves) (simp add: pending_def)
qed (use h in \<open>auto simp: harmless_def split: if_splits\<close>)

lemma once_enter_view:
  assumes once: "once M q (tally_of c)" and "finite M" and j: "j \<in> M" "st_id (r_state (cs_replica c j)) = j"
      "uint (word_of_int j :: byte) = j"
    and view: "st_view (r_state (cs_replica c j)) \<noteq> - 1"
    and r': "r_state r' = enter_new_view (st_view (r_state (cs_replica c j)) + 1) (r_state (cs_replica c j))"
      "r_message_queue r' = r_message_queue (cs_replica c j)"
      "r_outbox r' = r_outbox (cs_replica c j) @ Broadcast_to_peers (message_with (zero_header\<lparr>h_command :=
         command_start_view_change, h_view := st_view (r_state r'), h_replica := word_of_int j\<rparr>) []) # acts"
    and silent: "\<forall>x\<in>set acts. message_of x = None"
  shows "once M q (tally_of (replica_moves M j r' c))"
proof (rule once_leave [OF once \<open>finite M\<close> j(1)])
  define m where "m = message_with (zero_header\<lparr>h_command :=
         command_start_view_change, h_view := st_view (r_state r'), h_replica := word_of_int j\<rparr>) []"
  have key: "key m = (command_start_view_change, st_view (r_state r'), j)"
    using j(3) by (simp add: m_def key_def)
  have "(\<Sum>x\<leftarrow>acts. transmit M j x) = {#}"
    using silent
  proof (induction acts)
    case (Cons x xs)
    then show ?case by (cases x) simp_all
  qed simp
  then have packets: "addressed d (new_packets M j (cs_replica c j) r') = (if d \<in> M - {j} then {#m#} else {#})" for d
    using r'(3) addressed_broadcast [OF \<open>finite M\<close>, of d j m] by (simp add: new_packets_append m_def)
  have state: "st_view (r_state r') = st_view (r_state (cs_replica c j)) + 1"
    "st_start_view_change_received (r_state r') = {j}" "st_do_view_change_received (r_state r') = []"
    using r'(1) j(2) by (simp_all add: enter_new_view_def Let_def)
  have "st_view (r_state (cs_replica c j)) < st_view (r_state (cs_replica c j)) + 1"
    using unat_plus_one [OF view] by (simp add: word_less_nat_alt)
  then show "t_view (tally_of c) j < t_view (tally_of (replica_moves M j r' c)) j"
    by (simp add: state)
  show "t_svc (tally_of (replica_moves M j r' c)) d v i \<le> t_svc (tally_of c) d v i +
      (if d \<noteq> j \<and> v = t_view (tally_of (replica_moves M j r' c)) j \<and> i = j then 1 else 0)" for d v i
    using r'(2) key by (auto simp: pending_moves packets) (auto simp: pending_def)
  show "t_dvc (tally_of (replica_moves M j r' c)) d v i \<le> t_dvc (tally_of c) d v i" for d v i
    using r'(2) key by (auto simp: pending_moves packets state) (auto simp: pending_def)
qed (use r' j in \<open>auto simp: enter_new_view_def Let_def\<close>)

text \<open>Handling a StartViewChange.\<close>

lemma start_view_change_quorum:
  fixes inbound :: inbound_message and r :: replica and env :: environment
  defines "A \<equiv> insert (uint (h_replica (in_header inbound))) (st_start_view_change_received (r_state r))"
    and "r' \<equiv> handle_start_view_change env inbound r"
  assumes quorum: "quorum (r_state r) \<le> card A"
  shows "st_view (r_state r') = st_view (r_state r)" and "st_start_view_change_received (r_state r') = {}"
    and "st_status (r_state r') = VIEW_CHANGE \<Longrightarrow> st_status (r_state r) = VIEW_CHANGE"
    and "r_message_queue r' = r_message_queue r"
    and "no_election r r' \<and> keeps [do_view_change_message (r_state r)] r r' \<or>
      (\<exists>p. r_outbox r' = r_outbox r @ [Send_to_peer p (do_view_change_message (r_state r))]) \<and> keeps [] r r'"
proof -
  let ?s = "(r_state r)\<lparr>st_start_view_change_received := {}\<rparr>"
  let ?r = "r\<lparr>r_state := ?s\<rparr>" and ?m = "do_view_change_message (r_state r)"
  have m: "do_view_change_message ?s = ?m"
    by (simp add: do_view_change_message_def)
  have r': "r' = (if get_primary_id_for_view (st_view ?s) ?s = st_id ?s
      then handle_do_view_change env \<lparr>in_connection = None, in_message = ?m\<rparr> ?r
      else emit (Send_to_peer (get_primary_id_for_view (st_view ?s) ?s) ?m) ?r)"
    using quorum by (simp add: r'_def A_def handle_start_view_change_def Let_def m)
  note own = do_view_change_harmless [of ?r env "\<lparr>in_connection = None, in_message = ?m\<rparr>"]
  show "st_view (r_state r') = st_view (r_state r)" "st_start_view_change_received (r_state r') = {}"
    "st_status (r_state r') = VIEW_CHANGE \<Longrightarrow> st_status (r_state r) = VIEW_CHANGE"
    "r_message_queue r' = r_message_queue r"
    using own by (auto simp: r' harmless_def split: if_splits)
  show "no_election r r' \<and> keeps [?m] r r' \<or>
      (\<exists>p. r_outbox r' = r_outbox r @ [Send_to_peer p ?m]) \<and> keeps [] r r'"
    using own by (auto simp: r' harmless_def keeps_def sends_def)
qed

lemma start_view_change_vote:
  fixes inbound :: inbound_message and r :: replica and env :: environment
  defines "A \<equiv> insert (uint (h_replica (in_header inbound))) (st_start_view_change_received (r_state r))"
  assumes "\<not> quorum (r_state r) \<le> card A"
  shows "handle_start_view_change env inbound r = r\<lparr>r_state := (r_state r)\<lparr>st_start_view_change_received := A\<rparr>\<rparr>"
  using assms(2) by (simp add: handle_start_view_change_def Let_def A_def)

lemma occurrences_send: "occurrences k (addressed d (transmit M j (Send_to_peer p m))) \<le> (if key m = k then 1 else 0)"
  by simp

lemma once_start_view_change:
  assumes once: "once M q (tally_of c)" and M: "finite M" "card M < 2 * q" and j: "j \<in> M"
      "st_id (r_state (cs_replica c j)) = j" "uint (word_of_int j :: byte) = j" "quorum (r_state (cs_replica c j)) = q"
    and queue: "r_message_queue (cs_replica c j) = inbound # rest"
    and command: "h_command (in_header inbound) = command_start_view_change"
    and guard: "check_can_process_start_view_change (r_state (cs_replica c j)) (in_message inbound)"
  shows "once M q (tally_of (replica_moves M j
    (handle_start_view_change env inbound ((cs_replica c j)\<lparr>r_message_queue := rest\<rparr>)) c))"
proof -
  let ?r = "cs_replica c j"
  let ?popped = "?r\<lparr>r_message_queue := rest\<rparr>" and ?s = "r_state ?r" and ?k = "uint (h_replica (in_header inbound))"
  let ?A = "insert ?k (st_start_view_change_received ?s)"
  define r' where "r' = handle_start_view_change env inbound ?popped"
  have view: "h_view (in_header inbound) = st_view ?s" "st_status ?s = VIEW_CHANGE"
    using guard by (simp_all add: check_can_process_start_view_change_def)
  then have key: "key (in_message inbound) = (command_start_view_change, st_view ?s, ?k)"
    using command by (simp add: key_def)
  have pos: "0 < t_svc (tally_of c) j (t_view (tally_of c) j) ?k"
    using queue key by (simp add: pending_def)
  show ?thesis
  proof (cases "quorum ?s \<le> card ?A")
    case False
    then have "r' = ?popped\<lparr>r_state := ?s\<lparr>st_start_view_change_received := ?A\<rparr>\<rparr>"
      unfolding r'_def using start_view_change_vote [of ?popped inbound env] by simp
    then have r': "r_message_queue r' = rest" "r_outbox r' = r_outbox ?r"
      "r_state r' = ?s\<lparr>st_start_view_change_received := ?A\<rparr>"
      by simp_all
    then have none: "new_packets M j ?r r' = {#}"
      by (simp add: new_packets_def)
    have "once M q (tally_of (replica_moves M j r' c))"
    proof (rule once_vote [OF once M(1) j(1) _ pos])
      show "t_svc (tally_of (replica_moves M j r' c)) d v i \<le> t_svc (tally_of c) d v i" for d v i
        using r' none queue by (simp add: pending_moves) (simp add: pending_def)
      show "t_svc (tally_of (replica_moves M j r' c)) j (t_view (tally_of c) j) ?k < t_svc (tally_of c) j (t_view (tally_of c) j) ?k"
        using r' none queue key by (simp add: pending_moves) (simp add: pending_def)
      show "t_dvc (tally_of (replica_moves M j r' c)) d v i \<le> t_dvc (tally_of c) d v i" for d v i
        using r' none queue by (simp add: pending_moves) (simp add: pending_def)
    qed (use view r'(3) in \<open>simp_all split: if_splits\<close>)
    then show ?thesis by (simp add: r'_def)
  next
    case True
    note h = start_view_change_quorum [of ?popped inbound env, folded r'_def, simplified, OF True]
    have m: "key (do_view_change_message ?s) = (command_do_view_change, st_view ?s, j)"
      using j(2,3) by (simp add: key_def do_view_change_message_def)
    have packets: "occurrences (command_start_view_change, v, i) (addressed d (new_packets M j ?r r')) = 0 \<and>
        occurrences (command_do_view_change, v, i) (addressed d (new_packets M j ?r r')) +
          (if d = j then occurrences (command_do_view_change, v, i) (mset (st_do_view_change_received (r_state r'))) else 0)
        \<le> (if d = j then occurrences (command_do_view_change, v, i) (mset (st_do_view_change_received ?s)) else 0) +
          (if v = st_view ?s \<and> i = j then 1 else 0)" for v i d
      using h(5)
    proof (elim disjE conjE exE)
      assume ne: "no_election ?popped r'" and keep: "keeps [do_view_change_message ?s] ?popped r'"
      have "no_election ?r r'"
        using ne by (simp add: sends_def)
      with keep m show ?thesis
        by (auto simp: no_election_packets keeps_def)
    next
      fix p assume out: "r_outbox r' = r_outbox ?r @ [Send_to_peer p (do_view_change_message ?s)]"
        and keep: "keeps [] ?popped r'"
      then show ?thesis
        using m by (auto simp: new_packets_append keeps_def)
    qed
    have "once M q (tally_of (replica_moves M j r' c))"
    proof (rule once_promise [OF once M j(1) _ pos])
      show "q \<le> card (insert ?k (t_votes (tally_of c) j))"
        using True j(4) by simp
      show "t_svc (tally_of (replica_moves M j r' c)) d v i \<le> t_svc (tally_of c) d v i" for d v i
        using h(4) packets [of v i d] queue by (simp add: pending_moves) (simp add: pending_def)
      show "t_svc (tally_of (replica_moves M j r' c)) j (t_view (tally_of c) j) ?k < t_svc (tally_of c) j (t_view (tally_of c) j) ?k"
        using h(4) packets queue key by (simp add: pending_moves) (simp add: pending_def)
      show "t_dvc (tally_of (replica_moves M j r' c)) d v i \<le> t_dvc (tally_of c) d v i +
          (if v = t_view (tally_of c) j \<and> i = j then 1 else 0)" for d v i
        using h(4) packets [of v i d] queue key
        by (cases "d = j"; cases "v = st_view ?s \<and> i = j") (simp_all add: pending_moves, auto simp: pending_def)
    qed (use view h in \<open>simp_all split: if_splits\<close>)
    then show ?thesis by (simp add: r'_def)
  qed
qed

lemma initiate_recovery_harmless:
  "st_status (r_state r) = NORMAL \<Longrightarrow> harmless r ((initiate_recovery env r)\<lparr>r_message_queue := []\<rparr>)"
  by (auto simp: harmless_def initiate_recovery_def sends_def mild_def election_def wf_message_def wf_header_def
      zero_header_def Let_def split: prod.splits)

lemma initiate_recovery_quiet [simp]:
  "st_do_view_change_received (r_state (initiate_recovery env r)) = st_do_view_change_received (r_state r)"
  by (simp add: initiate_recovery_def Let_def split: prod.splits)

lemma once_turn:
  assumes step: "queue_step (cs_replica c j) r'" and once: "once M q (tally_of c)" and M: "finite M" "card M < 2 * q"
    and j: "j \<in> M" "st_id (r_state (cs_replica c j)) = j" "uint (word_of_int j :: byte) = j"
      "quorum (r_state (cs_replica c j)) = q" "st_view (r_state (cs_replica c j)) \<noteq> - 1"
    and ok: "replica_ok (cs_replica c j)"
    and wf: "\<forall>inbound\<in>set (r_message_queue (cs_replica c j)). wf_message (in_message inbound)"
  shows "once M q (tally_of (replica_moves M j r' c))"
  using step
proof (cases rule: queue_step.cases)
  case (discard inbound rest)
  then show ?thesis
    by (intro once_harmless [OF once M(1)]) (simp_all add: harmless_def sends_same)
next
  case (handle inbound rest env)
  let ?popped = "(cs_replica c j)\<lparr>r_message_queue := rest\<rparr>"
  show ?thesis
  proof (cases "h_command (in_header inbound) = command_start_view_change")
    case True
    with handle once_start_view_change [OF once M j(1-4) handle(2) True] show ?thesis
      by (simp add: dispatch_def can_process_def Let_def)
  next
    case False
    have "st_view (r_state ?popped) \<le> st_view (r_state (dispatch env inbound ?popped))"
      using ok handle by (intro dispatch_view replica_ok_pop) simp_all
    with False handle have "harmless ?popped r'" and k: "keeps (if h_command (in_header inbound) = command_do_view_change
        then [in_message inbound] else []) ?popped r'" and "r_message_queue r' = rest"
      using dispatch_harmless [of inbound ?popped env] wf by auto
    then have h: "harmless (cs_replica c j) r'" "r_message_queue r' = rest"
      by (simp_all add: harmless_def sends_def)
    then show ?thesis
    proof (intro once_harmless [OF once M(1)])
      show "occurrences (command_do_view_change, v, i)
          (queued r' + mset (st_do_view_change_received (r_state r'))) \<le> occurrences (command_do_view_change, v, i)
          (queued (cs_replica c j) + mset (st_do_view_change_received (r_state (cs_replica c j))))" for v i
        using k h(2) handle(2) by (auto simp: keeps_def key_def split: if_splits)
    qed (use handle in simp_all)
  qed
next
  case (recover inbound rest env)
  then show ?thesis
    by (intro once_harmless [OF once M(1)]) (simp_all add: initiate_recovery_harmless)
next
  case (join inbound rest)
  show ?thesis
    by (rule once_enter_view [OF once M(1) j(1-3,5), where acts = "[]"])
      (use j(2) in \<open>simp_all add: join initiate_view_change_def Let_def, simp add: enter_new_view_def Let_def\<close>)
qed

lemma once_liveness:
  assumes once: "once M q (tally_of c)" and M: "finite M"
    and j: "j \<in> M" "st_id (r_state (cs_replica c j)) = j" "uint (word_of_int j :: byte) = j"
      "st_view (r_state (cs_replica c j)) \<noteq> - 1"
  shows "once M q (tally_of (replica_moves M j (check_primary_liveness env (cs_replica c j)) c))"
proof -
  let ?timeout = "Submit_timeout liveness_check_interval Liveness_check"
  have "once M q (tally_of (replica_moves M j (schedule_liveness_check (initiate_view_change (cs_replica c j))) c))"
    by (rule once_enter_view [OF once M j, where acts = "[?timeout]"])
      (use j(2) in \<open>simp_all add: initiate_view_change_def schedule_liveness_check_def Let_def,
        simp add: enter_new_view_def Let_def\<close>)
  moreover have "once M q (tally_of (replica_moves M j (schedule_liveness_check (cs_replica c j)) c))"
    by (rule once_harmless [OF once M])
      (auto simp: harmless_def schedule_liveness_check_def intro!: sends_emit intro: sends_same)
  ultimately show ?thesis
    by (simp add: check_primary_liveness_def)
qed

lemma heartbeat_harmless: "harmless r (heartbeat r)"
  by (auto simp: harmless_def heartbeat_def schedule_heartbeat_def send_commit_message_if_needed_def mild_def election_def
      wf_message_def wf_header_def zero_header_def Let_def intro!: sends_emit intro: sends_same)

lemma once_heartbeat:
  "once M q (tally_of c) \<Longrightarrow> finite M \<Longrightarrow> once M q (tally_of (replica_moves M j (heartbeat (cs_replica c j)) c))"
  by (rule once_harmless [OF _ _ heartbeat_harmless])
    (simp_all add: heartbeat_def schedule_heartbeat_def send_commit_message_if_needed_def Let_def)

theorem once_step:
  assumes step: "cluster_step blake3 (members config) c c'" and num: "numbered config"
    and once: "once (members config) (quorum_of config) (tally_of c)"
    and belongs: "\<And>j. j \<in> members config \<Longrightarrow> belongs config j (r_state (cs_replica c j))"
    and within: "within (members config) c" and ok: "\<And>j. j \<in> members config \<Longrightarrow> replica_ok (cs_replica c j)"
  shows "once (members config) (quorum_of config) (tally_of c')"
proof -
  have M: "finite (members config)" "card (members config) < 2 * quorum_of config"
    using num by (auto simp: numbered_def quorum_of_def elim!: oddE)
  have j: "st_id (r_state (cs_replica c j)) = j" "uint (word_of_int j :: byte) = j"
      "quorum (r_state (cs_replica c j)) = quorum_of config" "st_view (r_state (cs_replica c j)) \<noteq> - 1"
      if "j \<in> members config" for j
    using belongs [OF that] belongs_arith(1) [OF num] uint_member [OF num that] within that
    by (simp_all add: belongs_def within_def)
  from step show ?thesis
  proof (cases rule: cluster_step.cases)
    case (deliver i m conn)
    have same: "occurrences k (pending c' d) = occurrences k (pending c d)" for k d
      using deliver(1) addressed_delivered [OF deliver(3), of d] by (simp add: pending_def enqueue_message_def)
    show ?thesis
      by (rule once_quiet [OF once M(1)]) (auto simp: same, auto simp: deliver(1) enqueue_message_def split: if_splits)
  next
    case (lose p)
    have less: "pending c' d \<subseteq># pending c d" for d
      by (simp add: lose pending_def addressed_mono)
    show ?thesis
      by (rule once_quiet [OF once M(1)]) (use occurrences_mono [OF less] in \<open>auto simp: lose\<close>)
  next
    case (client i m conn)
    have same: "occurrences (k, v, n) (pending c' d) = occurrences (k, v, n) (pending c d)"
      if "k = command_start_view_change \<or> k = command_do_view_change" for k v n d
      using that client by (auto simp: pending_def enqueue_message_def client_message_def key_def)
    show ?thesis
      by (rule once_quiet [OF once M(1)]) (auto simp: same, auto simp: client(1) enqueue_message_def split: if_splits)
  next
    case (turn i r')
    have "\<forall>inbound\<in>set (r_message_queue (cs_replica c i)). wf_message (in_message inbound)"
      using ok [OF turn(2)] by (simp add: replica_ok_def message_ok_def wf_message_def)
    then show ?thesis
      unfolding turn(1) by (intro once_turn [OF turn(3) once M turn(2)] j [OF turn(2)] ok [OF turn(2)])
  next
    case (liveness i env)
    then show ?thesis
      using once_liveness [OF once M(1)] j by simp
  next
    case (beat i)
    then show ?thesis
      using once_heartbeat [OF once M(1)] by simp
  qed
qed

lemma once_start: "once M q (tally_of (cluster_start envs config))"
  by (simp add: once_def cluster_start_def pending_def)
    (simp add: run_def schedule_liveness_check_def schedule_heartbeat_def new_replica_def new_ReplicaState_def)

text \<open>What the invariant gives the new primary: the senders it has heard from are distinct.\<close>

lemma distinct_senders:
  assumes "\<forall>m\<in>set ms. h_command (msg_header m) = command_do_view_change \<and> h_view (msg_header m) = v"
    and "\<And>i. occurrences (command_do_view_change, v, i) (mset ms) \<le> 1"
  shows "distinct (map (\<lambda>m. uint (h_replica (msg_header m))) ms)"
  using assms
proof (induction ms)
  case (Cons m ms)
  let ?i = "uint (h_replica (msg_header m))"
  have m: "key m = (command_do_view_change, v, ?i)"
    using Cons.prems(1) by (simp add: key_def)
  have "occurrences (command_do_view_change, v, i) (mset ms) \<le> 1" for i
    using Cons.prems(2) [of i] by (auto split: if_splits)
  then have "distinct (map (\<lambda>m. uint (h_replica (msg_header m))) ms)"
    using Cons by simp
  moreover have "?i \<noteq> uint (h_replica (msg_header m'))" if "m' \<in> set ms" for m'
  proof
    assume "?i = uint (h_replica (msg_header m'))"
    then have "key m' = (command_do_view_change, v, ?i)"
      using Cons.prems(1) that by (simp add: key_def)
    moreover have "0 < occurrences (key m') (mset ms)"
      using that by (intro occurrences_pos) simp
    ultimately show False
      using Cons.prems(2) [of ?i] m by simp
  qed
  ultimately show ?case by auto
qed simp

lemma distinct_received:
  assumes once: "once M q (tally_of c)" and "d \<in> M" and queue: "r_message_queue (cs_replica c d) = inbound # rest"
    and received: "\<forall>m\<in>set (st_do_view_change_received (r_state (cs_replica c d))).
      h_command (msg_header m) = command_do_view_change \<and> h_view (msg_header m) = v"
    and m: "h_command (in_header inbound) = command_do_view_change" "h_view (in_header inbound) = v"
  shows "distinct (map (\<lambda>m. uint (h_replica (msg_header m)))
    (st_do_view_change_received (r_state (cs_replica c d)) @ [in_message inbound]))"
proof (rule distinct_senders)
  show "occurrences (command_do_view_change, v, i)
      (mset (st_do_view_change_received (r_state (cs_replica c d)) @ [in_message inbound])) \<le> 1" for i
    using onceD(4) [OF once assms(2), of v i] queue by (auto simp: pending_def split: if_splits)
qed (use received m in auto)

lemma distinct_own:
  assumes once: "once M q (tally_of c)" and "finite M" and d: "d \<in> M" "st_status (r_state (cs_replica c d)) = VIEW_CHANGE"
      "st_id (r_state (cs_replica c d)) = d" "uint (word_of_int d :: byte) = d"
    and queue: "r_message_queue (cs_replica c d) = inbound # rest"
    and received: "\<forall>m\<in>set (st_do_view_change_received (r_state (cs_replica c d))).
      h_command (msg_header m) = command_do_view_change \<and> h_view (msg_header m) = st_view (r_state (cs_replica c d))"
    and m: "h_command (in_header inbound) = command_start_view_change"
      "h_view (in_header inbound) = st_view (r_state (cs_replica c d))"
    and quorum: "q \<le> card (insert (uint (h_replica (in_header inbound)))
      (st_start_view_change_received (r_state (cs_replica c d))))"
  shows "distinct (map (\<lambda>m. uint (h_replica (msg_header m)))
    (st_do_view_change_received (r_state (cs_replica c d)) @ [do_view_change_message (r_state (cs_replica c d))]))"
proof (rule distinct_senders [where v = "st_view (r_state (cs_replica c d))"])
  let ?s = "r_state (cs_replica c d)"
  have key: "key (do_view_change_message ?s) = (command_do_view_change, st_view ?s, d)"
    using d(3,4) by (simp add: key_def do_view_change_message_def)
  have "key (in_message inbound) = (command_start_view_change, st_view ?s, uint (h_replica (in_header inbound)))"
    using m by (simp add: key_def)
  then have "0 < t_svc (tally_of c) d (t_view (tally_of c) d) (uint (h_replica (in_header inbound)))"
    using queue by (simp add: pending_def)
  from quorum_once(2) [OF once \<open>finite M\<close> d(1) _ this _ d(1)] d(2) quorum
  have "t_dvc (tally_of c) d (st_view ?s) d = 0" by simp
  then show "occurrences (command_do_view_change, st_view ?s, i)
      (mset (st_do_view_change_received ?s @ [do_view_change_message ?s])) \<le> 1" for i
    using onceD(4) [OF once d(1), of "st_view ?s" i] key by auto
qed (use received in \<open>auto simp: do_view_change_message_def\<close>)

text \<open>Every message a replica hands over has a well-formed header.\<close>

lemma sends_weaken: "sends P r r' \<Longrightarrow> (\<And>m. P m \<Longrightarrow> P' m) \<Longrightarrow> sends P' r r'"
  unfolding sends_def by blast

lemma harmless_wf: "harmless r r' \<Longrightarrow> sends wf_message r r'"
  unfolding harmless_def by (elim conjE sends_weaken) (simp add: mild_def)

lemma wf_initiate_view_change: "sends wf_message r (initiate_view_change r)"
  unfolding initiate_view_change_def Let_def by (rule sends_emit) (auto intro: sends_same)

lemma dispatch_wf:
  assumes "can_process (r_state r) inbound" and "st_view (r_state r) \<le> st_view (r_state (dispatch env inbound r))"
    and "wf_message (in_message inbound)"
  shows "sends wf_message r (dispatch env inbound r)"
proof (cases "h_command (in_header inbound) = command_start_view_change")
  case True
  then have d: "dispatch env inbound r = handle_start_view_change env inbound r"
    by (simp add: dispatch_def)
  have m: "wf_message (do_view_change_message (r_state r))"
    by (simp add: do_view_change_message_def wf_message_def wf_header_def) (simp add: zero_header_def)
  show ?thesis
  proof (cases "quorum (r_state r) \<le> card (insert (uint (h_replica (in_header inbound)))
      (st_start_view_change_received (r_state r)))")
    case True
    from start_view_change_quorum(5) [OF True, of env] m show ?thesis
      unfolding d by (auto simp: sends_def mild_def)
  next
    case False
    then show ?thesis
      unfolding d start_view_change_vote [OF False] by (intro sends_same) simp
  qed
next
  case False
  then show ?thesis
    using dispatch_harmless [OF False assms] harmless_wf by blast
qed

end
