(* ===== verification/Cluster_Safety.thy ===== *)
theory Cluster_Safety
  imports Cluster_Simulation Cluster_Votes Cluster_Example
begin

text \<open>
  What a cluster of the replicas of \<open>src/server/replica.cpp\<close> guarantees: every run of the cluster
  is a run of the abstract protocol, so that no two replicas ever commit different operations
  under the same op number and what one replica has committed is in the log of every later primary.
\<close>

section \<open>The simulation\<close>

definition agrees :: "peer_config list \<Rightarrow> (int, log_entry) protocol \<Rightarrow> cluster \<Rightarrow> bool" where
  "agrees config a c \<longleftrightarrow> cluster_inv config a \<and>
     (proto_step (members config) (quorum_of config) (primary_of config))\<^sup>*\<^sup>* proto_init a \<and>
     once (members config) (quorum_of config) (tally_of c) \<and>
     (\<forall>j\<in>members config. stands config a j (r_state (cs_replica c j)) \<and> replica_ok (cs_replica c j) \<and>
        (\<forall>inbound\<in>set (r_message_queue (cs_replica c j)). says config a (in_message inbound))) \<and>
     (\<forall>d m. (d, m) \<in># cs_network c \<longrightarrow> says config a m \<and> wf_message m)"

lemma agreesD:
  assumes "agrees config a c"
  shows "cluster_inv config a" and "once (members config) (quorum_of config) (tally_of c)"
    and "j \<in> members config \<Longrightarrow> stands config a j (r_state (cs_replica c j))"
    and "j \<in> members config \<Longrightarrow> replica_ok (cs_replica c j)"
    and "j \<in> members config \<Longrightarrow> inbound \<in> set (r_message_queue (cs_replica c j)) \<Longrightarrow> says config a (in_message inbound)"
    and "j \<in> members config \<Longrightarrow> inbound \<in> set (r_message_queue (cs_replica c j)) \<Longrightarrow> message_ok (in_message inbound)"
    and "(d, m) \<in># cs_network c \<Longrightarrow> says config a m" and "(d, m) \<in># cs_network c \<Longrightarrow> wf_message m"
    and "(proto_step (members config) (quorum_of config) (primary_of config))\<^sup>*\<^sup>* proto_init a"
  using assms by (auto simp: agrees_def replica_ok_def)

lemma message_ok_wf: "message_ok m \<Longrightarrow> wf_message m"
  by (simp add: message_ok_def wf_message_def)

lemma agrees_move:
  assumes agrees: "agrees config a c" and j: "j \<in> members config"
    and imp: "implements config a j (cs_replica c j) r'" and wf: "sends wf_message (cs_replica c j) r'"
    and ok: "replica_ok r'" and queue: "set (r_message_queue r') \<subseteq> set (r_message_queue (cs_replica c j))"
    and once: "once (members config) (quorum_of config) (tally_of (replica_moves (members config) j r' c))"
  shows "\<exists>a'. agrees config a' (replica_moves (members config) j r' c) \<and> grows (members config) a a'"
proof -
  obtain a' acts where a': "moves config j a a'" "stands config a' j (r_state r')"
    "r_outbox r' = r_outbox (cs_replica c j) @ acts"
    "\<forall>x\<in>set acts. \<forall>m. message_of x = Some m \<longrightarrow> says config a' m"
    using imp by (auto simp: implements_def)
  have wf: "\<forall>x\<in>set acts. \<forall>m. message_of x = Some m \<longrightarrow> wf_message m"
    using wf a'(3) by (auto simp: sends_def)
  have inv: "cluster_inv config a'" and grows: "grows (members config) a a'"
    using moves_inv [OF a'(1) agreesD(1) [OF agrees]] by simp_all
  have "stands config a' i (r_state (cs_replica (replica_moves (members config) j r' c) i))" if "i \<in> members config" for i
    using a'(1,2) stands_grows [OF agreesD(3) [OF agrees that] grows] by (auto simp: moves_def)
  moreover have "says config a' (in_message inbound)" if "i \<in> members config"
      "inbound \<in> set (r_message_queue (cs_replica (replica_moves (members config) j r' c) i))" for i inbound
    using that queue says_grows [OF agreesD(5) [OF agrees] grows] by (auto split: if_splits)
  moreover have "says config a' m \<and> wf_message m"
    if packet: "(d, m) \<in># cs_network (replica_moves (members config) j r' c)" for d m
  proof -
    consider "(d, m) \<in># cs_network c" | x where "x \<in> set acts" "message_of x = Some m"
      using packet a'(3) by (auto simp: replica_moves_def new_packets_append set_sum_list_mset dest: transmit_message)
    then show ?thesis
      using says_grows [OF agreesD(7) [OF agrees] grows] agreesD(8) [OF agrees] a'(4) wf by cases blast+
  qed
  moreover have "(proto_step (members config) (quorum_of config) (primary_of config))\<^sup>*\<^sup>* proto_init a'"
    using agreesD(9) [OF agrees] a'(1) by (auto simp: moves_def)
  ultimately have "agrees config a' (replica_moves (members config) j r' c)"
    using inv once ok agreesD(4) [OF agrees] by (simp add: agrees_def)
  with grows show ?thesis by blast
qed

lemma message_ok_prepared:
  assumes "wf_message m" and "128 + length (msg_payload m) \<le> 65536"
  shows "message_ok (prepared_message blake3 m)"
  using assms prepared_wf [of blake3 m] by (simp add: message_ok_def wf_message_def)

lemma implements_turn:
  assumes step: "queue_step (cs_replica c j) r'" and agrees: "agrees config a c" and num: "numbered config"
    and j: "j \<in> members config" and within: "within (members config) c"
    and rem: "remembers (r_state (cs_replica c j)) (r_state r')"
  shows "implements config a j (cs_replica c j) r'" and "sends wf_message (cs_replica c j) r'"
proof -
  let ?r = "cs_replica c j"
  note sim = agreesD(3) [OF agrees j] and inv = agreesD(1) [OF agrees] and once = agreesD(2) [OF agrees]
  have state: "st_op (r_state ?r) \<noteq> - 1" "st_view (r_state ?r) \<noteq> - 1"
    using within j by (simp_all add: within_def)
  have id: "st_id (r_state ?r) = j" "uint (word_of_int j :: byte) = j" "quorum (r_state ?r) = quorum_of config"
    using standsD(1) [OF sim] uint_member [OF num j] belongs_arith(1) [OF num] by (simp_all add: belongs_def)
  have received: "\<forall>m\<in>set (st_do_view_change_received (r_state ?r)).
      h_command (msg_header m) = command_do_view_change \<and> h_view (msg_header m) = st_view (r_state ?r)"
    using sim by (simp add: stands_def)
  have "implements config a j ?r r' \<and> sends wf_message ?r r'"
    using step
  proof (cases rule: queue_step.cases)
    case (discard inbound rest)
    then show ?thesis
      using sim by (auto intro: implements_same [where acts = "[]"] sends_same)
  next
    case (handle inbound rest env)
    let ?popped = "?r\<lparr>r_message_queue := rest\<rparr>"
    have m: "says config a (in_message inbound)" "wf_message (in_message inbound)"
      using handle(2) agreesD(5,6) [OF agrees j] message_ok_wf by simp_all
    have "implements config a j ?popped r'"
      unfolding handle(1)
    proof (rule implements_dispatch [OF inv num j])
      show "distinct (map (\<lambda>m. uint (h_replica (msg_header m)))
          (st_do_view_change_received (r_state ?popped) @ [in_message inbound]))"
        if "h_command (in_header inbound) = command_do_view_change"
        using distinct_received [OF once j handle(2) received that] handle(4) that
        by (simp add: can_process_def check_can_process_do_view_change_def Let_def split: if_splits)
      show "distinct (map (\<lambda>m. uint (h_replica (msg_header m)))
          (st_do_view_change_received (r_state ?popped) @ [do_view_change_message (r_state ?popped)]))"
        if "h_command (in_header inbound) = command_start_view_change"
          "quorum (r_state ?popped) \<le> card (insert (uint (h_replica (in_header inbound)))
            (st_start_view_change_received (r_state ?popped)))"
        using distinct_own [OF once numbered_members [OF num] j _ id(1,2) handle(2) received that(1)] handle(4) that id(3)
        by (simp add: can_process_def check_can_process_start_view_change_def Let_def)
      show "h_command (in_header inbound) = command_recovery_response \<Longrightarrow> st_view (r_state ?popped) \<le> h_view (in_header inbound)"
        using handle(3) by (simp add: is_stale_def)
    qed (use handle m state sim rem agreesD(4) [OF agrees j] in \<open>simp_all add: replica_ok_def state_ok_def\<close>)
    moreover have "sends wf_message ?popped r'"
      unfolding handle(1) using handle m agreesD(4) [OF agrees j] by (intro dispatch_wf dispatch_view replica_ok_pop) simp_all
    ultimately show ?thesis
      by (simp add: implements_def sends_def)
  next
    case (recover inbound rest env)
    then have "implements config a j ?r (initiate_recovery env ?r)"
      using implements_initiate_recovery [OF sim] by simp
    moreover have "sends wf_message ?r r'"
      unfolding recover(1) by (rule harmless_wf [OF initiate_recovery_harmless [OF recover(3)]])
    ultimately show ?thesis
      by (simp add: recover(1) implements_def)
  next
    case (join inbound rest)
    then show ?thesis
      using implements_initiate_view_change [OF inv j sim state(2)] wf_initiate_view_change by simp
  qed
  then show "implements config a j ?r r'" "sends wf_message ?r r'" by simp_all
qed

lemma queue_step_queue: "queue_step r r' \<Longrightarrow> set (r_message_queue r') \<subseteq> set (r_message_queue r)"
  by (induction rule: queue_step.induct) (auto simp: initiate_view_change_def Let_def)

lemma timer_wf:
  "sends wf_message r (check_primary_liveness env r)" "sends wf_message r (heartbeat r)"
proof -
  show "sends wf_message r (check_primary_liveness env r)"
    using wf_initiate_view_change
    by (auto simp: check_primary_liveness_def schedule_liveness_check_def intro!: sends_emit intro: sends_same)
  show "sends wf_message r (heartbeat r)"
    by (rule harmless_wf [OF heartbeat_harmless])
qed

lemma agrees_step:
  assumes step: "cluster_step blake3 (members config) c c'" and agrees: "agrees config a c" and num: "numbered config"
    and within: "within (members config) c"
    and rem: "\<forall>j\<in>members config. remembers (r_state (cs_replica c j)) (r_state (cs_replica c' j))"
  shows "\<exists>a'. agrees config a' c' \<and> grows (members config) a a'"
proof -
  let ?M = "members config"
  have once: "once ?M (quorum_of config) (tally_of c')"
    using once_step [OF step num agreesD(2) [OF agrees] _ within agreesD(4) [OF agrees]]
      standsD(1) [OF agreesD(3) [OF agrees]] by blast
  from step show ?thesis
  proof (cases rule: cluster_step.cases)
    case (deliver j m conn)
    have m: "says config a (prepared_message blake3 m)" "message_ok (prepared_message blake3 m)"
      using agreesD(7,8) [OF agrees deliver(3)] deliver(4) by (simp_all add: message_ok_prepared)
    have "agrees config a c'"
      using agrees m once unfolding agrees_def deliver(1)
      by (auto simp: enqueue_message_def replica_ok_def dest: in_diffD)
    then show ?thesis using grows_refl by blast
  next
    case (lose p)
    have "agrees config a c'"
      using agrees once unfolding agrees_def lose by (auto dest: in_diffD)
    then show ?thesis using grows_refl by blast
  next
    case (client j m conn)
    have "says config a m" "message_ok m"
      using client(3) by (auto simp: client_message_def says_def)
    then have "agrees config a c'"
      using agrees once unfolding agrees_def client(1) by (auto simp: enqueue_message_def replica_ok_def)
    then show ?thesis using grows_refl by blast
  next
    case (turn j r')
    have "remembers (r_state (cs_replica c j)) (r_state r')"
      using rem turn(1,2) by auto
    note imp = implements_turn [OF turn(3) agrees num turn(2) within this]
    show ?thesis
      using agrees_move [OF agrees turn(2) imp ok_turn.turn [OF turn(3) agreesD(4) [OF agrees turn(2)]]
          queue_step_queue [OF turn(3)]] once unfolding turn(1) by blast
  next
    case (liveness j env)
    note ok = replica_step_ok [OF replica_step.liveness agreesD(4) [OF agrees liveness(2)], of env]
    have "st_view (r_state (cs_replica c j)) \<noteq> - 1"
      using within liveness(2) by (simp add: within_def)
    note imp = implements_liveness [OF agreesD(1) [OF agrees] liveness(2) agreesD(3) [OF agrees liveness(2)] this, of env]
    have "set (r_message_queue (check_primary_liveness env (cs_replica c j))) \<subseteq> set (r_message_queue (cs_replica c j))"
      by (simp add: check_primary_liveness_def schedule_liveness_check_def initiate_view_change_def Let_def)
    then show ?thesis
      using agrees_move [OF agrees liveness(2) imp timer_wf(1) ok] once unfolding liveness(1) by blast
  next
    case (beat j)
    note ok = replica_step_ok [OF replica_step.beat agreesD(4) [OF agrees beat(2)]]
    have "set (r_message_queue (heartbeat (cs_replica c j))) \<subseteq> set (r_message_queue (cs_replica c j))"
      by (simp add: heartbeat_def schedule_heartbeat_def send_commit_message_if_needed_def Let_def)
    then show ?thesis
      using agrees_move [OF agrees beat(2) implements_heartbeat [OF agreesD(3) [OF agrees beat(2)]] timer_wf(2) ok] once
      unfolding beat(1) by blast
  qed
qed

lemma started [simp]:
  "r_state (run env (new_replica j config)) = new_ReplicaState j config"
  "r_message_queue (run env (new_replica j config)) = []"
  by (simp_all add: run_def schedule_liveness_check_def schedule_heartbeat_def new_replica_def)

lemma agrees_start:
  assumes "numbered config"
  shows "agrees config proto_init (cluster_start envs config)"
proof -
  have "stands config proto_init j (new_ReplicaState j config)" for j
    by (simp add: stands_def belongs_def acked_def commit_ok_def)
      (simp add: new_ReplicaState_def proto_init_def)
  moreover have "replica_ok (run (envs j) (new_replica j config))" for j
    using replica_ok_start numbered_config(2) [OF assms] by blast
  ultimately show ?thesis
    using proto_inv_init [OF primary_of_member [OF assms]] once_start
    unfolding agrees_def by (auto simp: cluster_start_def)
qed

theorem mindful_run_agrees:
  assumes "mindful_run blake3 config c" and "numbered config"
  shows "\<exists>a. agrees config a c"
  using assms
proof (induction rule: mindful_run.induct)
  case (init envs)
  then show ?case using agrees_start by blast
next
  case (step c c')
  then show ?case using agrees_step mindful_run_within by blast
qed

text \<open>
  C3: a cluster implements the abstract protocol. In every run, view changes and recoveries included, in
  which no recovery ends in the view it began in with fewer operations, there is a state that the abstract
  protocol can reach in which every replica has the view, the status (a replica that recovers counts as
  being in its last view) and, as a list without gaps, the log that the replica of the code has,
  and every commit number of the code is backed by a quorum of acknowledgements in a view no
  newer than that of the replica's log.
\<close>
theorem cluster_refines_protocol:
  assumes "mindful_run blake3 config c" and "numbered config"
  shows "\<exists>a. (proto_step (members config) (quorum_of config) (primary_of config))\<^sup>*\<^sup>* proto_init a \<and>
    (\<forall>j\<in>members config. let s = r_state (cs_replica c j) in
       p_view a j = unat (st_view s) \<and> (p_normal a j \<longleftrightarrow> st_status s \<noteq> VIEW_CHANGE) \<and>
       log_rep (st_log s) (st_op s) (p_log a j) \<and>
       (st_commit s = 0 \<or> (\<exists>u\<le>last_view a j. committed (members config) (quorum_of config) a u (unat (st_commit s)))))"
proof -
  obtain a where agrees: "agrees config a c"
    using mindful_run_agrees [OF assms] by blast
  show ?thesis
    using agreesD(9) [OF agrees] standsD(2-5) [OF agreesD(3) [OF agrees]]
    by (intro exI [of _ a]) (simp add: Let_def commit_ok_def)
qed

theorem cluster_refines_protocol_witness:
  "\<exists>a :: (int, log_entry) protocol. (proto_step {0, 1, 2} 2 (primary_of server_cluster_config))\<^sup>*\<^sup>* proto_init a \<and>
     p_view a 1 = 0 \<and> p_normal a 1 \<and> length (p_log a 1) = 1 \<and>
     (\<exists>u\<le>last_view a 1. committed {0, 1, 2} 2 a u 1)"
proof -
  have "quorum_of server_cluster_config = 2"
    by (simp add: quorum_of_def server_cluster_config_def)
  then obtain a where "(proto_step {0, 1, 2} 2 (primary_of server_cluster_config))\<^sup>*\<^sup>* proto_init a"
    "\<forall>j\<in>{0, 1, 2}. let s = r_state (cs_replica sample_cluster j) in
       p_view a j = unat (st_view s) \<and> (p_normal a j \<longleftrightarrow> st_status s \<noteq> VIEW_CHANGE) \<and>
       log_rep (st_log s) (st_op s) (p_log a j) \<and>
       (st_commit s = 0 \<or> (\<exists>u\<le>last_view a j. committed {0, 1, 2} 2 a u (unat (st_commit s))))"
    using cluster_refines_protocol [OF calm_run_mindful [OF sample_run] numbered_server] unfolding server_members by auto
  then show ?thesis
    by (intro exI [of _ a]) (auto simp: Let_def sample_replicas one_op_done_def one_op_def dest!: log_rep_length)
qed

text \<open>
  C18: a new primary never counts a replica twice. In every run in which no recovery ends in the view
  it began in with fewer operations, the DoViewChange messages a replica has collected are all for its current view and
  come from distinct members of the cluster, although \<open>handle_do_view_change\<close> does not check for
  repetitions: each member sends at most one per view.
\<close>
theorem promises_counted_once:
  assumes run: "mindful_run blake3 config c" and num: "numbered config" and j: "j \<in> members config"
  shows "distinct (map (\<lambda>m. h_replica (msg_header m)) (st_do_view_change_received (r_state (cs_replica c j)))) \<and>
    (\<forall>m\<in>set (st_do_view_change_received (r_state (cs_replica c j))).
       h_view (msg_header m) = st_view (r_state (cs_replica c j)) \<and> uint (h_replica (msg_header m)) \<in> members config)"
proof -
  let ?s = "r_state (cs_replica c j)"
  obtain a where agrees: "agrees config a c"
    using mindful_run_agrees [OF run num] by blast
  have received: "h_command (msg_header m) = command_do_view_change \<and> h_view (msg_header m) = st_view ?s \<and>
      uint (h_replica (msg_header m)) \<in> members config" if "m \<in> set (st_do_view_change_received ?s)" for m
  proof -
    have m: "h_command (msg_header m) = command_do_view_change" "h_view (msg_header m) = st_view ?s" "says config a m"
      using agreesD(3) [OF agrees j] that by (auto simp: stands_def)
    then have "do_view_change_says config a m" by (simp add: says_def)
    then show ?thesis
      using m(1,2) inv_dvcD(1) agreesD(1) [OF agrees] by (fastforce simp: do_view_change_says_def proto_inv_def)
  qed
  have "distinct (map (\<lambda>m. uint (h_replica (msg_header m))) (st_do_view_change_received ?s))"
  proof (rule distinct_senders)
    show "occurrences (command_do_view_change, st_view ?s, i) (mset (st_do_view_change_received ?s)) \<le> 1" for i
      using onceD(4) [OF agreesD(2) [OF agrees] j, of "st_view ?s" i] by simp
  qed (use received in blast)
  then have "distinct (map uint (map (\<lambda>m. h_replica (msg_header m)) (st_do_view_change_received ?s)))"
    by (simp add: comp_def)
  then show ?thesis
    using received distinct_map by blast
qed

theorem promises_counted_once_witness:
  "distinct (map (\<lambda>m. h_replica (msg_header m)) (st_do_view_change_received (r_state (cs_replica sample_election 1)))) \<and>
   st_do_view_change_received (r_state (cs_replica sample_election 1)) = [prepared_message no_hash sample_promise] \<and>
   h_view (msg_header sample_promise) = 1"
proof -
  have "1 \<in> members server_cluster_config"
    by (simp add: server_members)
  from promises_counted_once [OF calm_run_mindful [OF election_run] numbered_server this] show ?thesis
    by (simp add: election_replicas enter_new_view_def Let_def)
qed

section \<open>Agreement\<close>

lemma committed_in:
  assumes inv: "cluster_inv config a" and sim: "stands config a j s" and k: "0 < k" "k \<le> st_commit s"
  obtains u n h where "u \<le> last_view a j" "commits config a u n" "p_hist a u = Some h" "unat k \<le> n" "n \<le> length h"
proof -
  have "commit_ok config a (last_view a j) (st_commit s)" "st_commit s \<noteq> 0"
    using standsD(5) [OF sim] k by auto
  then obtain u where u: "u \<le> last_view a j" "commits config a u (unat (st_commit s))"
    by (auto simp: commit_ok_def)
  have "inv_acks (members config) a" "0 < quorum_of config"
    using inv by (simp_all add: proto_inv_def quorum_of_def)
  then obtain h where "p_hist a u = Some h" "unat (st_commit s) \<le> length h"
    using committed_hist [OF _ u(2)] by blast
  then show ?thesis
    using that [OF u] k(2) by (simp add: word_le_nat_alt)
qed

text \<open>The log of a replica agrees with what has been committed up to the log's view.\<close>

lemma log_of_member: "cluster_inv config a \<Longrightarrow> j \<in> members config \<Longrightarrow> log_between a (last_view a j) (p_log a j)"
  by (simp add: proto_inv_def inv_logs_def)

lemma entry_in_history:
  assumes inv: "cluster_inv config a" and num: "numbered config" and j: "j \<in> members config"
    and sim: "stands config a j s" and e: "om_find (st_log s) k = Some e"
    and u: "u \<le> last_view a j" "commits config a u n" "p_hist a u = Some h" "unat k \<le> n"
  shows "strip_acks e = h ! (unat k - 1)"
proof -
  let ?l = "p_log a j"
  note l = log_rep_find [OF standsD(4) [OF sim] e]
  have eq: "take (min n (length ?l)) ?l = take (min n (length ?l)) h"
    using quorum_system.log_agrees_with_committed(1) [OF numbered_quorum_system [OF num] inv u(2,3)
        log_of_member [OF inv j] u(1)] .
  have "unat k - 1 < min n (length ?l)"
    using l(1,2) u(4) by linarith
  then have "?l ! (unat k - 1) = h ! (unat k - 1)"
    using nth_take [of "unat k - 1" "min n (length ?l)" ?l] nth_take [of "unat k - 1" "min n (length ?l)" h] eq by simp
  with l(3) show ?thesis by simp
qed

lemma agrees_committed:
  assumes agrees: "agrees config a c" and num: "numbered config"
    and i: "i \<in> members config" "k \<le> st_commit (r_state (cs_replica c i))"
      "om_find (st_log (r_state (cs_replica c i))) k = Some e"
    and j: "j \<in> members config" "k \<le> st_commit (r_state (cs_replica c j))"
      "om_find (st_log (r_state (cs_replica c j))) k = Some e'"
  shows "strip_acks e = strip_acks e'"
proof -
  note inv = agreesD(1) [OF agrees] and simi = agreesD(3) [OF agrees i(1)] and simj = agreesD(3) [OF agrees j(1)]
  have k: "0 < k"
    using log_rep_find(1) [OF standsD(4) [OF simi] i(3)] by (simp add: word_less_nat_alt)
  obtain u n h where u: "u \<le> last_view a i" "commits config a u n" "p_hist a u = Some h" "unat k \<le> n" "n \<le> length h"
    by (rule committed_in [OF inv simi k i(2)])
  obtain w m h' where w: "w \<le> last_view a j" "commits config a w m" "p_hist a w = Some h'" "unat k \<le> m" "m \<le> length h'"
    by (rule committed_in [OF inv simj k j(2)])
  have "take (unat k) h = take (unat k) h'"
    by (rule quorum_system.committed_agree [OF numbered_quorum_system [OF num] inv u(2) w(2) u(3) w(3) u(4) w(4)])
  then have "h ! (unat k - 1) = h' ! (unat k - 1)"
    using k nth_take [of "unat k - 1" "unat k" h] nth_take [of "unat k - 1" "unat k" h'] by (simp add: word_less_nat_alt)
  then show ?thesis
    using entry_in_history [OF inv num i(1) simi i(3) u(1-4)] entry_in_history [OF inv num j(1) simj j(3) w(1-4)] by simp
qed

lemma agrees_survives:
  assumes agrees: "agrees config a c" and num: "numbered config"
    and i: "i \<in> members config" "k \<le> st_commit (r_state (cs_replica c i))"
      "om_find (st_log (r_state (cs_replica c i))) k = Some e"
    and j: "j \<in> members config" "st_status (r_state (cs_replica c j)) = NORMAL"
    and later: "st_view (r_state (cs_replica c i)) < st_view (r_state (cs_replica c j)) \<or>
      st_view (r_state (cs_replica c i)) = st_view (r_state (cs_replica c j)) \<and> is_primary (r_state (cs_replica c j))"
  shows "\<exists>e'. om_find (st_log (r_state (cs_replica c j))) k = Some e' \<and> strip_acks e' = strip_acks e"
proof -
  note inv = agreesD(1) [OF agrees] and sim = agreesD(3) [OF agrees j(1)] and simi = agreesD(3) [OF agrees i(1)]
  have k: "0 < k"
    using log_rep_find(1) [OF standsD(4) [OF simi] i(3)] by (simp add: word_less_nat_alt)
  obtain u n h where u: "u \<le> last_view a i" "commits config a u n" "p_hist a u = Some h" "unat k \<le> n" "n \<le> length h"
    by (rule committed_in [OF inv simi k i(2)])
  have lv: "last_view a j = p_view a j" "p_view a j = unat (st_view (r_state (cs_replica c j)))"
    "p_view a i = unat (st_view (r_state (cs_replica c i)))"
    using standsD(2,7) [OF sim] standsD(2) [OF simi] j(2) by simp_all
  have "last_view a i \<le> p_view a i"
    using inv i(1) by (auto simp: proto_inv_def inv_logs_def last_view_def)
  then have le: "u \<le> last_view a j"
    using u(1) later lv by (auto simp: word_less_nat_alt)
  have "unat k \<le> length (p_log a j)"
  proof (cases "u < last_view a j")
    case True
    then show ?thesis
      using quorum_system.log_agrees_with_committed(2) [OF numbered_quorum_system [OF num] inv u(2,3)
          log_of_member [OF inv j(1)] le True] u(4) by simp
  next
    case False
    then have same: "u = p_view a j" "is_primary (r_state (cs_replica c j))"
      using le lv later u(1) \<open>last_view a i \<le> p_view a i\<close> by (auto simp: word_less_nat_alt)
    have "p_hist a (p_view a j) = Some (p_log a j)"
      by (rule primary_log [OF inv j(1)])
        (use standsD(1-3) [OF sim] j(2) same(2) belongs_arith(4) [OF num] in auto)
    with same(1) u(3-5) show ?thesis by simp
  qed
  then obtain e' where e': "om_find (st_log (r_state (cs_replica c j))) k = Some e'"
    using log_rep_Some [OF standsD(4) [OF sim], of k] k by (auto simp: word_less_nat_alt)
  show ?thesis
    using entry_in_history [OF inv num i(1) simi i(3) u(1-4)] entry_in_history [OF inv num j(1) sim e' le u(2-4)] e' by simp
qed

text \<open>
  C2: two replicas never disagree about a committed operation. In every run of a cluster in
  which no recovery ends in the view it began in with fewer operations, whatever the network does,
  however many view changes and recoveries have happened and whatever clients send, two replicas that both count op number \<open>k\<close> as committed
  and both hold it hold the same request: the same client, request number, operation, payload
  and view.
\<close>
theorem committed_ops_agree:
  assumes run: "mindful_run blake3 config c" and num: "numbered config"
    and i: "i \<in> members config" "k \<le> st_commit (r_state (cs_replica c i))"
      "om_find (st_log (r_state (cs_replica c i))) k = Some e"
    and j: "j \<in> members config" "k \<le> st_commit (r_state (cs_replica c j))"
      "om_find (st_log (r_state (cs_replica c j))) k = Some e'"
  shows "strip_acks e = strip_acks e'"
  using mindful_run_agrees [OF run num] agrees_committed [OF _ num i j] by blast

theorem committed_ops_agree_witness:
  "1 \<le> st_commit (r_state (cs_replica sample_cluster 0)) \<and> 1 \<le> st_commit (r_state (cs_replica sample_cluster 1)) \<and>
   map_option strip_acks (om_find (st_log (r_state (cs_replica sample_cluster 0))) 1) = Some (sample_op {}) \<and>
   map_option strip_acks (om_find (st_log (r_state (cs_replica sample_cluster 1))) 1) = Some (sample_op {})"
proof -
  have "strip_acks (sample_op {0, 1}) = strip_acks (sample_op {})"
    by (rule committed_ops_agree [OF calm_run_mindful [OF sample_run] numbered_server, where i = 0 and j = 1 and k = 1])
      (simp_all add: server_members sample_replicas one_op_done_def one_op_def om_find_def)
  then show ?thesis
    by (simp add: sample_replicas one_op_done_def one_op_def om_find_def) (simp add: sample_op_def strip_acks_def)
qed

text \<open>
  C5: a committed operation is never lost. In every such run, if one replica counts an op it
  holds as committed, then the primary of its view or of any later view that has started holds the same request
  under the same number, and so does every replica in normal operation in a later view.
\<close>
theorem committed_op_survives:
  assumes run: "mindful_run blake3 config c" and num: "numbered config"
    and i: "i \<in> members config" "k \<le> st_commit (r_state (cs_replica c i))"
      "om_find (st_log (r_state (cs_replica c i))) k = Some e"
    and j: "j \<in> members config" "st_status (r_state (cs_replica c j)) = NORMAL"
    and later: "st_view (r_state (cs_replica c i)) < st_view (r_state (cs_replica c j)) \<or>
      st_view (r_state (cs_replica c i)) = st_view (r_state (cs_replica c j)) \<and> is_primary (r_state (cs_replica c j))"
  shows "\<exists>e'. om_find (st_log (r_state (cs_replica c j))) k = Some e' \<and> strip_acks e' = strip_acks e"
  using mindful_run_agrees [OF run num] agrees_survives [OF _ num i j later] by blast

theorem committed_op_survives_witness:
  "\<exists>e'. om_find (st_log (r_state (cs_replica sample_cluster 0))) 1 = Some e' \<and> strip_acks e' = strip_acks (sample_op {})"
  by (rule committed_op_survives [OF calm_run_mindful [OF sample_run] numbered_server, where i = 1])
    (simp_all add: server_members sample_replicas one_op_done_def one_op_def om_find_def server_primary)

end
