(* ===== verification/Cluster_Execution.thy ===== *)
theory Cluster_Execution
  imports Cluster_Safety
begin

text \<open>
  What the replicas of a cluster compute: the key-value contents of every replica are those of a
  sequential execution of the committed operations, as long as no request was logged twice.
\<close>

section \<open>Sequential execution\<close>

definition session :: "log_entry \<Rightarrow> uint128_t \<times> u32" where
  "session e = (le_client_id e, le_request_num e)"

definition contents_after :: "log_entry list \<Rightarrow> (string \<rightharpoonup> string)" where
  "contents_after es = fold (\<lambda>e kv. fst (apply_operation (le_op_type e) (le_payload e) kv)) es Map.empty"

lemma session_strip [simp]: "session (strip_acks e) = session e"
  by (simp add: session_def strip_acks_def)

lemma contents_after_snoc:
  "contents_after (es @ [strip_acks e]) = fst (apply_operation (le_op_type e) (le_payload e) (contents_after es))"
  by (simp add: contents_after_def strip_acks_def)

text \<open>Executed requests are remembered per client; what is remembered was executed.\<close>

definition computed :: "log_entry list \<Rightarrow> ReplicaState \<Rightarrow> bool" where
  "computed es s \<longleftrightarrow> st_state_machine s = contents_after es \<and>
     (\<forall>client ce. om_find (st_client_table s) client = Some ce \<longrightarrow> ct_executed ce \<longrightarrow>
        (client, ct_request_number ce) \<in> session ` set es)"

lemma computed_next:
  assumes "computed es (r_state r)" and "session e \<notin> session ` set es"
  shows "computed (es @ [strip_acks e]) (r_state (execute_next e r))"
proof -
  let ?t = "om_find (st_client_table (r_state r))"
  have fresh: "\<not> (case ?t (le_client_id e) of
      Some ce \<Rightarrow> ct_request_number ce = le_request_num e \<and> ct_executed ce | None \<Rightarrow> False)"
    using assms by (force simp: computed_def session_def [of e] split: option.splits)
  obtain kv res where op: "apply_operation (le_op_type e) (le_payload e) (st_state_machine (r_state r)) = (kv, res)"
    by (metis prod.exhaust)
  have "abs_exec (r_state (execute_next e r)) = (kv, ?t(le_client_id e \<mapsto>
      \<lparr>ct_request_number = le_request_num e, ct_executed = True, ct_result = bytes_of_string res\<rparr>))"
    using execute_next_refines [of e r] fresh op by (simp add: exec_step_def abs_exec_def)
  then have "st_state_machine (r_state (execute_next e r)) = kv"
    "om_find (st_client_table (r_state (execute_next e r))) = ?t(le_client_id e \<mapsto>
      \<lparr>ct_request_number = le_request_num e, ct_executed = True, ct_result = bytes_of_string res\<rparr>)"
    by (simp_all add: abs_exec_def)
  then show ?thesis
    using assms(1) op by (auto simp: computed_def contents_after_snoc session_def [of e] split: if_splits)
qed

section \<open>Executed operations are committed\<close>

definition committed_prefix :: "peer_config list \<Rightarrow> (int, log_entry) protocol \<Rightarrow> nat \<Rightarrow> log_entry list \<Rightarrow> bool" where
  "committed_prefix config a v es \<longleftrightarrow> es = [] \<or>
     (\<exists>u\<le>v. \<exists>n h. commits config a u n \<and> p_hist a u = Some h \<and> length es \<le> n \<and> n \<le> length h \<and> prefix es h)"

lemma committed_prefix_take:
  assumes "u \<le> v" and "commits config a u n" and "p_hist a u = Some h" and "k \<le> n" and "n \<le> length h"
  shows "committed_prefix config a v (take k h)"
proof -
  have "length (take k h) \<le> n \<and> prefix (take k h) h"
    using assms(4) by (simp add: take_is_prefix)
  with assms show ?thesis
    unfolding committed_prefix_def by blast
qed

lemma committed_prefix_mono:
  assumes "committed_prefix config a v es" and "v \<le> v'" and grows: "grows (members config) a a'"
  shows "committed_prefix config a' v' es"
proof (cases "es = []")
  case False
  then obtain u n h where u: "u \<le> v" "commits config a u n" "p_hist a u = Some h" "length es \<le> n" "n \<le> length h" "prefix es h"
    using assms(1) by (auto simp: committed_prefix_def)
  obtain h' where h': "p_hist a' u = Some h'" "prefix h h'"
    using growsD(4) [OF grows u(3)] by blast
  have "n \<le> length h'" "prefix es h'" "u \<le> v'"
    using u h' prefix_length_le [OF h'(2)] assms(2) by (auto intro: prefix_order.order_trans)
  with u(2,4) h'(1) committed_grows [OF u(2) grows] show ?thesis
    unfolding committed_prefix_def by blast
qed (simp add: committed_prefix_def)

lemma committed_prefix_agree:
  assumes inv: "cluster_inv config a" and num: "numbered config"
    and es: "committed_prefix config a v es" and fs: "committed_prefix config a w fs" and "length es = length fs"
  shows "es = fs"
proof (cases "es = []")
  case False
  with assms(5) have "fs \<noteq> []" by auto
  with False es fs obtain u n h u' n' h' where
    u: "commits config a u n" "p_hist a u = Some h" "length es \<le> n" "n \<le> length h" "prefix es h" and
    u': "commits config a u' n'" "p_hist a u' = Some h'" "length fs \<le> n'" "n' \<le> length h'" "prefix fs h'"
    by (auto simp: committed_prefix_def)
  have "take (length es) h = take (length es) h'"
    using quorum_system.committed_agree [OF numbered_quorum_system [OF num] inv u(1) u'(1) u(2) u'(2) u(3)] u'(3) assms(5)
    by simp
  then show ?thesis
    using u(5) u'(5) assms(5) by (auto simp: prefix_def)
qed (use assms(5) in simp)

definition executed :: "peer_config list \<Rightarrow> (int, log_entry) protocol \<Rightarrow> int \<Rightarrow> ReplicaState \<Rightarrow> bool" where
  "executed config a j s \<longleftrightarrow> (\<exists>es. length es = unat (st_last_executed_op s) \<and>
     st_last_executed_op s \<le> st_op s \<and> committed_prefix config a (last_view a j) es \<and> (distinct (map session es) \<longrightarrow> computed es s))"

lemma executed_next:
  assumes inv: "cluster_inv config a" and num: "numbered config" and j: "j \<in> members config"
    and sim: "stands config a j (r_state r)" and exec: "executed config a j (r_state r)"
    and less: "st_last_executed_op (r_state r) < st_commit (r_state r)"
    and e: "om_find (st_log (r_state r)) (st_last_executed_op (r_state r) + 1) = Some e"
  shows "executed config a j (r_state (execute_next e r))"
proof -
  let ?x = "st_last_executed_op (r_state r)"
  obtain es where es: "length es = unat ?x" "committed_prefix config a (last_view a j) es"
    "distinct (map session es) \<Longrightarrow> computed es (r_state r)"
    using exec by (auto simp: executed_def)
  have x: "unat (?x + 1) = Suc (unat ?x)" "unat (?x + 1) \<le> unat (st_commit (r_state r))"
    using unat_Suc_less [OF less] less by (simp_all add: word_less_nat_alt)
  obtain u n h where u: "u \<le> last_view a j" "commits config a u n" "p_hist a u = Some h" "unat (?x + 1) \<le> n" "n \<le> length h"
  proof (rule committed_in [OF inv sim])
    show "0 < ?x + 1" "?x + 1 \<le> st_commit (r_state r)"
      using x by (simp_all only: word_le_nat_alt word_less_nat_alt) simp
  qed
  have last: "strip_acks e = h ! unat ?x"
    using entry_in_history [OF inv num j sim e u(1-4)] x(1) by simp
  have "committed_prefix config a u (take (unat ?x) h)"
    using u x(1) by (intro committed_prefix_take) auto
  with es(1,2) u(4,5) x(1) have "es = take (unat ?x) h"
    by (intro committed_prefix_agree [OF inv num]) auto
  then have snoc: "es @ [strip_acks e] = take (Suc (unat ?x)) h"
    using last u(4,5) x(1) by (simp add: take_Suc_conv_app_nth)
  have "committed_prefix config a (last_view a j) (es @ [strip_acks e])"
    unfolding snoc using u x(1) by (intro committed_prefix_take) auto
  moreover have "computed (es @ [strip_acks e]) (r_state (execute_next e r))" if "distinct (map session (es @ [strip_acks e]))"
    using that es(3) by (intro computed_next) auto
  moreover have "?x + 1 \<le> st_op (r_state r)"
    using log_rep_find(2) [OF standsD(4) [OF sim] e] log_rep_length [OF standsD(4) [OF sim]] by (simp add: word_le_nat_alt)
  ultimately show ?thesis
    unfolding executed_def using es(1) x(1) by (intro exI [of _ "es @ [strip_acks e]"]) simp
qed

lemma stands_next [simp]: "stands config a j (r_state (execute_next e r)) = stands config a j (r_state r)"
  by (simp add: stands_def belongs_def acked_def)

lemma executed_loop:
  assumes inv: "cluster_inv config a" and num: "numbered config" and j: "j \<in> members config"
  shows "stands config a j (r_state r) \<Longrightarrow> executed config a j (r_state r) \<Longrightarrow>
    executed config a j (r_state (execute_commited_ops r))"
proof (induction r rule: execute_commited_ops_induct)
  case (stop r)
  then show ?case by simp
next
  case (advance r e)
  then show ?case
    using executed_next [OF inv num j] by simp
qed

section \<open>What a handler computes\<close>

text \<open>
  A handler first changes the log, the commit number and the client table, where it may forget but
  never invents that a request was executed, and then runs the execution loop or does not.
\<close>

definition forgets :: "(uint128_t, client_table_entry) omap \<Rightarrow> (uint128_t, client_table_entry) omap \<Rightarrow> bool" where
  "forgets t t' \<longleftrightarrow> (\<forall>client ce. om_find t' client = Some ce \<longrightarrow> ct_executed ce \<longrightarrow>
     (\<exists>ce'. om_find t client = Some ce' \<and> ct_executed ce' \<and> ct_request_number ce' = ct_request_number ce))"

definition advances :: "ReplicaState \<Rightarrow> ReplicaState \<Rightarrow> bool" where
  "advances s s' \<longleftrightarrow> st_op s \<le> st_op s' \<or>
     st_status s = VIEW_CHANGE \<and> st_status s' = NORMAL \<and> st_view s' = st_view s"

definition readies :: "ReplicaState \<Rightarrow> ReplicaState \<Rightarrow> bool" where
  "readies s s' \<longleftrightarrow> st_state_machine s' = st_state_machine s \<and> st_last_executed_op s' = st_last_executed_op s \<and>
     forgets (st_client_table s) (st_client_table s') \<and> advances s s'"

definition computes :: "replica \<Rightarrow> replica \<Rightarrow> bool" where
  "computes r r' \<longleftrightarrow> (\<exists>r1. readies (r_state r) (r_state r1) \<and>
     (r_state r' = r_state r1 \<or> r_state r' = r_state (execute_commited_ops r1)))"

lemma forgets_refl [simp]: "forgets t t"
  by (simp add: forgets_def)

lemma forgets_assign: "forgets t t' \<Longrightarrow> \<not> ct_executed ce \<Longrightarrow> forgets t (om_assign k ce t')"
  by (auto simp: forgets_def)

lemma forgets_index:
  "forgets t t' \<Longrightarrow> forgets t (om_assign k (om_index new_client_table_entry t' k) t')"
  by (auto simp: forgets_def om_index_def new_client_table_entry_def split: option.splits)

lemma forgets_raise: "forgets t t' \<Longrightarrow> forgets t (fold raise_request_number log t')"
proof (induction log arbitrary: t')
  case (Cons x log)
  have "forgets t (raise_request_number x t')"
    using Cons.prems
    by (cases x) (auto simp: raise_request_number_def Let_def intro!: forgets_assign forgets_index)
  then show ?case by (simp add: Cons.IH)
qed simp

lemma readies_same [simp]:
  "st_state_machine s' = st_state_machine s \<Longrightarrow> st_last_executed_op s' = st_last_executed_op s \<Longrightarrow>
     st_client_table s' = st_client_table s \<Longrightarrow> st_op s' = st_op s \<Longrightarrow> readies s s'"
  by (simp add: readies_def advances_def)

lemma op_le_next: "op \<noteq> - 1 \<Longrightarrow> op \<le> op + (1 :: 'a::len word)"
  using unat_plus_one [of op] by (simp add: word_le_nat_alt)

lemma computes_ready: "readies (r_state r) (r_state r') \<Longrightarrow> computes r r'"
  unfolding computes_def by blast

lemma computes_execute:
  "readies (r_state r) (r_state r1) \<Longrightarrow> r_state r' = r_state (execute_commited_ops r1) \<Longrightarrow> computes r r'"
  unfolding computes_def by blast

lemma computes_commit: "readies (r_state r) (r_state r1) \<Longrightarrow> computes r (execute_commited_ops (set_commit k r1))"
  by (rule computes_execute [OF _ refl]) (simp add: readies_def advances_def)

lemma computes_learn_commit: "readies (r_state r) (r_state r1) \<Longrightarrow> computes r (learn_commit k r1)"
  by (simp add: learn_commit_def computes_commit computes_ready)

lemma computes_advance: "readies (r_state r) (r_state r1) \<Longrightarrow> computes r (advance_primary_commit_number r1)"
  unfolding advance_primary_commit_number_def
  by (subst advance_loop_frame) (simp add: computes_commit computes_ready del: advance_loop.simps)

lemma computes_request: "st_op (r_state r) \<noteq> - 1 \<Longrightarrow> computes r (handle_request inbound r)"
  by (rule computes_ready)
    (auto simp: handle_request_def Let_def readies_def advances_def op_le_next intro!: forgets_assign forgets_index)

lemma computes_prepare: "st_op (r_state r) \<noteq> - 1 \<Longrightarrow> computes r (handle_prepare env inbound r)"
  unfolding handle_prepare_def Let_def
  by (rule computes_learn_commit) (simp add: readies_def advances_def forgets_assign op_le_next)

lemma computes_prepare_ok: "computes r (handle_prepare_ok inbound r)"
  by (auto simp: handle_prepare_ok_def Let_def intro: computes_ready computes_advance split: option.splits)

lemma computes_do_view_change:
  assumes "readies (r_state r) (r_state r1)" and "st_status (r_state r) = VIEW_CHANGE"
    and "st_view (r_state r1) = st_view (r_state r)"
  shows "computes r (handle_do_view_change env inbound r1)"
proof -
  let ?received = "st_do_view_change_received (r_state r1) @ [in_message inbound]"
  obtain bp bo mc where sel: "fold (select_next (env_junk env)) (tl ?received)
      (select_first (env_junk env) (st_commit (r_state r1)) (hd ?received)) = (bp, bo, mc)"
    by (metis prod.exhaust)
  show ?thesis
  proof (cases "quorum (r_state r1) \<le> length ?received")
    case True
    define s where "s = (r_state r1)\<lparr>st_do_view_change_received := [], st_log := dvc_log bp, st_op := bo,
      st_commit := mc, st_status := NORMAL\<rparr>"
    have "handle_do_view_change env inbound r1 =
        execute_commited_ops (emit (Broadcast_to_peers (start_view_message s)) (r1\<lparr>r_state := s\<rparr>))"
      using True sel by (simp add: handle_do_view_change_def Let_def s_def)
    moreover have "readies (r_state r) s"
      using assms by (simp add: readies_def advances_def s_def)
    ultimately show ?thesis
      by (intro computes_execute [where ?r1.0 = "emit (Broadcast_to_peers (start_view_message s)) (r1\<lparr>r_state := s\<rparr>)"])
        simp_all
  next
    case False
    then show ?thesis
      using assms by (intro computes_ready) (simp add: handle_do_view_change_def Let_def readies_def advances_def)
  qed
qed

lemma computes_start_view_change:
  "st_status (r_state r) = VIEW_CHANGE \<Longrightarrow> computes r (handle_start_view_change env inbound r)"
  by (auto simp: handle_start_view_change_def Let_def intro!: computes_do_view_change intro: computes_ready)

lemma computes_start_view:
  assumes "st_status (r_state r) = VIEW_CHANGE" and "h_view (in_header inbound) = st_view (r_state r)"
  shows "computes r (handle_start_view env inbound r)"
proof -
  obtain ok p where d: "start_view_deserialize (in_payload inbound) \<lparr>sv_log = []\<rparr> = (ok, p)"
    by (metis prod.exhaust)
  let ?h = "in_header inbound"
  define r1 where "r1 = r\<lparr>r_state := (r_state r)\<lparr>st_view := h_view ?h, st_op := h_op ?h, st_commit := h_commit ?h,
    st_log := sv_log p, st_status := NORMAL,
    st_client_table := fold raise_request_number (sv_log p) (st_client_table (r_state r))\<rparr>,
    r_last_primary_contact := env_now env\<rparr>"
  show ?thesis
  proof (cases ok)
    case True
    have "readies (r_state r) (r_state r1)"
      using assms by (simp add: readies_def advances_def r1_def forgets_raise)
    then show ?thesis
      by (rule computes_execute) (simp add: handle_start_view_def Let_def d True r1_def)
  next
    case False
    then show ?thesis by (intro computes_ready) (simp add: handle_start_view_def d)
  qed
qed

lemma dispatch_computes:
  assumes "can_process (r_state r) inbound" and "st_status (r_state r) \<noteq> RECOVERY"
    and "st_op (r_state r) \<noteq> - 1"
  shows "computes r (dispatch env inbound r)"
proof (cases "h_command (in_header inbound)")
  case command_recovery_response
  then show ?thesis
    using assms by (simp add: can_process_def check_can_process_recovery_response_def Let_def)
next
  case command_recovery
  then show ?thesis
    by (intro computes_ready) (simp add: dispatch_def handle_recovery_request_def split: prod.splits bool.splits)
next
  case command_commit
  then show ?thesis
    by (auto simp: dispatch_def handle_commit_def intro: computes_learn_commit)
next
  case command_start_view_change
  then show ?thesis
    using assms(1) by (simp add: dispatch_def can_process_def check_can_process_start_view_change_def Let_def
        computes_start_view_change)
next
  case command_do_view_change
  then show ?thesis
    using assms(1) by (simp add: dispatch_def can_process_def check_can_process_do_view_change_def Let_def
        computes_do_view_change split: if_splits)
next
  case command_start_view
  then show ?thesis
    using assms(1) by (simp add: dispatch_def can_process_def check_can_process_start_view_def Let_def
        computes_start_view split: if_splits)
qed (use assms(3) in \<open>simp_all add: dispatch_def handle_ping_def Let_def computes_ready computes_request
    computes_prepare computes_prepare_ok\<close>)

lemma queue_step_computes:
  assumes "queue_step r r'" and "st_status (r_state r) \<noteq> RECOVERY" and "st_status (r_state r') \<noteq> RECOVERY"
    and "st_op (r_state r) \<noteq> - 1"
  shows "computes r r'"
  using assms(1)
proof (cases rule: queue_step.cases)
  case (handle inbound rest env)
  have "computes (r\<lparr>r_message_queue := rest\<rparr>) r'"
    using handle assms(2,4) by (simp add: dispatch_computes)
  then show ?thesis by (simp add: computes_def)
qed (use assms(3) in \<open>auto simp: computes_ready initiate_view_change_def enter_new_view_def initiate_recovery_def Let_def
    split: prod.splits\<close>)

section \<open>Every run executes committed operations in order\<close>

lemma executed_ready:
  assumes inv0: "cluster_inv config a" and inv: "cluster_inv config a'" and num: "numbered config" and j: "j \<in> members config"
    and grows: "grows (members config) a a'" and sim: "stands config a j s" "stands config a' j s'"
    and exec: "executed config a j s" and ready: "readies s s'"
  shows "executed config a' j s'"
proof -
  obtain es where es: "length es = unat (st_last_executed_op s)" "st_last_executed_op s \<le> st_op s"
    "committed_prefix config a (last_view a j) es" "distinct (map session es) \<Longrightarrow> computed es s"
    using exec by (auto simp: executed_def)
  have s': "st_last_executed_op s' = st_last_executed_op s" "computed es s \<Longrightarrow> computed es s'"
    using ready by (fastforce simp: readies_def computed_def forgets_def)+
  note old = committed_prefix_mono [OF es(3) order_refl grows]
  have "st_last_executed_op s \<le> st_op s'"
  proof (cases "st_op s \<le> st_op s' \<or> es = []")
    case True
    then show ?thesis using es(1,2) by (auto simp: unat_eq_zero [symmetric] eq_commute [of 0] word_le_nat_alt)
  next
    case False
    then have v: "st_status s = VIEW_CHANGE" "st_status s' = NORMAL" "st_view s' = st_view s"
      using ready by (auto simp: readies_def advances_def)
    obtain u n h where u: "u \<le> last_view a j" "commits config a' u n" "p_hist a' u = Some h" "length es \<le> n"
      using old False by (auto simp: committed_prefix_def)
    have "p_view a j = unat (st_view s)" "\<not> p_normal a j" "last_view a' j = unat (st_view s)"
      using standsD(2,3) [OF sim(1)] standsD(7) [OF sim(2)] v by auto
    moreover from this(2) have "last_view a j < p_view a j"
      using inv0 j by (simp add: proto_inv_def inv_logs_def last_view_def)
    ultimately have less: "u < last_view a' j"
      using u(1) by simp
    have "n \<le> length (p_log a' j)"
      using quorum_system.log_agrees_with_committed(2) [OF numbered_quorum_system [OF num] inv u(2,3)
          log_of_member [OF inv j] _ less] less by simp
    then show ?thesis
      using u(4) es(1) log_rep_length [OF standsD(4) [OF sim(2)]] by (simp add: word_le_nat_alt)
  qed
  moreover have "committed_prefix config a' (last_view a' j) es"
    using committed_prefix_mono [OF es(3) growsD(6) [OF grows j] grows] .
  ultimately show ?thesis
    unfolding executed_def using es(1,4) s' by (intro exI [of _ es]) simp
qed

lemma executed_computes:
  assumes inv0: "cluster_inv config a" and inv: "cluster_inv config a'" and num: "numbered config" and j: "j \<in> members config"
    and grows: "grows (members config) a a'" and sim: "stands config a j (r_state r)" "stands config a' j (r_state r')"
    and exec: "executed config a j (r_state r)" and comp: "computes r r'"
  shows "executed config a' j (r_state r')"
proof -
  obtain r1 where r1: "readies (r_state r) (r_state r1)"
    "r_state r' = r_state r1 \<or> r_state r' = r_state (execute_commited_ops r1)"
    using comp by (auto simp: computes_def)
  have sim1: "stands config a' j (r_state r1)"
    using r1(2) sim(2) by auto
  have "executed config a' j (r_state r1)"
    by (rule executed_ready [OF inv0 inv num j grows sim(1) sim1 exec r1(1)])
  with r1(2) executed_loop [OF inv num j sim1] show ?thesis by auto
qed

lemma timer_computes: "computes r (check_primary_liveness env r)" "computes r (heartbeat r)"
  by (auto intro!: computes_ready simp: check_primary_liveness_def schedule_liveness_check_def initiate_view_change_def
      enter_new_view_def heartbeat_def schedule_heartbeat_def send_commit_message_if_needed_def Let_def)

lemma cluster_step_computes:
  assumes "cluster_step blake3 M c c'" and "calm M c" and "calm M c'" and j: "j \<in> M"
  shows "computes (cs_replica c j) (cs_replica c' j)"
  using assms(1)
proof (cases rule: cluster_step.cases)
  case (turn i r')
  then have "st_status (r_state r') \<noteq> RECOVERY" "st_status (r_state (cs_replica c i)) \<noteq> RECOVERY"
    "st_op (r_state (cs_replica c i)) \<noteq> - 1"
    using assms(2,3) by (auto simp: calm_def)
  with queue_step_computes [OF turn(3)] turn(1) show ?thesis
    by (auto simp: computes_ready)
qed (auto simp: computes_ready enqueue_message_def timer_computes)

lemma executed_run:
  assumes "calm_run blake3 config c" and num: "numbered config"
  shows "\<exists>a. agrees config a c \<and> (\<forall>j\<in>members config. executed config a j (r_state (cs_replica c j)))"
  using assms
proof (induction rule: calm_run.induct)
  case (init envs)
  have "executed config proto_init j (new_ReplicaState j config)" for j
    unfolding executed_def
    by (rule exI [of _ "[]"]) (simp add: committed_prefix_def computed_def contents_after_def new_ReplicaState_def om_find_def)
  then show ?case
    using agrees_start [OF num, of envs] by (intro exI [of _ proto_init]) (simp add: cluster_start_def)
next
  case (step c c')
  obtain a where agrees: "agrees config a c"
    and exec: "\<And>j. j \<in> members config \<Longrightarrow> executed config a j (r_state (cs_replica c j))"
    using step.IH [OF num] by blast
  note calm = calm_run_calm [OF step.hyps(1)]
  obtain a' where agrees': "agrees config a' c'" and grows: "grows (members config) a a'"
    using agrees_step [OF step.hyps(2) agrees num calm_within [OF calm]] calm_remembers [OF calm] by blast
  have "executed config a' j (r_state (cs_replica c' j))" if j: "j \<in> members config" for j
  proof (rule executed_computes [OF agreesD(1) [OF agrees] agreesD(1) [OF agrees'] num j grows
        agreesD(3) [OF agrees j] agreesD(3) [OF agrees' j] exec [OF j]])
    show "computes (cs_replica c j) (cs_replica c' j)"
      using cluster_step_computes [OF step.hyps(2) calm step.hyps(3) j] .
  qed
  with agrees' show ?case by blast
qed

text \<open>The executed operations of a replica, read off its log.\<close>

definition executed_ops :: "ReplicaState \<Rightarrow> log_entry list" where
  "executed_ops s = map (\<lambda>k. strip_acks (the (om_find (st_log s) (of_nat k)))) [1..<Suc (unat (st_last_executed_op s))]"

lemma executed_ops_committed:
  assumes inv: "cluster_inv config a" and num: "numbered config" and j: "j \<in> members config"
    and sim: "stands config a j s" and es: "length es = unat (st_last_executed_op s)"
      "st_last_executed_op s \<le> st_op s" "committed_prefix config a (last_view a j) es"
  shows "es = executed_ops s"
proof (rule nth_equalityI)
  show "length es = length (executed_ops s)"
    by (simp add: executed_ops_def es(1))
  fix i assume i: "i < length es"
  then obtain u n h where u: "u \<le> last_view a j" "commits config a u n" "p_hist a u = Some h" "length es \<le> n"
      "n \<le> length h" "prefix es h"
    using es(3) by (auto simp: committed_prefix_def)
  have k: "unat (of_nat (Suc i) :: u64) = Suc i"
    using i es(1) unat_less_power [of "st_last_executed_op s"] by (intro unat_of_nat_small) simp
  then have "unat (of_nat (Suc i) :: u64) \<le> length (p_log a j)"
    using i es log_rep_length [OF standsD(4) [OF sim]] by (simp add: word_le_nat_alt)
  then obtain e where e: "om_find (st_log s) (of_nat (Suc i)) = Some e"
    using log_rep_Some [OF standsD(4) [OF sim], of "of_nat (Suc i)"] k by auto
  have "strip_acks e = h ! i"
    using entry_in_history [OF inv num j sim e u(1-3)] k u(4) i by simp
  moreover have "es ! i = h ! i"
    using u(6) i by (auto simp: prefix_def nth_append)
  moreover have "executed_ops s ! i = strip_acks e"
    using i es(1) e by (simp add: executed_ops_def del: upt_Suc of_nat_Suc)
  ultimately show "es ! i = executed_ops s ! i" by simp
qed

lemma executed_ops_run:
  assumes "calm_run blake3 config c" and num: "numbered config"
  shows "\<exists>a. agrees config a c \<and> (\<forall>j\<in>members config.
    committed_prefix config a (last_view a j) (executed_ops (r_state (cs_replica c j))) \<and>
    (distinct (map session (executed_ops (r_state (cs_replica c j)))) \<longrightarrow>
      computed (executed_ops (r_state (cs_replica c j))) (r_state (cs_replica c j))))"
proof -
  obtain a where agrees: "agrees config a c"
    and exec: "\<And>j. j \<in> members config \<Longrightarrow> executed config a j (r_state (cs_replica c j))"
    using executed_run [OF assms] by blast
  have "committed_prefix config a (last_view a j) (executed_ops (r_state (cs_replica c j))) \<and>
      (distinct (map session (executed_ops (r_state (cs_replica c j)))) \<longrightarrow>
        computed (executed_ops (r_state (cs_replica c j))) (r_state (cs_replica c j)))" if j: "j \<in> members config" for j
  proof -
    let ?s = "r_state (cs_replica c j)"
    obtain es where es: "length es = unat (st_last_executed_op ?s)" "st_last_executed_op ?s \<le> st_op ?s"
      "committed_prefix config a (last_view a j) es" "distinct (map session es) \<longrightarrow> computed es ?s"
      using exec [OF j] by (auto simp: executed_def)
    have "es = executed_ops ?s"
      by (rule executed_ops_committed [OF agreesD(1) [OF agrees] num j agreesD(3) [OF agrees j] es(1-3)])
    with es(3,4) show ?thesis by simp
  qed
  with agrees show ?thesis by blast
qed

text \<open>
  C6: the state machine of every replica is a sequential key-value store. In every run of a
  cluster in which no replica has started a recovery, unless one request was logged under two
  of the executed op numbers, the contents of a replica's key-value store are what executing the
  operations of its log up to its last executed op gives, one after the other, each exactly once and in op order.
\<close>
theorem state_machine_sequential:
  assumes run: "calm_run blake3 config c" and num: "numbered config" and j: "j \<in> members config"
    and once: "distinct (map session (executed_ops (r_state (cs_replica c j))))"
  shows "st_state_machine (r_state (cs_replica c j)) = contents_after (executed_ops (r_state (cs_replica c j)))"
  using executed_ops_run [OF run num] j once by (auto simp: computed_def)

lemma sample_executed:
  "executed_ops (r_state (cs_replica sample_cluster 0)) = [sample_op {}]"
  "executed_ops (r_state (cs_replica sample_cluster 1)) = [sample_op {}]"
  by (simp_all add: executed_ops_def sample_replicas one_op_done_def one_op_def om_find_def strip_acks_def sample_op_def)

theorem state_machine_sequential_witness:
  "st_state_machine (r_state (cs_replica sample_cluster 1)) = contents_after [sample_op {}]"
  using state_machine_sequential [OF sample_run numbered_server, of 1] by (simp add: server_members sample_executed)

text \<open>
  C4: as long as no replica recovers, replicas that have executed the same number of operations have executed the
  same operations and, unless one request was logged under two op numbers, hold the same key-value
  contents, whatever the network, the clients and the view changes of the run did. The runs are those in which no replica
  has been in recovery and no view or op number is the last of its range (\<open>calm_run\<close>). Both conditions on the contents are
  needed: a recovery keeps contents that no longer belong to the executed operations (\<open>Cluster_Stale\<close>), and a request logged twice
  is executed twice by a backup.
\<close>
theorem state_machines_agree:
  assumes run: "calm_run blake3 config c" and num: "numbered config"
    and ij: "i \<in> members config" "j \<in> members config"
    and same: "st_last_executed_op (r_state (cs_replica c i)) = st_last_executed_op (r_state (cs_replica c j))"
  shows "executed_ops (r_state (cs_replica c i)) = executed_ops (r_state (cs_replica c j)) \<and>
    (distinct (map session (executed_ops (r_state (cs_replica c i)))) \<longrightarrow>
      st_state_machine (r_state (cs_replica c i)) = st_state_machine (r_state (cs_replica c j)))"
proof -
  obtain a where a: "agrees config a c"
    "\<And>j. j \<in> members config \<Longrightarrow> committed_prefix config a (last_view a j) (executed_ops (r_state (cs_replica c j)))"
    "\<And>j. j \<in> members config \<Longrightarrow> distinct (map session (executed_ops (r_state (cs_replica c j)))) \<Longrightarrow>
      computed (executed_ops (r_state (cs_replica c j))) (r_state (cs_replica c j))"
    using executed_ops_run [OF run num] by blast
  have eq: "executed_ops (r_state (cs_replica c i)) = executed_ops (r_state (cs_replica c j))"
    by (rule committed_prefix_agree [OF agreesD(1) [OF a(1)] num a(2) a(2)])
      (use ij same in \<open>simp_all add: executed_ops_def\<close>)
  with a(3) [OF ij(1)] a(3) [OF ij(2)] show ?thesis
    by (simp add: computed_def)
qed

theorem state_machines_agree_witness:
  "executed_ops (r_state (cs_replica sample_cluster 0)) = [sample_op {}] \<and>
   st_state_machine (r_state (cs_replica sample_cluster 0)) = st_state_machine (r_state (cs_replica sample_cluster 1))"
proof -
  have "st_last_executed_op (r_state (cs_replica sample_cluster 0)) = st_last_executed_op (r_state (cs_replica sample_cluster 1))"
    by (simp add: sample_replicas one_op_done_def)
  from state_machines_agree [OF sample_run numbered_server _ _ this] show ?thesis
    by (simp add: server_members sample_executed)
qed

section \<open>Requests logged twice\<close>

lemma prepared_then_committed:
  fixes b :: replica and inbound cm :: inbound_message and env env' :: environment
  defines "s \<equiv> r_state b" and "h \<equiv> in_header inbound"
  defines "e \<equiv> \<lparr>le_view = st_view s, le_op_type = h_operation h, le_client_id = h_client h,
    le_request_num = h_request h, le_payload = in_payload inbound, le_prepare_ok_acks = {}\<rparr>"
  defines "b1 \<equiv> handle_prepare env inbound b"
  assumes settled: "st_commit s = st_op s" "st_last_executed_op s = st_op s" "st_op s \<noteq> - 1"
    and commit: "h_commit h \<le> st_op s" "h_commit (in_header cm) = st_op s + 1"
  shows "handle_commit env' cm b1 = execute_next e (set_commit (st_op s + 1) (b1\<lparr>r_last_primary_contact := env_now env'\<rparr>))"
    and "om_find (st_client_table (r_state b1)) (h_client h) =
      Some \<lparr>ct_request_number = h_request h, ct_executed = False, ct_result = []\<rparr>"
    and "st_state_machine (r_state b1) = st_state_machine s" "st_last_executed_op (r_state b1) = st_op s"
proof -
  have b1: "st_commit (r_state b1) = st_op s" "st_last_executed_op (r_state b1) = st_op s"
    "om_find (st_log (r_state b1)) (st_op s + 1) = Some e" "st_state_machine (r_state b1) = st_state_machine s"
    "om_find (st_client_table (r_state b1)) (h_client h) =
      Some \<lparr>ct_request_number = h_request h, ct_executed = False, ct_result = []\<rparr>"
    using settled(1,2) leD [OF commit(1)]
    by (simp_all add: b1_def handle_prepare_def learn_commit_def Let_def s_def h_def e_def)
  show "om_find (st_client_table (r_state b1)) (h_client h) =
      Some \<lparr>ct_request_number = h_request h, ct_executed = False, ct_result = []\<rparr>"
    "st_state_machine (r_state b1) = st_state_machine s" "st_last_executed_op (r_state b1) = st_op s"
    using b1 by simp_all
  let ?r = "set_commit (st_op s + 1) (b1\<lparr>r_last_primary_contact := env_now env'\<rparr>)"
  have "st_op s < st_op s + 1"
    using unat_plus_one [OF settled(3)] by (simp add: word_less_nat_alt)
  then have "handle_commit env' cm b1 = execute_commited_ops ?r"
    using b1(1) commit(2) by (simp add: handle_commit_def learn_commit_def)
  also have "\<dots> = execute_next e ?r"
    using b1 settled(3) by (intro execute_single [where n = "st_op s"]) simp_all
  finally show "handle_commit env' cm b1 = execute_next e ?r" .
qed

text \<open>
  C19: a request that is logged twice is executed twice by a backup and once by the primary. A
  replica whose client session says that the request of an entry has been executed leaves its
  key-value store alone when it comes to that entry; but a backup that is sent the entry in a Prepare forgets that
  the request was executed and applies it a second time when the entry is committed, whatever
  its session said before.
\<close>
theorem repeated_request_executed_again:
  fixes b p :: replica and inbound cm :: inbound_message
  defines "s \<equiv> r_state b" and "h \<equiv> in_header inbound"
  defines "e \<equiv> \<lparr>le_view = st_view s, le_op_type = h_operation h, le_client_id = h_client h,
    le_request_num = h_request h, le_payload = in_payload inbound, le_prepare_ok_acks = {}\<rparr>"
  assumes settled: "st_commit s = st_op s" "st_last_executed_op s = st_op s" "st_op s \<noteq> - 1"
    and commit: "h_commit h \<le> st_op s" "h_commit (in_header cm) = st_op s + 1"
    and session: "om_find (st_client_table (r_state p)) (h_client h) =
      Some \<lparr>ct_request_number = h_request h, ct_executed = True, ct_result = res\<rparr>"
  shows "st_state_machine (r_state (execute_next e p)) = st_state_machine (r_state p) \<and>
    st_state_machine (r_state (handle_commit env' cm (handle_prepare env inbound b))) =
      fst (apply_operation (h_operation h) (in_payload inbound) (st_state_machine s)) \<and>
    st_last_executed_op (r_state (handle_commit env' cm (handle_prepare env inbound b))) = st_op s + 1"
proof -
  note b = prepared_then_committed [OF settled [unfolded s_def] commit [unfolded s_def h_def],
      folded s_def h_def, folded e_def]
  let ?r = "set_commit (st_op s + 1) (handle_prepare env inbound b\<lparr>r_last_primary_contact := env_now env'\<rparr>)"
  have "abs_exec (r_state (execute_next e ?r)) = exec_step e (abs_exec (r_state ?r))"
    by (rule execute_next_refines)
  then have "st_state_machine (r_state (execute_next e ?r)) =
      fst (apply_operation (h_operation h) (in_payload inbound) (st_state_machine s))"
    using b(2,3) by (simp add: abs_exec_def exec_step_def e_def case_prod_beta)
  moreover have "abs_exec (r_state (execute_next e p)) = exec_step e (abs_exec (r_state p))"
    by (rule execute_next_refines)
  then have "st_state_machine (r_state (execute_next e p)) = st_state_machine (r_state p)"
    using session by (simp add: abs_exec_def exec_step_def e_def)
  ultimately show ?thesis
    using b(1,4) by simp
qed

text \<open>In the example cluster the request is prepared a second time, with another value.\<close>

definition sample_repeat :: inbound_message where
  "sample_repeat = \<lparr>in_connection = Some 5, in_message = message_with (zero_header\<lparr>h_command := command_prepare,
     h_operation := operation_set, h_client := UInt128 0 7, h_request := 1, h_op := 2, h_commit := 1\<rparr>) (bytes_of_string ''k w'')\<rparr>"

definition sample_repeat_commit :: inbound_message where
  "sample_repeat_commit = \<lparr>in_connection = Some 5, in_message = message_with (zero_header\<lparr>h_command := command_commit,
     h_commit := 2\<rparr>) []\<rparr>"

theorem repeated_request_executed_again_witness:
  "st_state_machine (r_state (execute_next ((sample_op {})\<lparr>le_payload := bytes_of_string ''k w''\<rparr>)
      (cs_replica sample_cluster 0))) ''k'' = Some ''v'' \<and>
   st_state_machine (r_state (handle_commit (sample_env 0) sample_repeat_commit
      (handle_prepare (sample_env 0) sample_repeat (cs_replica sample_cluster 1)))) ''k'' = Some ''w''"
proof -
  have w: "extract_word ''k w'' = (''k'', '' w'')" "extract_word '' w'' = (''w'', [])"
    by (simp_all add: extract_word_def is_space_def)
  have "st_state_machine (r_state (execute_next ((sample_op {})\<lparr>le_payload := bytes_of_string ''k w''\<rparr>)
      (cs_replica sample_cluster 0))) = [''k'' \<mapsto> ''v''] \<and>
    st_state_machine (r_state (handle_commit (sample_env 0) sample_repeat_commit
      (handle_prepare (sample_env 0) sample_repeat (cs_replica sample_cluster 1)))) =
      fst (apply_operation operation_set (bytes_of_string ''k w'') [''k'' \<mapsto> ''v''])"
    using repeated_request_executed_again [of "cs_replica sample_cluster 1" sample_repeat sample_repeat_commit
        "cs_replica sample_cluster 0" "bytes_of_string ''SET k=v''" "sample_env 0" "sample_env 0"]
    by (simp add: sample_replicas one_op_done_def one_op_def sample_repeat_def sample_repeat_commit_def sample_op_def
        om_find_def)
  then show ?thesis
    by (simp add: apply_operation_def w Let_def)
qed

end
