(* ===== verification/Cluster_Ledger.thy ===== *)
theory Cluster_Ledger
  imports Cluster
begin

text \<open>
  The book-keeping of recoveries, apart from the replicas: who has been asked and who has answered.
  A recovering replica asks each of the others once, under a nonce that nobody has used, and each answers at
  most once; one of them is the primary of the view the replica was in or has left that view.
  In a cluster of three, the two answers a replica waits for include the answer of that one.
\<close>

section \<open>Letters\<close>

text \<open>What counts of a recovery request or response.\<close>

record letter =
  lt_request :: bool
  lt_nonce :: uint128_t
  lt_sender :: int
  lt_view :: u32
  lt_op :: u64

definition answer_to :: "uint128_t \<Rightarrow> letter \<Rightarrow> bool" where
  "answer_to n l \<longleftrightarrow> \<not> lt_request l \<and> lt_nonce l = n"

definition from_sender :: "int \<Rightarrow> letter multiset \<Rightarrow> nat" where
  "from_sender i X = size {#l \<in># X. lt_sender l = i#}"

definition asked :: "uint128_t \<Rightarrow> letter multiset \<Rightarrow> nat" where
  "asked n X = size {#l \<in># X. lt_request l \<and> lt_nonce l = n#}"

definition replied :: "uint128_t \<Rightarrow> int \<Rightarrow> letter multiset \<Rightarrow> nat" where
  "replied n i X = from_sender i {#l \<in># X. answer_to n l#}"

text \<open>What a recovery depends on: per replica its view, op number, nonce and counter, the letters on
  their way to it and the answers it has kept.\<close>

record ledger =
  lg_view :: "int \<Rightarrow> u32"
  lg_op :: "int \<Rightarrow> u64"
  lg_recovering :: "int \<Rightarrow> bool"
  lg_nonce :: "int \<Rightarrow> uint128_t"
  lg_counter :: "int \<Rightarrow> u32"
  lg_mail :: "int \<Rightarrow> letter multiset"
  lg_kept :: "int \<Rightarrow> letter multiset"

text \<open>Nonces are handed out in order, and none that is still to come is in use.\<close>

definition nonce_at :: "u32 \<Rightarrow> int \<Rightarrow> uint128_t \<Rightarrow> bool" where
  "nonce_at k j n \<longleftrightarrow> (\<exists>sec nsec. n = fst (generate_nonce sec nsec k j))"

definition nonces_fresh :: "int set \<Rightarrow> ledger \<Rightarrow> bool" where
  "nonces_fresh M L \<longleftrightarrow> (\<forall>j\<in>M. \<forall>k n. lg_counter L j \<le> k \<longrightarrow> nonce_at k j n \<longrightarrow>
     (\<forall>d\<in>M. \<forall>l\<in>#lg_mail L d. lt_nonce l \<noteq> n)) \<and>
     (\<forall>j\<in>M. lg_recovering L j \<longrightarrow> (\<exists>k<lg_counter L j. nonce_at k j (lg_nonce L j)))"

text \<open>Each of the others is asked once and answers once.\<close>

definition answered_once :: "int set \<Rightarrow> ledger \<Rightarrow> bool" where
  "answered_once M L \<longleftrightarrow> (\<forall>j\<in>M. lg_recovering L j \<longrightarrow> (\<forall>i.
     replied (lg_nonce L j) i (lg_mail L j) + from_sender i (lg_kept L j) +
       (if i \<in> M - {j} then asked (lg_nonce L j) (lg_mail L i) else 0) \<le> (if i \<in> M - {j} then 1 else 0)))"

text \<open>One of the others is the primary of the view or has left it, and its answer does not fall behind.\<close>

definition vouches :: "(nat \<Rightarrow> int) \<Rightarrow> ledger \<Rightarrow> int \<Rightarrow> int \<Rightarrow> bool" where
  "vouches primary L j i \<longleftrightarrow> (primary (unat (lg_view L j)) = i \<or> lg_view L j < lg_view L i) \<and>
     (\<forall>l. l \<in># lg_kept L j \<or> l \<in># lg_mail L j \<and> answer_to (lg_nonce L j) l \<longrightarrow> lt_sender l = i \<longrightarrow>
        lt_view l = lg_view L j \<longrightarrow> lg_op L j \<le> lt_op l)"

definition recoveries_ok :: "int set \<Rightarrow> (nat \<Rightarrow> int) \<Rightarrow> ledger \<Rightarrow> bool" where
  "recoveries_ok M primary L \<longleftrightarrow> nonces_fresh M L \<and> answered_once M L \<and>
     (\<forall>j\<in>M. lg_recovering L j \<longrightarrow> (\<exists>i\<in>M - {j}. vouches primary L j i))"

lemma from_sender_simps [simp]:
  "from_sender i {#} = 0" "from_sender i (X + Y) = from_sender i X + from_sender i Y"
  "from_sender i (add_mset l X) = (if lt_sender l = i then 1 else 0) + from_sender i X"
  by (simp_all add: from_sender_def)

lemma asked_simps [simp]:
  "asked n {#} = 0" "asked n (X + Y) = asked n X + asked n Y"
  "asked n (add_mset l X) = (if lt_request l \<and> lt_nonce l = n then 1 else 0) + asked n X"
  by (simp_all add: asked_def)

lemma replied_simps [simp]:
  "replied n i {#} = 0" "replied n i (X + Y) = replied n i X + replied n i Y"
  "replied n i (add_mset l X) = (if answer_to n l \<and> lt_sender l = i then 1 else 0) + replied n i X"
  by (simp_all add: replied_def)

lemma from_sender_pos: "l \<in># X \<Longrightarrow> 0 < from_sender (lt_sender l) X"
  by (induction X) auto

lemma asked_mono: "X \<subseteq># Y \<Longrightarrow> asked n X \<le> asked n Y"
  by (simp add: asked_def multiset_filter_mono size_mset_mono)

lemma replied_mono: "X \<subseteq># Y \<Longrightarrow> replied n i X \<le> replied n i Y"
  by (simp add: replied_def from_sender_def multiset_filter_mono size_mset_mono)

lemma unused_nonce: "(\<And>l. l \<in># X \<Longrightarrow> lt_nonce l \<noteq> n) \<Longrightarrow> asked n X = 0 \<and> replied n i X = 0"
  by (induction X) (auto simp: answer_to_def)

lemma nonces_freshD:
  assumes "nonces_fresh M L"
  shows "j \<in> M \<Longrightarrow> lg_counter L j \<le> k \<Longrightarrow> nonce_at k j n \<Longrightarrow> d \<in> M \<Longrightarrow> l \<in># lg_mail L d \<Longrightarrow> lt_nonce l \<noteq> n"
    and "j \<in> M \<Longrightarrow> lg_recovering L j \<Longrightarrow> \<exists>k<lg_counter L j. nonce_at k j (lg_nonce L j)"
  using assms unfolding nonces_fresh_def by blast+

lemma answered_onceD:
  "answered_once M L \<Longrightarrow> j \<in> M \<Longrightarrow> lg_recovering L j \<Longrightarrow>
     replied (lg_nonce L j) i (lg_mail L j) + from_sender i (lg_kept L j) +
       (if i \<in> M - {j} then asked (lg_nonce L j) (lg_mail L i) else 0) \<le> (if i \<in> M - {j} then 1 else 0)"
  unfolding answered_once_def by blast

lemma recoveries_okD:
  assumes "recoveries_ok M primary L"
  shows "nonces_fresh M L" "answered_once M L"
    "j \<in> M \<Longrightarrow> lg_recovering L j \<Longrightarrow> \<exists>i\<in>M - {j}. vouches primary L j i"
  using assms by (auto simp: recoveries_ok_def)

lemma nonce_at_distinct:
  assumes "M \<subseteq> {0..<2 ^ 31}" and "i \<in> M" "j \<in> M" and "nonce_at k i n" "nonce_at k' j n"
  shows "i = j \<and> k = k'"
proof -
  have "0 \<le> i" "i < 2 ^ 31" "0 \<le> j" "j < 2 ^ 31"
    using assms(1-3) by auto
  then show ?thesis
    using assms(4,5) nonces_distinct [of i j k k'] unfolding nonce_at_def by blast
qed

section \<open>Steps of the ledger\<close>

text \<open>Letters are lost or delivered, views go up, recoveries end.\<close>

lemma recoveries_quiet:
  assumes L: "recoveries_ok M primary L"
    and view: "\<And>i. i \<in> M \<Longrightarrow> lg_view L i \<le> lg_view L' i" and counter: "\<And>i. i \<in> M \<Longrightarrow> lg_counter L i \<le> lg_counter L' i"
    and mail: "\<And>d. d \<in> M \<Longrightarrow> lg_mail L' d \<subseteq># lg_mail L d"
    and same: "\<And>j. j \<in> M \<Longrightarrow> lg_recovering L' j \<Longrightarrow> lg_recovering L j \<and> lg_nonce L' j = lg_nonce L j \<and>
      lg_view L' j = lg_view L j \<and> lg_op L' j = lg_op L j \<and> lg_kept L' j = lg_kept L j"
  shows "recoveries_ok M primary L'"
  unfolding recoveries_ok_def
proof (intro conjI ballI impI)
  note fresh = nonces_freshD [OF recoveries_okD(1) [OF L]]
  have in_mail: "l \<in># lg_mail L d" if "d \<in> M" "l \<in># lg_mail L' d" for d l
    using mset_subset_eqD [OF mail] that by blast
  show "nonces_fresh M L'"
    unfolding nonces_fresh_def
  proof (intro conjI ballI allI impI)
    show "lt_nonce l \<noteq> n" if "j \<in> M" "lg_counter L' j \<le> k" "nonce_at k j n" "d \<in> M" "l \<in># lg_mail L' d" for j k n d l
      using fresh(1) [OF that(1) order_trans [OF counter [OF that(1)] that(2)] that(3,4) in_mail [OF that(4,5)]] .
    show "\<exists>k<lg_counter L' j. nonce_at k j (lg_nonce L' j)" if "j \<in> M" "lg_recovering L' j" for j
      using fresh(2) [OF that(1)] same [OF that] less_le_trans [OF _ counter [OF that(1)]] by auto
  qed
  show "answered_once M L'"
    unfolding answered_once_def
  proof (intro ballI allI impI)
    fix j i assume j: "j \<in> M" "lg_recovering L' j"
    note s = same [OF j]
    have "replied (lg_nonce L j) i (lg_mail L' j) \<le> replied (lg_nonce L j) i (lg_mail L j)"
      using replied_mono [OF mail [OF j(1)]] .
    moreover have "asked (lg_nonce L j) (lg_mail L' i) \<le> asked (lg_nonce L j) (lg_mail L i)" if "i \<in> M - {j}"
      using asked_mono [OF mail] that by blast
    ultimately show "replied (lg_nonce L' j) i (lg_mail L' j) + from_sender i (lg_kept L' j) +
       (if i \<in> M - {j} then asked (lg_nonce L' j) (lg_mail L' i) else 0) \<le> (if i \<in> M - {j} then 1 else 0)"
      using answered_onceD [OF recoveries_okD(2) [OF L] j(1), of i] s by (auto split: if_splits)
  qed
  fix j assume j: "j \<in> M" "lg_recovering L' j"
  note s = same [OF j]
  obtain i where i: "i \<in> M - {j}" "vouches primary L j i"
    using recoveries_okD(3) [OF L j(1)] s by blast
  have "lg_view L j < lg_view L i \<Longrightarrow> lg_view L j < lg_view L' i"
    using view [of i] i(1) by auto
  then have "vouches primary L' j i"
    using i(2) s in_mail [OF j(1)] unfolding vouches_def by auto
  with i(1) show "\<exists>i\<in>M - {j}. vouches primary L' j i" by blast
qed

text \<open>A replica answers a request that has reached it.\<close>

lemma recoveries_answer:
  assumes L: "recoveries_ok M primary L" and i: "i \<in> M" "\<not> lg_recovering L i"
    and request: "add_mset l0 (mail i) \<subseteq># lg_mail L i" "lt_request l0" "\<And>d. d \<noteq> i \<Longrightarrow> mail d = lg_mail L d"
    and answer: "answer_to (lt_nonce l0) l1" "lt_sender l1 = i" "lt_view l1 = lg_view L i" "lt_op l1 = lg_op L i"
    and primary: "\<And>j. j \<in> M \<Longrightarrow> lg_recovering L j \<Longrightarrow> primary (unat (lg_view L j)) = i \<Longrightarrow> lg_view L i = lg_view L j \<Longrightarrow>
      lg_op L j \<le> lg_op L i"
  shows "recoveries_ok M primary (L\<lparr>lg_mail := (\<lambda>d. mail d + (if d = p then {#l1#} else {#}))\<rparr>)"
    (is "recoveries_ok M primary ?L")
  unfolding recoveries_ok_def
proof (intro conjI ballI impI)
  note fresh = nonces_freshD [OF recoveries_okD(1) [OF L]]
  have sub: "mail d \<subseteq># lg_mail L d" for d
    using request(1,3) by (cases "d = i") (auto simp: subset_mset.order_trans [OF _ request(1)])
  have l0: "l0 \<in># lg_mail L i"
    using mset_subset_eqD [OF request(1), of l0] by simp
  have old: "l \<in># lg_mail L d" if "l \<in># mail d" for l d
    using mset_subset_eqD [OF sub that] .
  show "nonces_fresh M ?L"
    unfolding nonces_fresh_def
  proof (intro conjI ballI allI impI)
    fix j k n d l
    assume "j \<in> M" "lg_counter ?L j \<le> k" "nonce_at k j n" and d: "d \<in> M" "l \<in># lg_mail ?L d"
    then have *: "lt_nonce l' \<noteq> n" if "l' \<in># lg_mail L d'" "d' \<in> M" for l' d'
      using fresh(1) [OF _ _ _ that(2,1)] by simp
    show "lt_nonce l \<noteq> n"
      using d * [OF old] * [OF l0 i(1)] answer(1) by (auto simp: answer_to_def split: if_splits)
  qed (use fresh(2) in simp)
  show "answered_once M ?L"
    unfolding answered_once_def
  proof (intro ballI allI impI)
    fix j i' assume j: "j \<in> M" "lg_recovering ?L j"
    then have "j \<noteq> i" using i(2) by auto
    let ?n = "lg_nonce L j"
    have r: "replied ?n i' (mail j) \<le> replied ?n i' (lg_mail L j)" "asked ?n (mail i') \<le> asked ?n (lg_mail L i')"
      "asked ?n (add_mset l0 (mail i)) \<le> asked ?n (lg_mail L i)"
      using replied_mono [OF sub] asked_mono [OF sub] asked_mono [OF request(1)] by blast+
    show "replied (lg_nonce ?L j) i' (lg_mail ?L j) + from_sender i' (lg_kept ?L j) +
       (if i' \<in> M - {j} then asked (lg_nonce ?L j) (lg_mail ?L i') else 0) \<le> (if i' \<in> M - {j} then 1 else 0)"
      using answered_onceD [OF recoveries_okD(2) [OF L] j(1), of i'] j(2) r i(1) \<open>j \<noteq> i\<close> request(2) answer(1,2)
      by (cases "i' = i") (auto simp: answer_to_def split: if_splits)
  qed
  fix j assume j: "j \<in> M" "lg_recovering ?L j"
  then obtain v where v: "v \<in> M - {j}" "vouches primary L j v"
    using recoveries_okD(3) [OF L j(1)] by auto
  have "lg_op L j \<le> lt_op l1" if "lt_sender l1 = v" "lt_view l1 = lg_view L j"
    using that v(2) primary [OF j(1)] j(2) answer by (auto simp: vouches_def)
  then have "vouches primary ?L j v"
    using v(2) old unfolding vouches_def by (auto split: if_splits)
  with v(1) show "\<exists>i\<in>M - {j}. vouches primary ?L j i" by blast
qed

text \<open>A recovering replica keeps an answer.\<close>

lemma recoveries_keep:
  assumes L: "recoveries_ok M primary L" and j: "j \<in> M" "lg_recovering L j"
    and mail: "add_mset l0 (mail j) \<subseteq># lg_mail L j" "answer_to (lg_nonce L j) l0" "\<And>d. d \<noteq> j \<Longrightarrow> mail d = lg_mail L d"
  shows "recoveries_ok M primary (L\<lparr>lg_mail := mail, lg_kept := (lg_kept L)(j := add_mset l0 (lg_kept L j))\<rparr>)"
    (is "recoveries_ok M primary ?L")
  unfolding recoveries_ok_def
proof (intro conjI ballI impI)
  note fresh = nonces_freshD [OF recoveries_okD(1) [OF L]]
  have sub: "mail d \<subseteq># lg_mail L d" for d
    using mail(1,3) by (cases "d = j") (auto simp: subset_mset.order_trans [OF _ mail(1)])
  have l0: "l0 \<in># lg_mail L j"
    using mset_subset_eqD [OF mail(1), of l0] by simp
  have old: "l \<in># lg_mail L d" if "l \<in># mail d" for l d
    using mset_subset_eqD [OF sub that] .
  show "nonces_fresh M ?L"
    unfolding nonces_fresh_def
  proof (intro conjI ballI allI impI)
    show "lt_nonce l \<noteq> n" if "j' \<in> M" "lg_counter ?L j' \<le> k" "nonce_at k j' n" "d \<in> M" "l \<in># lg_mail ?L d" for j' k n d l
      using fresh(1) [of j' k n d l] that old [of l d] by simp
  qed (use fresh(2) in simp)
  show "answered_once M ?L"
    unfolding answered_once_def
  proof (intro ballI allI impI)
    fix j' i assume j': "j' \<in> M" "lg_recovering ?L j'"
    let ?n = "lg_nonce L j'"
    have r: "replied ?n i (mail j') \<le> replied ?n i (lg_mail L j')" "asked ?n (mail i) \<le> asked ?n (lg_mail L i)"
      "replied ?n i (add_mset l0 (mail j)) \<le> replied ?n i (lg_mail L j)"
      using replied_mono [OF sub] asked_mono [OF sub] replied_mono [OF mail(1)] by blast+
    show "replied (lg_nonce ?L j') i (lg_mail ?L j') + from_sender i (lg_kept ?L j') +
       (if i \<in> M - {j'} then asked (lg_nonce ?L j') (lg_mail ?L i) else 0) \<le> (if i \<in> M - {j'} then 1 else 0)"
      using answered_onceD [OF recoveries_okD(2) [OF L] j'(1), of i] j'(2) r mail(2)
      by (cases "j' = j") (auto split: if_splits)
  qed
  fix j' assume j': "j' \<in> M" "lg_recovering ?L j'"
  then obtain v where v: "v \<in> M - {j'}" "vouches primary L j' v"
    using recoveries_okD(3) [OF L j'(1)] by auto
  have "vouches primary ?L j' v"
    using v(2) old l0 mail(2) unfolding vouches_def by (auto split: if_splits)
  with v(1) show "\<exists>i\<in>M - {j'}. vouches primary ?L j' i" by blast
qed

text \<open>A replica starts to recover.\<close>

lemma recoveries_start:
  assumes L: "recoveries_ok M primary L" and M: "M \<subseteq> {0..<2 ^ 31}"
    and j: "j \<in> M" "nonce_at (lg_counter L j) j n" "lg_counter L j \<noteq> - 1"
    and request: "lt_request l0" "lt_nonce l0 = n"
    and cover: "\<exists>i\<in>M - {j}. primary (unat (lg_view L j)) = i \<or> lg_view L j < lg_view L i"
    and mail: "\<And>d. d \<in> M \<Longrightarrow> mail d \<subseteq># lg_mail L d + (if d = j then {#} else {#l0#})"
  shows "recoveries_ok M primary (L\<lparr>lg_recovering := (lg_recovering L)(j := True), lg_nonce := (lg_nonce L)(j := n),
    lg_counter := (lg_counter L)(j := lg_counter L j + 1), lg_mail := mail, lg_kept := (lg_kept L)(j := {#})\<rparr>)"
    (is "recoveries_ok M primary ?L")
  unfolding recoveries_ok_def
proof (intro conjI ballI impI)
  note fresh = nonces_freshD [OF recoveries_okD(1) [OF L]]
  have next_counter: "lg_counter L j < lg_counter L j + 1"
    using unat_plus_one [OF j(3)] by (simp add: word_less_nat_alt)
  have new: "l \<in># lg_mail L d \<or> d \<noteq> j \<and> l = l0" if "d \<in> M" "l \<in># mail d" for l d
    using mset_subset_eqD [OF mail [OF that(1)] that(2)] by (auto split: if_splits)
  have unused: "asked n (lg_mail L d) = 0 \<and> replied n i (lg_mail L d) = 0" if "d \<in> M" for d i
    using fresh(1) [OF j(1) order_refl j(2) that] by (intro unused_nonce)
  have other: "n \<noteq> lg_nonce L j'" if "j' \<in> M" "lg_recovering L j'" "j' \<noteq> j" for j'
    using fresh(2) [OF that(1,2)] nonce_at_distinct [OF M that(1) j(1)] j(2) that(3) by blast
  show "nonces_fresh M ?L"
    unfolding nonces_fresh_def
  proof (intro conjI ballI allI impI)
    fix j' k m d l
    assume j': "j' \<in> M" "lg_counter ?L j' \<le> k" "nonce_at k j' m" and d: "d \<in> M" "l \<in># lg_mail ?L d"
    have k: "lg_counter L j' \<le> k"
      using j'(2) next_counter by (auto split: if_splits)
    have "n \<noteq> m"
      using nonce_at_distinct [OF M j(1) j'(1) j(2), of k] j'(2,3) next_counter by (auto split: if_splits)
    then show "lt_nonce l \<noteq> m"
      using new [OF d(1)] d(2) fresh(1) [OF j'(1) k j'(3) d(1)] request(2) by auto
  next
    fix j' assume "j' \<in> M" "lg_recovering ?L j'"
    then show "\<exists>k<lg_counter ?L j'. nonce_at k j' (lg_nonce ?L j')"
      using fresh(2) [of j'] j(2) next_counter by (auto split: if_splits)
  qed
  show "answered_once M ?L"
    unfolding answered_once_def
  proof (intro ballI allI impI)
    fix j' i assume j': "j' \<in> M" "lg_recovering ?L j'"
    show "replied (lg_nonce ?L j') i (lg_mail ?L j') + from_sender i (lg_kept ?L j') +
       (if i \<in> M - {j'} then asked (lg_nonce ?L j') (lg_mail ?L i) else 0) \<le> (if i \<in> M - {j'} then 1 else 0)"
    proof (cases "j' = j")
      case True
      have "asked n (mail i) \<le> 1" if "i \<in> M - {j}"
        using asked_mono [OF mail [of i], of n] unused [of i] that request by simp
      moreover have "replied n i (mail j) = 0"
        using replied_mono [OF mail [OF j(1)], of n i] unused [OF j(1)] by simp
      ultimately show ?thesis using True by simp
    next
      case False
      let ?n = "lg_nonce L j'"
      have rec: "lg_recovering L j'" and ne: "n \<noteq> ?n"
        using j' False other by simp_all
      have "replied ?n i (mail j') \<le> replied ?n i (lg_mail L j')"
        using replied_mono [OF mail [OF j'(1)], of ?n i] request(1) by (simp add: answer_to_def split: if_splits)
      moreover have "asked ?n (mail i) \<le> asked ?n (lg_mail L i)" if "i \<in> M - {j'}"
        using asked_mono [OF mail [of i], of ?n] that request ne by (simp split: if_splits)
      ultimately show ?thesis
        using answered_onceD [OF recoveries_okD(2) [OF L] j'(1) rec, of i] False by (auto split: if_splits)
    qed
  qed
  fix j' assume j': "j' \<in> M" "lg_recovering ?L j'"
  show "\<exists>i\<in>M - {j'}. vouches primary ?L j' i"
  proof (cases "j' = j")
    case True
    have "\<not> answer_to n l" if "l \<in># mail j" for l
      using new [OF j(1) that] fresh(1) [OF j(1) order_refl j(2) j(1)] by (auto simp: answer_to_def)
    with cover True show ?thesis
      by (auto simp: vouches_def)
  next
    case False
    then obtain v where v: "v \<in> M - {j'}" "vouches primary L j' v"
      using recoveries_okD(3) [OF L j'(1)] j'(2) by auto
    have "vouches primary ?L j' v"
      using v(2) new [OF j'(1)] request(1) False unfolding vouches_def by (auto simp: answer_to_def)
    with v(1) show ?thesis by blast
  qed
qed

text \<open>In a cluster of three, two answers include that of the replica that vouches.\<close>

lemma two_answers:
  assumes L: "recoveries_ok M primary L" and M: "finite M" "card M = 3" and j: "j \<in> M" "lg_recovering L j"
    and l0: "l0 \<in># lg_mail L j" "answer_to (lg_nonce L j) l0" and two: "2 \<le> size (add_mset l0 (lg_kept L j))"
  shows "\<exists>l\<in>#add_mset l0 (lg_kept L j). lt_view l = lg_view L j \<longrightarrow> lg_op L j \<le> lt_op l"
proof -
  let ?X = "add_mset l0 (lg_kept L j)"
  obtain v where v: "v \<in> M - {j}" "vouches primary L j v"
    using recoveries_okD(3) [OF L j] by blast
  have "card (M - {j}) = 2"
    using M j(1) by simp
  with v(1) obtain w where w: "M - {j} = {v, w}" "v \<noteq> w"
    by (metis card_2_iff doubleton_eq_iff insertE singletonD)
  have few: "from_sender i ?X \<le> (if i \<in> M - {j} then 1 else 0)" for i
  proof -
    obtain X where X: "lg_mail L j = add_mset l0 X"
      using l0(1) by (metis mset_add)
    then show ?thesis
      using answered_onceD [OF recoveries_okD(2) [OF L] j, of i] l0(2) by (auto split: if_splits)
  qed
  have "\<exists>l\<in>#?X. lt_sender l = v"
  proof (rule ccontr)
    assume none: "\<not> (\<exists>l\<in>#?X. lt_sender l = v)"
    have "lt_sender l = w" if "l \<in># ?X" for l
    proof -
      have "0 < from_sender (lt_sender l) ?X"
        using that by (rule from_sender_pos)
      then have "lt_sender l \<in> M - {j}"
        using few [of "lt_sender l"] by (auto split: if_splits)
      with w(1) none that show ?thesis by auto
    qed
    then have "{#l \<in># ?X. lt_sender l = w#} = ?X"
      by (intro filter_mset_eq_conv [THEN iffD2]) auto
    then have "from_sender w ?X = size ?X"
      unfolding from_sender_def by (rule arg_cong)
    then show False
      using few [of w] two by (auto split: if_splits)
  qed
  with v(2) l0 show ?thesis
    unfolding vouches_def by auto
qed

end
