(* ===== verification/Cluster_Recovery.thy ===== *)
theory Cluster_Recovery
  imports Cluster_Ledger Cluster_Safety
begin

text \<open>
  Recovery in a cluster of three. A replica that recovers needs two answers to a request with a fresh
  nonce; with three replicas these come from both of the others, one of which is the primary of
  the view it was in or has left that view. So no operation that it has acknowledged is lost, and every run of three
  replicas is one of the runs the safety theorems are about.
\<close>

section \<open>The letters of a cluster\<close>

definition traffic :: "vsr_message \<Rightarrow> bool" where
  "traffic m \<longleftrightarrow> h_command (msg_header m) \<in> {command_recovery, command_recovery_response}"

definition nonce_of :: "vsr_message \<Rightarrow> uint128_t" where
  "nonce_of m = (if h_command (msg_header m) = command_recovery
     then rq_nonce (snd (recovery_request_deserialize (msg_payload m) \<lparr>rq_nonce = uint128_zero\<rparr>))
     else rs_nonce (snd (recovery_response_deserialize (msg_payload m) \<lparr>rs_nonce = uint128_zero, rs_log = []\<rparr>)))"

definition letter_of :: "vsr_message \<Rightarrow> letter" where
  "letter_of m = \<lparr>lt_request = (h_command (msg_header m) = command_recovery), lt_nonce = nonce_of m,
     lt_sender = uint (h_replica (msg_header m)), lt_view = h_view (msg_header m), lt_op = h_op (msg_header m)\<rparr>"

definition letters :: "vsr_message multiset \<Rightarrow> letter multiset" where
  "letters X = image_mset letter_of {#m \<in># X. traffic m#}"

definition ledger_of :: "cluster \<Rightarrow> ledger" where
  "ledger_of c = (let s = (\<lambda>i. r_state (cs_replica c i)) in
     \<lparr>lg_view = (\<lambda>i. st_view (s i)), lg_op = (\<lambda>i. st_op (s i)), lg_recovering = (\<lambda>i. st_status (s i) = RECOVERY),
      lg_nonce = (\<lambda>i. st_recovery_nonce (s i)), lg_counter = (\<lambda>i. r_nonce_counter (cs_replica c i)),
      lg_mail = (\<lambda>d. letters (pending c d)), lg_kept = (\<lambda>i. image_mset letter_of (mset (st_recovery_responses (s i))))\<rparr>)"

lemma ledger_simps [simp]:
  "lg_view (ledger_of c) i = st_view (r_state (cs_replica c i))"
  "lg_op (ledger_of c) i = st_op (r_state (cs_replica c i))"
  "lg_recovering (ledger_of c) i \<longleftrightarrow> st_status (r_state (cs_replica c i)) = RECOVERY"
  "lg_nonce (ledger_of c) i = st_recovery_nonce (r_state (cs_replica c i))"
  "lg_counter (ledger_of c) i = r_nonce_counter (cs_replica c i)"
  "lg_mail (ledger_of c) d = letters (pending c d)"
  "lg_kept (ledger_of c) i = image_mset letter_of (mset (st_recovery_responses (r_state (cs_replica c i))))"
  by (simp_all add: ledger_of_def Let_def)

lemma letters_simps [simp]:
  "letters {#} = {#}" "letters (X + Y) = letters X + letters Y"
  "letters (add_mset m X) = (if traffic m then {#letter_of m#} else {#}) + letters X"
  by (simp_all add: letters_def)

lemma letters_mono: "X \<subseteq># Y \<Longrightarrow> letters X \<subseteq># letters Y"
  by (simp add: letters_def image_mset_subseteq_mono multiset_filter_mono)

lemma letters_none: "(\<And>m. m \<in># X \<Longrightarrow> \<not> traffic m) \<Longrightarrow> letters X = {#}"
  by (induction X) auto

lemma prepared_letter [simp]: "traffic (prepared_message blake3 m) = traffic m" "letter_of (prepared_message blake3 m) = letter_of m"
  by (simp_all add: traffic_def letter_of_def nonce_of_def)

section \<open>What a replica sends\<close>

definition timely :: "u32 \<Rightarrow> vsr_message \<Rightarrow> bool" where
  "timely v m \<longleftrightarrow> h_view (msg_header m) \<le> v"

text \<open>A message that is no part of a recovery.\<close>

definition dull :: "u32 \<Rightarrow> vsr_message \<Rightarrow> bool" where
  "dull v m \<longleftrightarrow> timely v m \<and> \<not> traffic m"

lemma dull_messages [simp]:
  "dull v (prepare_ok_message s k) \<longleftrightarrow> st_view s \<le> v" "dull v (start_view_message s) \<longleftrightarrow> st_view s \<le> v"
  "dull v (prepare_message inbound s) \<longleftrightarrow> st_view s \<le> v" "dull v (cached_reply inbound res)"
  "dull v (reply_message s e res) \<longleftrightarrow> st_view s \<le> v" "dull v (do_view_change_message s) \<longleftrightarrow> st_view s \<le> v"
  by (simp_all add: dull_def timely_def traffic_def prepare_ok_message_def start_view_message_def prepare_message_def
      cached_reply_def reply_message_def do_view_change_message_def new_message_def)
    (simp_all add: zero_header_def)

lemma execute_entry_dull: "sends (dull (st_view (r_state r))) r (execute_entry e r)"
  by (auto simp: execute_entry_def send_reply_def Let_def sends_def split: option.splits prod.splits)

lemma execute_dull: "sends (dull (st_view (r_state r))) r0 r \<Longrightarrow> sends (dull (st_view (r_state r))) r0 (execute_commited_ops r)"
proof (induction r rule: execute_commited_ops_induct)
  case (stop r)
  then show ?case by simp
next
  case (advance r e)
  have "sends (dull (st_view (r_state r))) r (execute_next e r)"
    using execute_entry_dull [of r e] by (simp add: execute_next_def sends_def)
  then show ?case
    using advance sends_trans [OF advance.prems] by simp
qed

lemma learn_commit_dull: "sends (dull (st_view (r_state r))) r0 r \<Longrightarrow> sends (dull (st_view (r_state r))) r0 (learn_commit k r)"
  using execute_dull [of "set_state (\<lambda>s. s\<lparr>st_commit := k\<rparr>) r" r0] by (simp add: learn_commit_def sends_def)

lemma advance_dull:
  "sends (dull (st_view (r_state r))) r0 r \<Longrightarrow> sends (dull (st_view (r_state r))) r0 (advance_primary_commit_number r)"
  using execute_dull [of "set_commit k r" r0 for k]
  unfolding advance_primary_commit_number_def by (subst advance_loop_frame) (simp add: sends_def del: advance_loop.simps)

lemma retroactive_dull:
  "sends (dull (st_view (r_state r))) r0 r \<Longrightarrow> sends (dull (st_view (r_state r))) r0 (retroactive_loop n op p r)"
proof (induction n arbitrary: op r)
  case (Suc n)
  have "sends (dull (st_view (r_state r))) r0 (emit (Send_to_peer p (prepare_ok_message (r_state r) op)) r)"
    using Suc.prems by (rule sends_emit) auto
  with Suc.prems Suc.IH [of "emit (Send_to_peer p (prepare_ok_message (r_state r) op)) r"] Suc.IH [of r] show ?case
    by (simp add: retroactive_loop.simps(2))
qed simp

lemma do_view_change_dull:
  "sends (dull (st_view (r_state r))) r (handle_do_view_change env inbound r)"
proof -
  let ?received = "st_do_view_change_received (r_state r) @ [in_message inbound]"
  obtain bp bo mc where sel: "fold (select_next (env_junk env)) (tl ?received)
      (select_first (env_junk env) (st_commit (r_state r)) (hd ?received)) = (bp, bo, mc)"
    by (metis prod.exhaust)
  have "sends (dull (st_view s)) r (execute_commited_ops (emit (Broadcast_to_peers (start_view_message s)) (r\<lparr>r_state := s\<rparr>)))" for s
    using execute_dull [of "emit (Broadcast_to_peers (start_view_message s)) (r\<lparr>r_state := s\<rparr>)" r] by (simp add: sends_def)
  from this [of "(r_state r)\<lparr>st_do_view_change_received := [], st_log := dvc_log bp, st_op := bo,
      st_commit := mc, st_status := NORMAL\<rparr>"] show ?thesis
    using sel by (auto simp: handle_do_view_change_def Let_def intro: sends_same)
qed

lemma start_view_change_dull:
  "sends (dull (st_view (r_state r))) r (handle_start_view_change env inbound r)"
proof -
  have *: "sends (dull (st_view (r_state r))) r (handle_do_view_change env i (r\<lparr>r_state := s\<rparr>))" if "st_view s = st_view (r_state r)" for i s
    using do_view_change_dull [of "r\<lparr>r_state := s\<rparr>" env i] that by (simp add: sends_def)
  show ?thesis
    by (auto simp: handle_start_view_change_def Let_def intro!: * sends_emit intro: sends_same)
qed

lemma start_view_dull:
  assumes "h_view (in_header inbound) = st_view (r_state r)"
  shows "sends (dull (st_view (r_state r))) r (handle_start_view env inbound r)"
proof -
  have *: "sends (dull (st_view (r_state r))) r (retroactive_loop n op p (execute_commited_ops r1))"
      "sends (dull (st_view (r_state r))) r (execute_commited_ops r1)"
    if "r_outbox r1 = r_outbox r" "st_view (r_state r1) = st_view (r_state r)" for n op p r1
    using retroactive_dull [of "execute_commited_ops r1" r] execute_dull [of r1 r] that by (simp_all add: sends_same)
  show ?thesis
    using assms by (auto simp: handle_start_view_def Let_def split: prod.splits bool.splits intro!: * intro: sends_same)
qed

lemma prepare_dull: "sends (dull (st_view (r_state r))) r (handle_prepare env inbound r)"
proof -
  have *: "sends (dull (st_view (r_state r))) r (learn_commit k r1)"
    if "sends (dull (st_view (r_state r))) r r1" "st_view (r_state r1) = st_view (r_state r)" for k r1
    using learn_commit_dull [of r1 r] that by simp
  show ?thesis
    unfolding handle_prepare_def Let_def by (rule *) (auto intro!: sends_emit intro: sends_same)
qed

lemma recovery_response_dull:
  assumes "st_view (r_state r) \<le> st_view (r_state (handle_recovery_response env inbound r))"
  shows "sends (dull (st_view (r_state (handle_recovery_response env inbound r)))) r (handle_recovery_response env inbound r)"
proof -
  have *: "sends (dull v) r (set_state f (execute_commited_ops r1))" if "r_outbox r1 = r_outbox r" "st_view (r_state r1) = v" for v f r1
    using execute_dull [OF sends_same [OF that(1)]] that(2) by (simp add: sends_def)
  have "sends (dull (h_view (msg_header best))) r (adopt_recovery env best r1)" if "r_outbox r1 = r_outbox r" for best r1
    unfolding adopt_recovery_def Let_def by (rule *) (simp_all add: that)
  then show ?thesis
    by (auto simp: handle_recovery_response_def Let_def split: prod.splits bool.splits intro: sends_same)
qed

lemma dispatch_dull:
  assumes "h_command (in_header inbound) \<noteq> command_recovery" and "can_process (r_state r) inbound"
    and "st_view (r_state r) \<le> st_view (r_state (dispatch env inbound r))"
  shows "sends (dull (st_view (r_state (dispatch env inbound r)))) r (dispatch env inbound r)"
proof (cases "h_command (in_header inbound)")
  case command_recovery_response
  then show ?thesis
    using assms(3) recovery_response_dull by (simp add: dispatch_def)
next
  case command_start_view
  then have "h_view (in_header inbound) = st_view (r_state r)"
    using assms(2) by (auto simp: can_process_def Let_def check_can_process_start_view_def split: if_splits)
  moreover from this have "st_view (r_state (handle_start_view env inbound r)) = st_view (r_state r)"
    by (simp add: handle_start_view_def Let_def split: prod.splits bool.splits)
  ultimately show ?thesis
    using command_start_view start_view_dull by (simp add: dispatch_def)
next
  case command_ping
  then show ?thesis
    by (auto simp: dispatch_def handle_ping_def Let_def dull_def timely_def traffic_def zero_header_def
        intro!: sends_emit intro: sends_same)
next
  case command_commit
  then show ?thesis
    using learn_commit_dull [of "r\<lparr>r_last_primary_contact := env_now env\<rparr>" r]
    by (simp add: dispatch_def handle_commit_def sends_same)
next
  case command_do_view_change
  moreover have "st_view (r_state (handle_do_view_change env inbound r)) = st_view (r_state r)"
    using do_view_change_harmless [of r env inbound] by simp
  ultimately show ?thesis
    using do_view_change_dull by (simp add: dispatch_def)
next
  case command_start_view_change
  moreover have "st_view (r_state (handle_start_view_change env inbound r)) = st_view (r_state r)"
    by (simp add: handle_start_view_change_def Let_def)
  ultimately show ?thesis
    using start_view_change_dull by (simp add: dispatch_def)
next
  case command_prepare
  then show ?thesis
    using prepare_dull by (simp add: dispatch_def) (simp add: handle_prepare_def Let_def)
next
  case command_request
  then show ?thesis
    by (auto simp: dispatch_def handle_request_def Let_def intro!: sends_emit intro: sends_same)
next
  case command_prepare_ok
  have *: "sends (dull (st_view (r_state r))) r (advance_primary_commit_number r1)"
    if "r_outbox r1 = r_outbox r" "st_view (r_state r1) = st_view (r_state r)" for r1
    using advance_dull [of r1 r] that by (simp add: sends_same)
  from command_prepare_ok show ?thesis
    by (auto simp: dispatch_def handle_prepare_ok_def Let_def intro!: * intro: sends_same split: option.splits)
qed (use assms(1) in \<open>simp_all add: dispatch_def sends_same\<close>)

lemma dispatch_while_recovering:
  assumes "h_command (in_header inbound) \<noteq> command_recovery_response" and "can_process (r_state r) inbound"
    and "st_status (r_state r) = RECOVERY"
  shows "r_state (dispatch env inbound r) = r_state r"
  using assms
  by (cases "h_command (in_header inbound)")
    (simp_all add: dispatch_def handle_ping_def can_process_def Let_def check_can_process_request_def
      check_can_process_prepare_def check_can_process_prepare_ok_def check_can_process_commit_def
      check_can_process_start_view_change_def check_can_process_do_view_change_def check_can_process_start_view_def
      check_can_process_recovery_request_def split: if_splits)

lemma dispatch_no_recovery:
  assumes "h_command (in_header inbound) \<noteq> command_recovery_response" and "st_status (r_state r) \<noteq> RECOVERY"
  shows "st_status (r_state (dispatch env inbound r)) \<noteq> RECOVERY"
  using assms
  by (cases "h_command (in_header inbound)")
    (auto simp: dispatch_def handle_ping_def handle_request_def handle_prepare_def handle_prepare_ok_def handle_commit_def
      handle_start_view_change_def handle_do_view_change_def handle_start_view_def handle_recovery_request_def
      Let_def split: option.splits prod.splits bool.splits)

lemma dispatch_counter [simp]: "r_nonce_counter (dispatch env inbound r) = r_nonce_counter r"
  by (cases "h_command (in_header inbound)")
    (auto simp: dispatch_def handle_ping_def handle_request_def handle_prepare_def handle_prepare_ok_def handle_commit_def
        handle_start_view_change_def handle_do_view_change_def handle_start_view_def handle_recovery_request_def
        handle_recovery_response_def adopt_recovery_def advance_primary_commit_number_def
        Let_def split: option.splits prod.splits bool.splits)

section \<open>Moves of one replica\<close>

text \<open>Every message of a replica is from a view that some replica has reached.\<close>

definition heard :: "int set \<Rightarrow> cluster \<Rightarrow> bool" where
  "heard M c \<longleftrightarrow> (\<forall>d\<in>M. \<forall>m\<in>#pending c d. h_command (msg_header m) \<in> {command_request, command_ping} \<or>
     (\<exists>i\<in>M. timely (st_view (r_state (cs_replica c i))) m))"

lemma heard_mono:
  assumes "heard M c" and view: "\<And>i. i \<in> M \<Longrightarrow> st_view (r_state (cs_replica c i)) \<le> st_view (r_state (cs_replica c' i))"
    and new: "\<And>d m. d \<in> M \<Longrightarrow> m \<in># pending c' d \<Longrightarrow> (\<exists>m'\<in>#pending c d. h_command (msg_header m') = h_command (msg_header m) \<and> h_view (msg_header m') = h_view (msg_header m)) \<or>
      h_command (msg_header m) \<in> {command_request, command_ping} \<or> (\<exists>i\<in>M. timely (st_view (r_state (cs_replica c' i))) m)"
  shows "heard M c'"
  unfolding heard_def
proof (intro ballI)
  fix d m assume d: "d \<in> M" "m \<in># pending c' d"
  have "h_command (msg_header m) \<in> {command_request, command_ping} \<or> (\<exists>i\<in>M. timely (st_view (r_state (cs_replica c' i))) m)"
    if m': "m' \<in># pending c d" "h_command (msg_header m') = h_command (msg_header m)" "h_view (msg_header m') = h_view (msg_header m)" for m'
  proof -
    have "h_command (msg_header m) \<in> {command_request, command_ping} \<or> (\<exists>i\<in>M. timely (st_view (r_state (cs_replica c i))) m)"
      using assms(1) d(1) m'(1) unfolding heard_def timely_def m'(2,3) [symmetric] by blast
    then show ?thesis
      using view unfolding timely_def by (meson order_trans)
  qed
  with new [OF d] show "h_command (msg_header m) \<in> {command_request, command_ping} \<or>
      (\<exists>i\<in>M. timely (st_view (r_state (cs_replica c' i))) m)"
    by blast
qed

lemma in_new_packets:
  assumes "sends P r r'" and "m \<in># addressed d (new_packets M j r r')"
  shows "P m"
proof -
  obtain acts where acts: "r_outbox r' = r_outbox r @ acts" "\<forall>x\<in>set acts. \<forall>m. message_of x = Some m \<longrightarrow> P m"
    using assms(1) by (auto simp: sends_def)
  with assms(2) show ?thesis
    by (auto simp: in_addressed new_packets_append set_sum_list_mset dest!: transmit_message)
qed

lemma heard_move:
  assumes "heard M c" and j: "j \<in> M" and view: "st_view (r_state (cs_replica c j)) \<le> st_view (r_state r')"
    and sent: "sends (timely (st_view (r_state r'))) (cs_replica c j) r'"
    and queue: "set (r_message_queue r') \<subseteq> set (r_message_queue (cs_replica c j))"
  shows "heard M (replica_moves M j r' c)"
proof (rule heard_mono [OF assms(1)])
  fix d m assume "d \<in> M" and "m \<in># pending (replica_moves M j r' c) d"
  then consider "m \<in># addressed d (new_packets M j (cs_replica c j) r')" | "m \<in># pending c d"
    using queue unfolding pending_moves by (auto simp: pending_def split: if_splits)
  then show "(\<exists>m'\<in>#pending c d. h_command (msg_header m') = h_command (msg_header m) \<and> h_view (msg_header m') = h_view (msg_header m)) \<or> h_command (msg_header m) \<in> {command_request, command_ping} \<or>
      (\<exists>i\<in>M. timely (st_view (r_state (cs_replica (replica_moves M j r' c) i))) m)"
    using in_new_packets [OF sent] j by cases force+
qed (use view in auto)

lemma letters_sent:
  "sends (dull v) r r' \<Longrightarrow> letters (addressed d (new_packets M j r r')) = {#}"
  by (intro letters_none) (auto simp: dull_def dest: in_new_packets)

text \<open>A move that neither asks nor answers nor keeps an answer.\<close>

lemma recoveries_move:
  assumes ok: "recoveries_ok M primary (ledger_of c)" and sent: "sends (dull v) (cs_replica c j) r'"
    and queue: "queued r' \<subseteq># queued (cs_replica c j)"
    and view: "st_view (r_state (cs_replica c j)) \<le> st_view (r_state r')"
    and counter: "r_nonce_counter r' = r_nonce_counter (cs_replica c j)"
    and same: "st_status (r_state r') = RECOVERY \<Longrightarrow> r_state r' = r_state (cs_replica c j)"
  shows "recoveries_ok M primary (ledger_of (replica_moves M j r' c))"
proof (rule recoveries_quiet [OF ok])
  show "lg_mail (ledger_of (replica_moves M j r' c)) d \<subseteq># lg_mail (ledger_of c) d" for d
    using letters_sent [OF sent] letters_mono [OF queue] by (simp add: pending_moves) (simp add: pending_def)
  show "lg_recovering (ledger_of c) i \<and> lg_nonce (ledger_of (replica_moves M j r' c)) i = lg_nonce (ledger_of c) i \<and>
      lg_view (ledger_of (replica_moves M j r' c)) i = lg_view (ledger_of c) i \<and>
      lg_op (ledger_of (replica_moves M j r' c)) i = lg_op (ledger_of c) i \<and>
      lg_kept (ledger_of (replica_moves M j r' c)) i = lg_kept (ledger_of c) i"
    if "lg_recovering (ledger_of (replica_moves M j r' c)) i" for i
    using that same by (auto split: if_splits)
qed (use view counter in auto)

text \<open>Answering a request.\<close>

lemma recovery_response_letter:
  assumes "wf_log (st_log s)" and "uint (word_of_int (st_id s) :: byte) = st_id s"
  shows "traffic (recovery_response_message s n)"
    "letter_of (recovery_response_message s n) =
       \<lparr>lt_request = False, lt_nonce = n, lt_sender = st_id s, lt_view = st_view s, lt_op = st_op s\<rparr>"
proof -
  have "h_command (msg_header (recovery_response_message s n)) = command_recovery_response"
    "h_replica (msg_header (recovery_response_message s n)) = word_of_int (st_id s)"
    by (simp_all add: recovery_response_message_def)
  then show "traffic (recovery_response_message s n)"
    "letter_of (recovery_response_message s n) =
       \<lparr>lt_request = False, lt_nonce = n, lt_sender = st_id s, lt_view = st_view s, lt_op = st_op s\<rparr>"
    using assms by (simp_all add: traffic_def letter_of_def nonce_of_def recovery_response_payload_of)
qed

lemma primary_ahead:
  assumes agrees: "agrees config a c" and num: "numbered config" and "i \<in> members config" "j \<in> members config"
    and "st_status (r_state (cs_replica c i)) = NORMAL" "st_status (r_state (cs_replica c j)) = RECOVERY"
    and "primary_of config (unat (st_view (r_state (cs_replica c j)))) = i"
    and view: "st_view (r_state (cs_replica c i)) = st_view (r_state (cs_replica c j))"
  shows "st_op (r_state (cs_replica c j)) \<le> st_op (r_state (cs_replica c i))"
proof -
  note inv = agreesD(1) [OF agrees] and simi = agreesD(3) [OF agrees assms(3)] and simj = agreesD(3) [OF agrees assms(4)]
  have views: "p_view a i = p_view a j" "last_view a j = p_view a j"
    using standsD(2,7) [OF simi] standsD(2,7) [OF simj] assms(6) view by simp_all
  have "p_hist a (p_view a i) = Some (p_log a i)"
    by (rule primary_log [OF inv assms(3)]) (use standsD(1-3) [OF simi] assms(5,7) view in auto)
  then have "prefix (p_log a j) (p_log a i)"
    using log_of_member [OF inv assms(4)] views by (auto dest: log_betweenD)
  then have "length (p_log a j) \<le> length (p_log a i)"
    by (rule prefix_length_le)
  then show ?thesis
    using log_rep_length [OF standsD(4) [OF simi]] log_rep_length [OF standsD(4) [OF simj]] by (simp add: word_le_nat_alt)
qed

lemma recoveries_answered:
  assumes ok: "recoveries_ok (members config) (primary_of config) (ledger_of c)" and agrees: "agrees config a c"
    and num: "numbered config" and i: "i \<in> members config" "st_status (r_state (cs_replica c i)) = NORMAL"
    and queue: "r_message_queue (cs_replica c i) = inbound # rest" and command: "h_command (in_header inbound) = command_recovery"
  shows "recoveries_ok (members config) (primary_of config) (ledger_of (replica_moves (members config) i
    (handle_recovery_request inbound ((cs_replica c i)\<lparr>r_message_queue := rest\<rparr>)) c))"
    (is "recoveries_ok ?M ?primary (ledger_of (replica_moves ?M i ?r' c))")
proof -
  let ?r = "cs_replica c i" and ?p = "uint (h_replica (in_header inbound))"
  obtain known q where d: "recovery_request_deserialize (in_payload inbound) \<lparr>rq_nonce = uint128_zero\<rparr> = (known, q)"
    by (metis prod.exhaust)
  let ?m = "recovery_response_message (r_state ?r) (rq_nonce q)"
  show ?thesis
  proof (cases known)
    case False
    then have "?r' = ?r\<lparr>r_message_queue := rest\<rparr>"
      using d by (simp add: handle_recovery_request_def)
    then show ?thesis
      using queue i(2) by (intro recoveries_move [OF ok, where v = 0]) (simp_all add: sends_same)
  next
    case True
    then have r': "?r' = emit (Send_to_peer ?p ?m) (?r\<lparr>r_message_queue := rest\<rparr>)"
      using d by (simp add: handle_recovery_request_def)
    define mail where "mail d = letters (addressed d (cs_network c) + (if d = i then mset (map in_message rest) else queued (cs_replica c d)))" for d
    have state: "wf_log (st_log (r_state ?r))" "st_id (r_state ?r) = i" "uint (word_of_int i :: byte) = i"
      using wf_log_rep [OF _ standsD(4) [OF agreesD(3) [OF agrees i(1)]]] agreesD(4) [OF agrees i(1)]
        standsD(1) [OF agreesD(3) [OF agrees i(1)]] uint_member [OF num i(1)]
      by (simp_all add: replica_ok_def state_ok_def belongs_def)
    have letter: "traffic ?m" "letter_of ?m = \<lparr>lt_request = False, lt_nonce = rq_nonce q, lt_sender = i,
        lt_view = st_view (r_state ?r), lt_op = st_op (r_state ?r)\<rparr>"
      using recovery_response_letter [of "r_state ?r" "rq_nonce q"] state by simp_all
    have request: "traffic (in_message inbound)" "lt_request (letter_of (in_message inbound))"
        "lt_nonce (letter_of (in_message inbound)) = rq_nonce q"
      using command d by (simp_all add: traffic_def letter_of_def nonce_of_def)
    have "recoveries_ok ?M ?primary ((ledger_of c)\<lparr>lg_mail := (\<lambda>d. mail d + (if d = ?p then {#letter_of ?m#} else {#}))\<rparr>)"
    proof (rule recoveries_answer [OF ok i(1) _ _ request(2)])
      show "add_mset (letter_of (in_message inbound)) (mail i) \<subseteq># lg_mail (ledger_of c) i"
        using queue request(1) by (simp add: mail_def pending_def)
      show "lg_op (ledger_of c) j \<le> lg_op (ledger_of c) i"
        if "j \<in> ?M" "lg_recovering (ledger_of c) j" "?primary (unat (lg_view (ledger_of c) j)) = i"
          "lg_view (ledger_of c) i = lg_view (ledger_of c) j" for j
        using primary_ahead [OF agrees num i(1) that(1) i(2)] that by simp
    qed (use i(2) letter(2) request(3) in \<open>simp_all add: mail_def pending_def answer_to_def\<close>)
    then show ?thesis
    proof (rule recoveries_quiet)
      show "lg_mail (ledger_of (replica_moves ?M i ?r' c)) d \<subseteq>#
          lg_mail ((ledger_of c)\<lparr>lg_mail := (\<lambda>d. mail d + (if d = ?p then {#letter_of ?m#} else {#}))\<rparr>) d" for d
        using letter(1) by (simp add: r' pending_moves new_packets_def mail_def)
    qed (simp_all add: r' split: if_splits)
  qed
qed

text \<open>Handling an answer.\<close>

lemma recovery_response_outcome:
  fixes inbound :: inbound_message and r :: replica and env :: environment
  defines "r' \<equiv> handle_recovery_response env inbound r" and "ms \<equiv> st_recovery_responses (r_state r) @ [in_message inbound]"
  defines "r1 \<equiv> set_state (\<lambda>s. s\<lparr>st_recovery_responses := ms\<rparr>) r"
  assumes d: "recovery_response_deserialize (in_payload inbound) \<lparr>rs_nonce = uint128_zero, rs_log = []\<rparr> = (known, q)"
  shows "r' = r \<or> rs_nonce q = st_recovery_nonce (r_state r) \<and> (r' = r1 \<or>
    quorum (r_state r) \<le> length ms \<and> r' = adopt_recovery env (fold better_response (tl ms) (hd ms)) r1 \<and>
    st_status (r_state r') = NORMAL)"
proof (cases "known \<and> rs_nonce q = st_recovery_nonce (r_state r)")
  case True
  have "quorum (r_state r1) = quorum (r_state r)"
    by (simp add: r1_def quorum_def)
  then show ?thesis
    using True d adopt_recovery_harmless(2) [of env "fold better_response (tl ms) (hd ms)" r1]
    by (simp add: r'_def handle_recovery_response_def Let_def ms_def r1_def)
next
  case False
  then show ?thesis
    using d by (auto simp: r'_def handle_recovery_response_def split: bool.splits)
qed

lemma recoveries_response:
  assumes ok: "recoveries_ok M primary (ledger_of c)" and j: "j \<in> M" "st_status (r_state (cs_replica c j)) = RECOVERY"
    and queue: "r_message_queue (cs_replica c j) = inbound # rest"
    and command: "h_command (in_header inbound) = command_recovery_response"
    and view: "st_view (r_state (cs_replica c j)) \<le>
      st_view (r_state (handle_recovery_response env inbound ((cs_replica c j)\<lparr>r_message_queue := rest\<rparr>)))"
  shows "recoveries_ok M primary (ledger_of (replica_moves M j
    (handle_recovery_response env inbound ((cs_replica c j)\<lparr>r_message_queue := rest\<rparr>)) c))"
proof -
  let ?r = "cs_replica c j" and ?m = "in_message inbound"
  let ?popped = "?r\<lparr>r_message_queue := rest\<rparr>"
  define r' where "r' = handle_recovery_response env inbound ?popped"
  have r'_queue: "r_message_queue r' = rest" "r_nonce_counter r' = r_nonce_counter ?r"
    using dispatch_counter [of env inbound ?popped] dispatch_queue [of env inbound ?popped] command by (simp_all add: r'_def dispatch_def)
  have sent: "sends (dull (st_view (r_state r'))) ?r r'"
    using recovery_response_dull [of ?popped env inbound] view by (simp add: r'_def sends_def)
  obtain known q where d: "recovery_response_deserialize (in_payload inbound) \<lparr>rs_nonce = uint128_zero, rs_log = []\<rparr> = (known, q)"
    by (metis prod.exhaust)
  let ?ms = "st_recovery_responses (r_state ?r) @ [?m]"
  have letter: "traffic ?m" "answer_to (rs_nonce q) (letter_of ?m)"
    using command d by (simp_all add: traffic_def letter_of_def nonce_of_def answer_to_def)
  consider (kept) "rs_nonce q = st_recovery_nonce (r_state ?r)" "r' = set_state (\<lambda>s. s\<lparr>st_recovery_responses := ?ms\<rparr>) ?popped"
    | (quiet) "st_status (r_state r') = RECOVERY \<Longrightarrow> r_state r' = r_state ?r"
    using recovery_response_outcome [OF d, of env ?popped] unfolding r'_def by auto
  then have "recoveries_ok M primary (ledger_of (replica_moves M j r' c))"
  proof cases
    case kept
    define mail where "mail d = letters (addressed d (cs_network c) + (if d = j then mset (map in_message rest) else queued (cs_replica c d)))" for d
    have "recoveries_ok M primary ((ledger_of c)\<lparr>lg_mail := mail,
        lg_kept := (lg_kept (ledger_of c))(j := add_mset (letter_of ?m) (lg_kept (ledger_of c) j))\<rparr>)"
    proof (rule recoveries_keep [OF ok j(1)])
      show "answer_to (lg_nonce (ledger_of c) j) (letter_of ?m)"
        using letter(2) kept(1) by simp
    qed (use j(2) queue letter(1) in \<open>simp_all add: mail_def pending_def\<close>)
    then show ?thesis
      by (rule recoveries_quiet) (simp_all add: kept(2) pending_moves new_packets_def mail_def split: if_splits)
  next
    case quiet
    then show ?thesis
      using queue view r'_queue by (intro recoveries_move [OF ok sent]) (simp_all add: r'_def)
  qed
  then show ?thesis by (simp add: r'_def)
qed

text \<open>Starting a recovery.\<close>

lemma recovery_covered:
  assumes agrees: "agrees config a c" and num: "numbered config" and heard: "heard (members config) c"
    and j: "j \<in> members config" "st_status (r_state (cs_replica c j)) = NORMAL"
    and queue: "r_message_queue (cs_replica c j) = inbound # rest"
    and stuck: "determine_state_action (r_state (cs_replica c j)) (in_message inbound) = INITIATE_RECOVERY"
      "head_blocked (cs_replica c j)"
  shows "\<exists>i\<in>members config - {j}. primary_of config (unat (st_view (r_state (cs_replica c j)))) = i \<or>
    st_view (r_state (cs_replica c j)) < st_view (r_state (cs_replica c i))"
proof (cases "primary_of config (unat (st_view (r_state (cs_replica c j)))) = j")
  case False
  then show ?thesis
    using primary_of_member [OF num] by blast
next
  case True
  let ?s = "r_state (cs_replica c j)" and ?h = "in_header inbound"
  have primary: "is_primary ?s"
    using belongs_arith(4) [OF num standsD(1) [OF agreesD(3) [OF agrees j(1)]]] True by simp
  then have later: "st_view ?s < h_view ?h"
    using stuck(1) by (simp add: determine_state_action_def Let_def split: if_splits)
  have "h_command ?h \<notin> {command_request, command_ping}"
    using stuck(2) primary queue j(2) by (auto simp: head_blocked_def can_process_def check_can_process_request_def)
  moreover have "in_message inbound \<in># pending c j"
    using queue by (simp add: pending_def)
  ultimately obtain i where "i \<in> members config" "h_view ?h \<le> st_view (r_state (cs_replica c i))"
    using heard j(1) unfolding heard_def timely_def by blast
  with later show ?thesis
    by (intro bexI [of _ i]) auto
qed

lemma recoveries_started:
  assumes ok: "recoveries_ok M primary (ledger_of c)" and M: "finite M" "M \<subseteq> {0..<2 ^ 31}"
    and j: "j \<in> M" "st_status (r_state (cs_replica c j)) = NORMAL" "st_id (r_state (cs_replica c j)) = j"
      "r_nonce_counter (cs_replica c j) \<noteq> - 1"
    and cover: "\<exists>i\<in>M - {j}. primary (unat (st_view (r_state (cs_replica c j)))) = i \<or>
      st_view (r_state (cs_replica c j)) < st_view (r_state (cs_replica c i))"
  shows "recoveries_ok M primary (ledger_of (replica_moves M j ((initiate_recovery env (cs_replica c j))\<lparr>r_message_queue := []\<rparr>) c))"
    (is "recoveries_ok M primary (ledger_of (replica_moves M j ?r' c))")
proof -
  let ?r = "cs_replica c j"
  define n where "n = fst (generate_nonce (env_tv_sec env) (env_tv_nsec env) (r_nonce_counter ?r) j)"
  define m where "m = message_with (zero_header\<lparr>h_command := command_recovery, h_replica := word_of_int j\<rparr>)
    (recovery_request_serialize \<lparr>rq_nonce = n\<rparr>)"
  define mail where "mail d = letters (pending (replica_moves M j ?r' c) d)" for d
  have g: "generate_nonce (env_tv_sec env) (env_tv_nsec env) (r_nonce_counter ?r) j = (n, r_nonce_counter ?r + 1)"
    by (simp add: n_def generate_nonce_def Let_def)
  have r': "initiate_recovery env ?r = emit (Broadcast_to_peers m) (?r\<lparr>r_state := (r_state ?r)\<lparr>st_status := RECOVERY,
      st_recovery_nonce := n, st_recovery_responses := []\<rparr>, r_nonce_counter := r_nonce_counter ?r + 1\<rparr>)"
    using j(2,3) g by (simp add: initiate_recovery_def m_def)
  have letter: "traffic m" "lt_request (letter_of m)" "lt_nonce (letter_of m) = n"
    by (simp_all add: m_def traffic_def letter_of_def nonce_of_def recovery_request_roundtrip)
  have packets: "addressed d (new_packets M j ?r ?r') = (if d \<in> M - {j} then {#m#} else {#})" for d
    using addressed_broadcast [OF M(1), of d j m] by (simp add: r' new_packets_def)
  have "recoveries_ok M primary ((ledger_of c)\<lparr>lg_recovering := (lg_recovering (ledger_of c))(j := True),
      lg_nonce := (lg_nonce (ledger_of c))(j := n), lg_counter := (lg_counter (ledger_of c))(j := lg_counter (ledger_of c) j + 1),
      lg_mail := mail, lg_kept := (lg_kept (ledger_of c))(j := {#})\<rparr>)"
  proof (rule recoveries_start [OF ok M(2) j(1) _ _ letter(2,3)])
    show "nonce_at (lg_counter (ledger_of c) j) j n"
      by (auto simp: nonce_at_def n_def)
    show "mail d \<subseteq># lg_mail (ledger_of c) d + (if d = j then {#} else {#letter_of m#})" for d
      unfolding mail_def pending_moves packets using letter(1) by (simp add: r' pending_def)
  qed (use j(4) cover in simp_all)
  then show ?thesis
    by (rule recoveries_quiet) (simp_all add: mail_def, simp_all add: r' split: if_splits)
qed

text \<open>Ending a recovery.\<close>

lemma adopt_remembers:
  assumes view: "\<forall>m\<in>set ms. st_view s \<le> h_view (msg_header m)" and "ms \<noteq> []"
    and best: "m \<in> set ms" "h_view (msg_header m) = st_view s \<Longrightarrow> st_op s \<le> h_op (msg_header m)"
  shows "remembers s (r_state (adopt_recovery env (fold better_response (tl ms) (hd ms)) r))"
proof -
  let ?b = "fold better_response (tl ms) (hd ms)"
  have ms: "set (hd ms # tl ms) = set ms"
    using assms(2) by (cases ms) simp_all
  have "lex_le (h_view (msg_header m), h_op (msg_header m)) (h_view (msg_header ?b), h_op (msg_header ?b))"
    using rec.fold_pick_best [of m "hd ms" "tl ms"] best(1) unfolding ms .
  then have "st_op s \<le> h_op (msg_header ?b)" if "h_view (msg_header ?b) = st_view s"
    using that best bspec [OF view best(1)] by (auto simp: lex_le_def lex_less_def)
  moreover have "st_op (r_state (adopt_recovery env ?b r)) = h_op (msg_header ?b)"
    by (simp add: adopt_recovery_def Let_def)
  ultimately show ?thesis
    by (simp add: remembers_def)
qed

lemma response_remembers:
  assumes ok: "recoveries_ok M primary (ledger_of c)" and M: "finite M" "card M = 3" and j: "j \<in> M"
    and quorum: "2 \<le> quorum (r_state (cs_replica c j))"
    and queue: "r_message_queue (cs_replica c j) = inbound # rest"
    and command: "h_command (in_header inbound) = command_recovery_response"
    and view: "\<forall>m\<in>set (st_recovery_responses (r_state (cs_replica c j)) @ [in_message inbound]).
      st_view (r_state (cs_replica c j)) \<le> h_view (msg_header m)"
  shows "remembers (r_state (cs_replica c j))
    (r_state (handle_recovery_response env inbound ((cs_replica c j)\<lparr>r_message_queue := rest\<rparr>)))"
proof (cases "st_status (r_state (cs_replica c j)) = RECOVERY")
  case True
  let ?r = "cs_replica c j" and ?m = "in_message inbound"
  let ?popped = "?r\<lparr>r_message_queue := rest\<rparr>" and ?ms = "st_recovery_responses (r_state ?r) @ [?m]"
  obtain known q where d: "recovery_response_deserialize (in_payload inbound) \<lparr>rs_nonce = uint128_zero, rs_log = []\<rparr> = (known, q)"
    by (metis prod.exhaust)
  have "remembers (r_state ?r) (r_state (adopt_recovery env (fold better_response (tl ?ms) (hd ?ms)) r1))"
    if "rs_nonce q = st_recovery_nonce (r_state ?r)" "quorum (r_state ?r) \<le> length ?ms" for r1
  proof -
    have letter: "traffic ?m" "answer_to (lg_nonce (ledger_of c) j) (letter_of ?m)"
      using command d that(1) by (simp_all add: traffic_def letter_of_def nonce_of_def answer_to_def)
    have "\<exists>l\<in>#add_mset (letter_of ?m) (lg_kept (ledger_of c) j). lt_view l = lg_view (ledger_of c) j \<longrightarrow>
        lg_op (ledger_of c) j \<le> lt_op l"
      by (rule two_answers [OF ok M j _ _ letter(2)]) (use True queue letter(1) that(2) quorum in \<open>simp_all add: pending_def\<close>)
    then have "\<exists>m\<in>set ?ms. h_view (msg_header m) = st_view (r_state ?r) \<longrightarrow> st_op (r_state ?r) \<le> h_op (msg_header m)"
      by (auto simp: letter_of_def)
    then obtain m where m: "m \<in> set ?ms" "h_view (msg_header m) = st_view (r_state ?r) \<Longrightarrow> st_op (r_state ?r) \<le> h_op (msg_header m)"
      by blast
    show ?thesis
      by (rule adopt_remembers [OF view _ m]) simp
  qed
  then show ?thesis
    using recovery_response_outcome [OF d, of env ?popped] True by (auto simp: remembers_def)
qed (simp add: remembers_def)

section \<open>Runs of three replicas\<close>

text \<open>Runs in which no view number, op number or nonce counter is the last of its range.\<close>

definition bounded :: "int set \<Rightarrow> cluster \<Rightarrow> bool" where
  "bounded M c \<longleftrightarrow> within M c \<and> (\<forall>j\<in>M. r_nonce_counter (cs_replica c j) \<noteq> - 1)"

inductive bounded_run :: "(byte list \<Rightarrow> byte list) \<Rightarrow> peer_config list \<Rightarrow> cluster \<Rightarrow> bool"
  for blake3 :: "byte list \<Rightarrow> byte list" and config :: "peer_config list" where
  init: "bounded_run blake3 config (cluster_start envs config)"
| step: "bounded_run blake3 config c \<Longrightarrow> cluster_step blake3 (members config) c c' \<Longrightarrow>
     bounded (members config) c' \<Longrightarrow> bounded_run blake3 config c'"

lemma bounded_start: "bounded M (cluster_start envs config)"
  by (simp add: bounded_def within_start)
    (simp add: cluster_start_def run_def schedule_liveness_check_def schedule_heartbeat_def new_replica_def)

lemma bounded_run_bounded: "bounded_run blake3 config c \<Longrightarrow> bounded (members config) c"
  by (induction rule: bounded_run.induct) (auto simp: bounded_start)

text \<open>What holds in every such run, beside the simulation.\<close>

definition recovery_inv :: "peer_config list \<Rightarrow> cluster \<Rightarrow> bool" where
  "recovery_inv config c \<longleftrightarrow> recoveries_ok (members config) (primary_of config) (ledger_of c) \<and> heard (members config) c"

lemma timely_dull: "sends (dull v) r r' \<Longrightarrow> sends (timely v) r r'"
  by (erule sends_weaken) (simp add: dull_def)

lemma recovery_inv_move:
  assumes inv: "recovery_inv config c" and j: "j \<in> members config"
    and sent: "sends (dull (st_view (r_state r'))) (cs_replica c j) r'"
    and queue: "queued r' \<subseteq># queued (cs_replica c j)" "set (r_message_queue r') \<subseteq> set (r_message_queue (cs_replica c j))"
    and view: "st_view (r_state (cs_replica c j)) \<le> st_view (r_state r')"
    and counter: "r_nonce_counter r' = r_nonce_counter (cs_replica c j)"
    and same: "st_status (r_state r') = RECOVERY \<Longrightarrow> r_state r' = r_state (cs_replica c j)"
  shows "recovery_inv config (replica_moves (members config) j r' c)"
  using inv recoveries_move [OF _ sent queue(1) view counter same] heard_move [OF _ j view timely_dull [OF sent] queue(2)]
  by (auto simp: recovery_inv_def)

lemma vote_dull: "st_view (r_state r) \<noteq> - 1 \<Longrightarrow> sends (dull (st_view (r_state r) + 1)) r (initiate_view_change r)"
  unfolding initiate_view_change_def Let_def
  by (rule sends_emit)
    (auto simp: dull_def timely_def traffic_def enter_new_view_def Let_def intro: sends_same)

lemma recovery_inv_turn:
  assumes step: "queue_step (cs_replica c j) r'" and inv: "recovery_inv config c" and agrees: "agrees config a c"
    and num: "numbered config" and j: "j \<in> members config" and bounded: "bounded (members config) c"
  shows "recovery_inv config (replica_moves (members config) j r' c)"
proof -
  let ?r = "cs_replica c j" and ?M = "members config"
  have ok: "recoveries_ok ?M (primary_of config) (ledger_of c)" and heard: "heard ?M c"
    using inv by (simp_all add: recovery_inv_def)
  have r: "st_id (r_state ?r) = j" "replica_ok ?r" "st_view (r_state ?r) \<noteq> - 1" "r_nonce_counter ?r \<noteq> - 1"
    using standsD(1) [OF agreesD(3) [OF agrees j]] agreesD(4) [OF agrees j] bounded j
    by (simp_all add: belongs_def bounded_def within_def)
  from step show ?thesis
  proof (cases rule: queue_step.cases)
    case (discard inbound rest)
    then show ?thesis
      by (intro recovery_inv_move [OF inv j]) (auto simp: sends_same)
  next
    case (handle inbound rest env)
    let ?popped = "?r\<lparr>r_message_queue := rest\<rparr>"
    have view: "st_view (r_state ?popped) \<le> st_view (r_state (dispatch env inbound ?popped))"
      using r(2) handle by (intro dispatch_view replica_ok_pop) simp_all
    consider (request) "h_command (in_header inbound) = command_recovery"
      | (response) "h_command (in_header inbound) = command_recovery_response"
      | (other) "h_command (in_header inbound) \<noteq> command_recovery" "h_command (in_header inbound) \<noteq> command_recovery_response"
      by blast
    then show ?thesis
    proof cases
      case request
      then have d: "r' = handle_recovery_request inbound ?popped" and normal: "st_status (r_state ?r) = NORMAL"
        using handle by (simp_all add: dispatch_def can_process_def check_can_process_recovery_request_def)
      have "sends (timely (st_view (r_state ?r))) ?r r'" "st_view (r_state r') = st_view (r_state ?r)"
        by (simp_all add: d handle_recovery_request_def timely_def sends_def split: prod.splits bool.splits)
      then have "heard ?M (replica_moves ?M j r' c)"
        using handle by (intro heard_move [OF heard j]) auto
      then show ?thesis
        using recoveries_answered [OF ok agrees num j normal handle(2) request] by (simp add: d recovery_inv_def)
    next
      case response
      then have d: "r' = handle_recovery_response env inbound ?popped" and rec: "st_status (r_state ?r) = RECOVERY"
        using handle by (simp_all add: dispatch_def can_process_def check_can_process_recovery_response_def)
      have sent: "sends (dull (st_view (r_state r'))) ?r r'" "st_view (r_state ?r) \<le> st_view (r_state r')"
        using recovery_response_dull [of ?popped env inbound] view response by (simp_all add: d dispatch_def sends_def)
      have "heard ?M (replica_moves ?M j r' c)"
        using handle by (intro heard_move [OF heard j sent(2) timely_dull [OF sent(1)]]) auto
      then show ?thesis
        using recoveries_response [OF ok j rec handle(2) response] sent(2) by (simp add: d recovery_inv_def)
    next
      case other
      have sent: "sends (dull (st_view (r_state r'))) ?r r'"
        using dispatch_dull [OF other(1) _ view] handle by (simp add: sends_def)
      have "r_state r' = r_state ?r" if "st_status (r_state r') = RECOVERY"
        using that other(2) handle dispatch_while_recovering [of inbound ?popped env] dispatch_no_recovery [of inbound ?popped env]
        by auto
      then show ?thesis
        using handle view by (intro recovery_inv_move [OF inv j sent]) auto
    qed
  next
    case (recover inbound rest env)
    have "recoveries_ok ?M (primary_of config) (ledger_of (replica_moves ?M j r' c))"
      unfolding recover(1) using recovery_covered [OF agrees num heard j recover(3,2,4,5)] num
      by (intro recoveries_started [OF ok _ _ j recover(3) r(1,4)]) (auto simp: numbered_def)
    moreover have "sends (timely (st_view (r_state ?r))) ?r r'" "st_view (r_state r') = st_view (r_state ?r)"
      by (simp_all add: recover(1) initiate_recovery_def timely_def zero_header_def sends_def Let_def split: prod.splits)
    then have "heard ?M (replica_moves ?M j r' c)"
      using recover by (intro heard_move [OF heard j]) auto
    ultimately show ?thesis
      by (simp add: recovery_inv_def)
  next
    case (join inbound rest)
    have view: "st_view (r_state ?r) \<le> st_view (r_state ?r) + 1"
      using unat_plus_one [OF r(3)] by (simp add: word_le_nat_alt)
    have state: "st_view (r_state r') = st_view (r_state ?r) + 1" "st_status (r_state r') = VIEW_CHANGE"
        "r_message_queue r' = r_message_queue ?r" "r_nonce_counter r' = r_nonce_counter ?r"
      by (simp_all add: join(1) initiate_view_change_def enter_new_view_def Let_def)
    show ?thesis
      using vote_dull [OF r(3)] state view unfolding join(1) by (intro recovery_inv_move [OF inv j]) simp_all
  qed
qed

lemma recovery_inv_step:
  assumes step: "cluster_step blake3 (members config) c c'" and inv: "recovery_inv config c" and agrees: "agrees config a c"
    and num: "numbered config" and bounded: "bounded (members config) c"
  shows "recovery_inv config c'"
proof -
  have ok: "recoveries_ok (members config) (primary_of config) (ledger_of c)" and heard: "heard (members config) c"
    using inv by (simp_all add: recovery_inv_def)
  from step show ?thesis
  proof (cases rule: cluster_step.cases)
    case (deliver i m conn)
    define rest where "rest d = addressed d (cs_network c - {#(i, m)#}) + queued (cs_replica c d)" for d
    have pending: "pending c d = rest d + (if d = i then {#m#} else {#})"
      "pending c' d = rest d + (if d = i then {#prepared_message blake3 m#} else {#})" for d
      using deliver(1) addressed_delivered [OF deliver(3), of d] by (simp_all add: rest_def pending_def enqueue_message_def)
    have same: "r_state (cs_replica c' j) = r_state (cs_replica c j)" "r_nonce_counter (cs_replica c' j) = r_nonce_counter (cs_replica c j)" for j
      by (simp_all add: deliver(1) enqueue_message_def)
    have "letters (pending c' d) \<subseteq># letters (pending c d)" for d
      by (simp add: pending)
    then have "recoveries_ok (members config) (primary_of config) (ledger_of c')"
      using recoveries_quiet [OF ok, of "ledger_of c'"] by (simp add: same)
    moreover have "heard (members config) c'"
    proof (rule heard_mono [OF heard])
      show "(\<exists>m'\<in>#pending c d. h_command (msg_header m') = h_command (msg_header x) \<and> h_view (msg_header m') = h_view (msg_header x)) \<or>
          h_command (msg_header x) \<in> {command_request, command_ping} \<or> (\<exists>i\<in>members config. timely (st_view (r_state (cs_replica c' i))) x)"
        if "x \<in># pending c' d" for d x
        using that unfolding pending by (auto split: if_splits)
    qed (simp add: same)
    ultimately show ?thesis by (simp add: recovery_inv_def)
  next
    case (lose p)
    have less: "pending c' d \<subseteq># pending c d" for d
      by (simp add: lose pending_def addressed_mono)
    have "recoveries_ok (members config) (primary_of config) (ledger_of c')"
      by (rule recoveries_quiet [OF ok]) (use letters_mono [OF less] in \<open>simp_all add: lose\<close>)
    moreover have "heard (members config) c'"
      by (rule heard_mono [OF heard]) (use mset_subset_eqD [OF less] in \<open>auto simp: lose\<close>)
    ultimately show ?thesis by (simp add: recovery_inv_def)
  next
    case (client i m conn)
    have m: "\<not> traffic m" "h_command (msg_header m) \<in> {command_request, command_ping}"
      using client(3) by (auto simp: client_message_def traffic_def)
    have pending: "pending c' d = pending c d + (if d = i then {#m#} else {#})" for d
      by (simp add: client(1) pending_def enqueue_message_def)
    have same: "r_state (cs_replica c' j) = r_state (cs_replica c j)" "r_nonce_counter (cs_replica c' j) = r_nonce_counter (cs_replica c j)" for j
      by (simp_all add: client(1) enqueue_message_def)
    have "recoveries_ok (members config) (primary_of config) (ledger_of c')"
      by (rule recoveries_quiet [OF ok]) (use m(1) in \<open>simp_all add: same pending\<close>)
    moreover have "heard (members config) c'"
      by (rule heard_mono [OF heard]) (use m(2) in \<open>auto simp: same pending split: if_splits\<close>)
    ultimately show ?thesis by (simp add: recovery_inv_def)
  next
    case (turn i r')
    then show ?thesis
      using recovery_inv_turn [OF turn(3) inv agrees num turn(2) bounded] by simp
  next
    case (liveness i env)
    let ?r = "cs_replica c i" and ?r' = "check_primary_liveness env (cs_replica c i)"
    have v: "st_view (r_state ?r) \<noteq> - 1"
      using bounded liveness(2) by (simp add: bounded_def within_def)
    then have le: "st_view (r_state ?r) \<le> st_view (r_state ?r) + 1"
      using unat_plus_one [OF v] by (simp add: word_le_nat_alt)
    show ?thesis
      unfolding liveness(1)
      by (rule recovery_inv_move [OF inv liveness(2)])
        (use le in \<open>auto simp: check_primary_liveness_def schedule_liveness_check_def initiate_view_change_def
          enter_new_view_def dull_def timely_def traffic_def Let_def intro!: sends_emit intro: sends_same\<close>)
  next
    case (beat i)
    show ?thesis
      unfolding beat(1)
      by (rule recovery_inv_move [OF inv beat(2)])
        (auto simp: heartbeat_def schedule_heartbeat_def send_commit_message_if_needed_def Let_def dull_def timely_def traffic_def
          intro!: sends_emit intro: sends_same)
  qed
qed

lemma recovery_inv_start: "recovery_inv config (cluster_start envs config)"
  by (simp add: recovery_inv_def recoveries_ok_def nonces_fresh_def answered_once_def heard_def cluster_start_def pending_def)
    (simp add: new_ReplicaState_def)

lemma remembers_step:
  assumes step: "cluster_step blake3 (members config) c c'" and inv: "recovery_inv config c" and agrees: "agrees config a c"
    and num: "numbered config" and three: "length config = 3"
  shows "\<forall>j\<in>members config. remembers (r_state (cs_replica c j)) (r_state (cs_replica c' j))"
proof
  fix j assume j: "j \<in> members config"
  have same: "remembers s s" for s
    by (simp add: remembers_def)
  from step show "remembers (r_state (cs_replica c j)) (r_state (cs_replica c' j))"
  proof (cases rule: cluster_step.cases)
    case (turn i r')
    have "remembers (r_state (cs_replica c i)) (r_state r')"
      using turn(3)
    proof (cases rule: queue_step.cases)
      case (handle inbound rest env)
      let ?r = "cs_replica c i"
      let ?popped = "?r\<lparr>r_message_queue := rest\<rparr>"
      show ?thesis
      proof (cases "h_command (in_header inbound) = command_recovery_response")
        case True
        have ok: "recoveries_ok (members config) (primary_of config) (ledger_of c)"
          using inv by (simp add: recovery_inv_def)
        have M: "finite (members config)" "card (members config) = 3"
          using num three by (simp_all add: numbered_def)
        have quorum: "2 \<le> quorum (r_state ?r)"
          using belongs_arith(1) [OF num standsD(1) [OF agreesD(3) [OF agrees turn(2)]]] three by (simp add: quorum_of_def)
        have rec: "st_status (r_state ?r) = RECOVERY" and "st_view (r_state ?r) \<le> h_view (in_header inbound)"
          using handle(3,4) True
          by (simp_all add: can_process_def check_can_process_recovery_response_def is_stale_def)
        then have "\<forall>m\<in>set (st_recovery_responses (r_state ?r) @ [in_message inbound]). st_view (r_state ?r) \<le> h_view (msg_header m)"
          using agreesD(4) [OF agrees turn(2)] by (auto simp: replica_ok_def state_ok_def)
        from response_remembers [OF ok M turn(2) quorum handle(2) True this] show ?thesis
          using True by (simp add: handle(1) dispatch_def)
      next
        case False
        then show ?thesis
          using handle(1,4) dispatch_while_recovering [of inbound ?popped env] by (auto simp: remembers_def)
      qed
    qed (simp_all add: remembers_def)
    then show ?thesis
      using turn(1) same by simp
  next
    case (liveness i env)
    then show ?thesis
      by (auto simp: remembers_def check_primary_liveness_def schedule_liveness_check_def)
  next
    case (beat i)
    then show ?thesis
      by (auto simp: remembers_def heartbeat_def schedule_heartbeat_def send_commit_message_if_needed_def Let_def)
  qed (auto simp: remembers_def enqueue_message_def)
qed

lemma three_run:
  assumes "bounded_run blake3 config c" and num: "numbered config" and three: "length config = 3"
  shows "recovery_inv config c \<and> mindful_run blake3 config c"
  using assms(1)
proof (induction rule: bounded_run.induct)
  case (init envs)
  then show ?case
    using recovery_inv_start mindful_run.init by blast
next
  case (step c c')
  have inv: "recovery_inv config c" and run: "mindful_run blake3 config c"
    using step.IH by simp_all
  obtain a where agrees: "agrees config a c"
    using mindful_run_agrees [OF run num] by blast
  have "mindful_run blake3 config c'"
    using step.hyps(3) remembers_step [OF step.hyps(2) inv agrees num three]
    by (intro mindful_run.step [OF run step.hyps(2)]) (simp_all add: bounded_def)
  moreover have "recovery_inv config c'"
    by (rule recovery_inv_step [OF step.hyps(2) inv agrees num bounded_run_bounded [OF step.hyps(1)]])
  ultimately show ?case by simp
qed

text \<open>Runs without recovery hand out no nonce.\<close>

lemma check_liveness_counter [simp]: "r_nonce_counter (check_primary_liveness env r) = r_nonce_counter r"
  by (simp add: check_primary_liveness_def schedule_liveness_check_def initiate_view_change_def Let_def)

lemma calm_step_counter:
  assumes "cluster_step blake3 M c c'" and "calm M c'" and "j \<in> M"
  shows "r_nonce_counter (cs_replica c' j) = r_nonce_counter (cs_replica c j)"
  using assms(1)
proof (cases rule: cluster_step.cases)
  case (turn i r')
  have "st_status (r_state r') \<noteq> RECOVERY"
    using assms(2) turn(1,2) by (auto simp: calm_def)
  with turn(3) have "r_nonce_counter r' = r_nonce_counter (cs_replica c i)"
    by (cases rule: queue_step.cases)
      (auto simp: initiate_recovery_def initiate_view_change_def Let_def split: prod.splits)
  then show ?thesis
    by (simp add: turn(1))
qed (auto simp: enqueue_message_def heartbeat_def schedule_heartbeat_def send_commit_message_if_needed_def Let_def)

lemma calm_run_bounded: "calm_run blake3 config c \<Longrightarrow>
  bounded_run blake3 config c \<and> (\<forall>j\<in>members config. r_nonce_counter (cs_replica c j) = 0)"
proof (induction rule: calm_run.induct)
  case (init envs)
  then show ?case
    using bounded_run.init
    by (auto simp: cluster_start_def run_def schedule_liveness_check_def schedule_heartbeat_def new_replica_def)
next
  case (step c c')
  have "\<forall>j\<in>members config. r_nonce_counter (cs_replica c' j) = 0"
    using step.IH calm_step_counter [OF step.hyps(2,3)] by simp
  with step show ?case
    using calm_within [OF step.hyps(3)] by (auto simp: bounded_def intro: bounded_run.step)
qed

end
