(* ===== verification/Cluster_Three.thy ===== *)
theory Cluster_Three
  imports Cluster_Recovery Cluster_Snapshot
begin

text \<open>
  What a cluster of three guarantees, recoveries included, and a run in which a replica recovers.
\<close>

section \<open>A recovery\<close>

text \<open>
  In the example cluster, where replicas 0 and 1 have committed an operation that replica 2 has not seen, a request
  with a later view number makes replica 1 recover; replica 0 and replica 2 answer.
\<close>

definition stray_request :: vsr_message where
  "stray_request = message_with (zero_header\<lparr>h_command := command_request, h_client := UInt128 0 8, h_request := 1,
     h_view := 1\<rparr>) []"

definition recovery1 :: cluster where
  "recovery1 = (let c = requested 1 stray_request sample_cluster in
     replica_moves (members server_cluster_config) 1 ((initiate_recovery (sample_env 0) (cs_replica c 1))\<lparr>r_message_queue := []\<rparr>) c)"

definition sample_nonce :: uint128_t where
  "sample_nonce = fst (generate_nonce (env_tv_sec (sample_env 0)) (env_tv_nsec (sample_env 0)) 0 1)"

definition recovery2 :: cluster where
  "recovery2 = handled server_cluster_config 0 (arrive no_hash 0 (recovery_message 1 sample_nonce) recovery1)"

definition recovery3 :: cluster where
  "recovery3 = handled server_cluster_config 2 (arrive no_hash 2 (recovery_message 1 sample_nonce) recovery2)"

definition full_answer :: vsr_message where
  "full_answer = recovery_response_message (one_op_done 0 {0, 1}) sample_nonce"

definition empty_answer :: vsr_message where
  "empty_answer = recovery_response_message (new_ReplicaState 2 server_cluster_config) sample_nonce"

definition recovery4 :: cluster where
  "recovery4 = handled server_cluster_config 1 (arrive no_hash 1 empty_answer recovery3)"

definition sample_recovery :: cluster where
  "sample_recovery = arrive no_hash 1 full_answer recovery4"

lemma recovery1_replicas:
  "r_state (cs_replica recovery1 1) = (one_op_done 1 {})\<lparr>st_status := RECOVERY, st_recovery_nonce := sample_nonce,
     st_recovery_responses := []\<rparr>"
  "r_message_queue (cs_replica recovery1 1) = []" "r_nonce_counter (cs_replica recovery1 1) = 1"
  "cs_replica recovery1 0 = cs_replica sample_cluster 0" "cs_replica recovery1 2 = cs_replica sample_cluster 2"
proof -
  have "r_nonce_counter (cs_replica sample_cluster 1) = 0"
    using calm_run_bounded [OF sample_run] by (simp add: server_members)
  then show "r_state (cs_replica recovery1 1) = (one_op_done 1 {})\<lparr>st_status := RECOVERY, st_recovery_nonce := sample_nonce,
     st_recovery_responses := []\<rparr>"
    "r_message_queue (cs_replica recovery1 1) = []" "r_nonce_counter (cs_replica recovery1 1) = 1"
    by (simp_all add: recovery1_def requested_def replica_moves_def initiate_recovery_def enqueue_message_def sample_replicas
        one_op_done_def one_op_def sample_nonce_def generate_nonce_def Let_def)
qed (simp_all add: recovery1_def requested_def Let_def)

text \<open>One replica handles the message that has just arrived.\<close>

lemma handled_arrival:
  assumes "r_message_queue (cs_replica c j) = []"
  shows "handled config j (arrive hash j m c) = replica_moves (members config) j
    (dispatch (sample_env 0) \<lparr>in_connection = Some 5, in_message = prepared_message hash m\<rparr>
      ((cs_replica (arrive hash j m c) j)\<lparr>r_message_queue := []\<rparr>)) (arrive hash j m c)"
  using assms by (simp add: handled_def arrive_def enqueue_message_def)

lemma bounded_arrival:
  assumes run: "bounded_run hash config c" and j: "j \<in> members config" "r_message_queue (cs_replica c j) = []"
    and m: "(j, m) \<in># cs_network c" "length (msg_payload m) \<le> 65408"
  shows "cluster_step hash (members config) c (arrive hash j m c)" "bounded_run hash config (arrive hash j m c)"
    and "\<not> is_stale (r_state (cs_replica c j)) (prepared_message hash m) \<Longrightarrow>
      can_process (r_state (cs_replica c j)) \<lparr>in_connection = Some 5, in_message = prepared_message hash m\<rparr> \<Longrightarrow>
      cluster_step hash (members config) (arrive hash j m c) (handled config j (arrive hash j m c))"
proof -
  show step: "cluster_step hash (members config) c (arrive hash j m c)"
    unfolding arrive_def using j(1) m by (intro cluster_step.deliver) simp_all
  have "bounded (members config) (arrive hash j m c)"
    using bounded_run_bounded [OF run] by (simp add: bounded_def within_def arrive_def enqueue_message_def)
  with run step show "bounded_run hash config (arrive hash j m c)"
    by (rule bounded_run.step)
  show "cluster_step hash (members config) (arrive hash j m c) (handled config j (arrive hash j m c))"
    if "\<not> is_stale (r_state (cs_replica c j)) (prepared_message hash m)"
      "can_process (r_state (cs_replica c j)) \<lparr>in_connection = Some 5, in_message = prepared_message hash m\<rparr>"
    unfolding handled_arrival [OF j(2)] using that j
    by (intro cluster_step.turn queue_step.handle) simp_all
qed

lemma stray_request_fields [simp]: "h_command (msg_header stray_request) = command_request" "h_view (msg_header stray_request) = 1"
  by (simp_all add: stray_request_def)

lemma recovery1_run: "bounded_run no_hash server_cluster_config recovery1"
proof -
  let ?c = "requested 1 stray_request sample_cluster" and ?M = "members server_cluster_config"
  have run: "bounded_run no_hash server_cluster_config sample_cluster"
    using calm_run_bounded [OF sample_run] by simp
  have s: "r_state (cs_replica ?c 1) = one_op_done 1 {}"
    "r_message_queue (cs_replica ?c 1) = [\<lparr>in_connection = Some 9, in_message = stray_request\<rparr>]"
    by (simp_all add: requested_def enqueue_message_def sample_replicas sample_quiet)
  have "client_message stray_request"
    by (simp add: client_message_def message_ok_def wf_header_def stray_request_def zero_header_def)
  then have "cluster_step no_hash ?M sample_cluster ?c"
    unfolding requested_def by (intro cluster_step.client) (simp_all add: server_members)
  moreover have "bounded ?M ?c"
    using bounded_run_bounded [OF run] by (simp add: bounded_def within_def requested_def enqueue_message_def)
  ultimately have c: "bounded_run no_hash server_cluster_config ?c"
    using run by (blast intro: bounded_run.step)
  have "head_blocked (cs_replica ?c 1)" "determine_state_action (r_state (cs_replica ?c 1)) stray_request = INITIATE_RECOVERY"
    "st_status (r_state (cs_replica ?c 1)) = NORMAL"
    by (simp_all add: head_blocked_def s is_stale_def can_process_def check_can_process_request_def
        determine_state_action_def server_primary one_op_done_def one_op_def Let_def)
  then have "queue_step (cs_replica ?c 1) ((initiate_recovery (sample_env 0) (cs_replica ?c 1))\<lparr>r_message_queue := []\<rparr>)"
    by (intro queue_step.recover [OF s(2)]) simp_all
  then have "cluster_step no_hash ?M ?c recovery1"
    unfolding recovery1_def Let_def by (intro cluster_step.turn) (simp_all add: server_members)
  moreover have "bounded ?M recovery1"
    using bounded_run_bounded [OF run] recovery1_replicas
    by (simp add: bounded_def within_def server_members one_op_done_def one_op_def)
  ultimately show ?thesis
    using c by (blast intro: bounded_run.step)
qed

lemma recovery1_request: "(0, recovery_message 1 sample_nonce) \<in># cs_network recovery1" "(2, recovery_message 1 sample_nonce) \<in># cs_network recovery1"
proof -
  have "r_nonce_counter (cs_replica sample_cluster 1) = 0"
    using calm_run_bounded [OF sample_run] by (simp add: server_members)
  then show "(0, recovery_message 1 sample_nonce) \<in># cs_network recovery1" "(2, recovery_message 1 sample_nonce) \<in># cs_network recovery1"
    by (simp_all add: recovery1_def requested_def replica_moves_def initiate_recovery_def enqueue_message_def sample_replicas
        one_op_done_def one_op_def sample_nonce_def generate_nonce_def recovery_message_def new_packets_def server_members Let_def)
qed

lemma dispatch_request:
  assumes "st_status (r_state r) = NORMAL"
  shows "dispatch (sample_env 0) \<lparr>in_connection = conn, in_message = prepared_message hash (recovery_message 1 n)\<rparr> r =
    emit (Send_to_peer 1 (recovery_response_message (r_state r) n)) r"
  by (simp add: dispatch_def handle_recovery_request_def recovery_message_def recovery_request_roundtrip)

lemma answer_step:
  assumes run: "bounded_run no_hash server_cluster_config c" and j: "j \<in> {0, 2}" "r_message_queue (cs_replica c j) = []"
    "st_status (r_state (cs_replica c j)) = NORMAL" and m: "(j, recovery_message 1 n) \<in># cs_network c"
  shows "bounded_run no_hash server_cluster_config (handled server_cluster_config j (arrive no_hash j (recovery_message 1 n) c))"
    "r_state (cs_replica (handled server_cluster_config j (arrive no_hash j (recovery_message 1 n) c)) j) = r_state (cs_replica c j)"
    "add_mset (1, recovery_response_message (r_state (cs_replica c j)) n) (cs_network c - {#(j, recovery_message 1 n)#}) =
      cs_network (handled server_cluster_config j (arrive no_hash j (recovery_message 1 n) c))"
proof -
  let ?c1 = "arrive no_hash j (recovery_message 1 n) c"
  let ?r' = "emit (Send_to_peer 1 (recovery_response_message (r_state (cs_replica c j)) n)) ((cs_replica ?c1 j)\<lparr>r_message_queue := []\<rparr>)"
  have member: "j \<in> members server_cluster_config"
    using j(1) by (auto simp: server_members)
  have small: "length (msg_payload (recovery_message 1 n)) \<le> 65408"
    by (simp add: recovery_message_def recovery_request_serialize_def write_pod_def codec_simps)
  note arrival = bounded_arrival [OF run member j(2) m small]
  have eq: "handled server_cluster_config j ?c1 = replica_moves (members server_cluster_config) j ?r' ?c1"
    using dispatch_request [of "(cs_replica ?c1 j)\<lparr>r_message_queue := []\<rparr>"] j(3) by (simp add: handled_arrival [OF j(2)])
  show "r_state (cs_replica (handled server_cluster_config j ?c1) j) = r_state (cs_replica c j)"
    by (simp add: eq)
  have "bounded (members server_cluster_config) (handled server_cluster_config j ?c1)"
    using bounded_run_bounded [OF run] by (simp add: eq bounded_def within_def)
  moreover have "cluster_step no_hash (members server_cluster_config) ?c1 (handled server_cluster_config j ?c1)"
    using j(3) by (intro arrival(3)) (simp_all add: is_stale_def can_process_def check_can_process_recovery_request_def recovery_message_def)
  ultimately show "bounded_run no_hash server_cluster_config (handled server_cluster_config j ?c1)"
    using arrival(2) by (blast intro: bounded_run.step)
  show "add_mset (1, recovery_response_message (r_state (cs_replica c j)) n) (cs_network c - {#(j, recovery_message 1 n)#}) =
      cs_network (handled server_cluster_config j ?c1)"
    unfolding eq by (simp add: replica_moves_def new_packets_def)
qed

lemma recovery2_state:
  "bounded_run no_hash server_cluster_config recovery2" "(1, full_answer) \<in># cs_network recovery2"
  "(2, recovery_message 1 sample_nonce) \<in># cs_network recovery2" "cs_replica recovery2 1 = cs_replica recovery1 1"
  "cs_replica recovery2 2 = cs_replica sample_cluster 2"
proof -
  have s: "r_message_queue (cs_replica recovery1 0) = []" "r_state (cs_replica recovery1 0) = one_op_done 0 {0, 1}"
    "st_status (one_op_done 0 {0, 1}) = NORMAL"
    by (simp_all add: recovery1_replicas sample_quiet sample_replicas one_op_done_def one_op_def)
  note step = answer_step [OF recovery1_run _ s(1) _ recovery1_request(1), folded recovery2_def, unfolded s(2)]
  show "bounded_run no_hash server_cluster_config recovery2"
    using step(1) s(3) by simp
  have net: "cs_network recovery2 = add_mset (1, full_answer) (cs_network recovery1 - {#(0, recovery_message 1 sample_nonce)#})"
    using step(3) s(3) by (simp add: full_answer_def)
  show "(1, full_answer) \<in># cs_network recovery2" "(2, recovery_message 1 sample_nonce) \<in># cs_network recovery2"
    using recovery1_request(2) by (simp_all add: net in_diff_count)
qed (simp_all add: recovery2_def recovery1_replicas)

lemma recovery3_state:
  "bounded_run no_hash server_cluster_config recovery3" "(1, full_answer) \<in># cs_network recovery3"
  "(1, empty_answer) \<in># cs_network recovery3" "cs_replica recovery3 1 = cs_replica recovery1 1"
proof -
  have s: "r_message_queue (cs_replica recovery2 2) = []" "r_state (cs_replica recovery2 2) = new_ReplicaState 2 server_cluster_config"
    by (simp_all add: recovery2_state sample_quiet)
  note step = answer_step [OF recovery2_state(1) _ s(1) _ recovery2_state(3), folded recovery3_def, unfolded s(2)]
  show "bounded_run no_hash server_cluster_config recovery3"
    using step(1) by simp
  have net: "cs_network recovery3 = add_mset (1, empty_answer) (cs_network recovery2 - {#(2, recovery_message 1 sample_nonce)#})"
    using step(3) by (simp add: empty_answer_def)
  show "(1, full_answer) \<in># cs_network recovery3" "(1, empty_answer) \<in># cs_network recovery3"
    using recovery2_state(2) by (simp_all add: net in_diff_count)
qed (simp add: recovery3_def recovery2_state)

lemma answers_read:
  "recovery_response_deserialize (msg_payload full_answer) \<lparr>rs_nonce = uint128_zero, rs_log = []\<rparr> =
     (True, \<lparr>rs_nonce = sample_nonce, rs_log = [(1, sample_op {})]\<rparr>)"
  "recovery_response_deserialize (msg_payload empty_answer) \<lparr>rs_nonce = uint128_zero, rs_log = []\<rparr> =
     (True, \<lparr>rs_nonce = sample_nonce, rs_log = []\<rparr>)"
proof -
  have "wf_log (st_log (one_op_done 0 {0, 1}))"
    by (simp add: one_op_done_def one_op_def wf_log_def om_ok_def wf_entry_def sample_op_def bytes_of_string_def)
  then show "recovery_response_deserialize (msg_payload full_answer) \<lparr>rs_nonce = uint128_zero, rs_log = []\<rparr> =
     (True, \<lparr>rs_nonce = sample_nonce, rs_log = [(1, sample_op {})]\<rparr>)"
    unfolding full_answer_def
    by (simp add: recovery_response_payload_of)
      (simp add: one_op_done_def one_op_def strip_log_def strip_acks_def sample_op_def)
  have "wf_log (st_log (new_ReplicaState 2 server_cluster_config))"
    by (simp add: wf_log_def om_ok_def)
  then show "recovery_response_deserialize (msg_payload empty_answer) \<lparr>rs_nonce = uint128_zero, rs_log = []\<rparr> =
     (True, \<lparr>rs_nonce = sample_nonce, rs_log = []\<rparr>)"
    unfolding empty_answer_def by (simp add: recovery_response_payload_of strip_log_def)
qed

lemma answers_fields [simp]:
  "h_command (msg_header full_answer) = command_recovery_response" "h_command (msg_header empty_answer) = command_recovery_response"
  "h_view (msg_header full_answer) = 0" "h_view (msg_header empty_answer) = 0"
  "h_op (msg_header full_answer) = 1" "h_op (msg_header empty_answer) = 0"
  by (simp_all add: full_answer_def empty_answer_def) (simp_all add: recovery_response_message_def one_op_done_def one_op_def)

lemma answers_small: "length (msg_payload full_answer) \<le> 65408" "length (msg_payload empty_answer) \<le> 65408"
  by (simp_all add: full_answer_def empty_answer_def recovery_response_message_def recovery_response_serialize_def
      write_log_to_buffer_def write_log_entry_def write_pod_def codec_simps one_op_done_def one_op_def sample_op_def bytes_of_string_def)

text \<open>Replica 1 keeps the first answer and adopts the better one of the two.\<close>

definition waiting :: "vsr_message list \<Rightarrow> ReplicaState" where
  "waiting ms = (one_op_done 1 {})\<lparr>st_status := RECOVERY, st_recovery_nonce := sample_nonce, st_recovery_responses := ms\<rparr>"

lemma waiting_fields [simp]:
  "st_status (waiting ms) = RECOVERY" "st_view (waiting ms) = 0" "st_recovery_nonce (waiting ms) = sample_nonce"
  "st_recovery_responses (waiting ms) = ms" "st_log (waiting ms) = [(1, sample_op {})]" "quorum (waiting ms) = 2"
  "st_op (waiting ms) = 1" "(waiting ms)\<lparr>st_recovery_responses := ms'\<rparr> = waiting ms'"
  by (simp_all add: waiting_def one_op_done_def one_op_def server_primary)

lemma recovery4_state:
  "bounded_run no_hash server_cluster_config recovery4" "(1, full_answer) \<in># cs_network recovery4"
  "r_state (cs_replica recovery4 1) = waiting [prepared_message no_hash empty_answer]"
  "r_message_queue (cs_replica recovery4 1) = []"
proof -
  let ?m = "\<lparr>in_connection = Some 5, in_message = prepared_message no_hash empty_answer\<rparr>"
  let ?c1 = "arrive no_hash 1 empty_answer recovery3"
  have s: "r_message_queue (cs_replica recovery3 1) = []" "r_state (cs_replica recovery3 1) = waiting []"
    by (simp_all add: recovery3_state recovery1_replicas waiting_def)
  have member: "1 \<in> members server_cluster_config"
    by (simp add: server_members)
  note arrival = bounded_arrival [OF recovery3_state(1) member s(1) recovery3_state(3) answers_small(2)]
  let ?r = "(cs_replica ?c1 1)\<lparr>r_message_queue := []\<rparr>"
  have d: "dispatch (sample_env 0) ?m ?r = set_state (\<lambda>s. s\<lparr>st_recovery_responses := [in_message ?m]\<rparr>) ?r"
    using s(2) by (simp add: dispatch_def handle_recovery_response_def answers_read Let_def)
  have eq: "recovery4 = replica_moves (members server_cluster_config) 1 (set_state (\<lambda>s. s\<lparr>st_recovery_responses := [in_message ?m]\<rparr>) ?r) ?c1"
    unfolding recovery4_def handled_arrival [OF s(1)] d ..
  show state: "r_state (cs_replica recovery4 1) = waiting [prepared_message no_hash empty_answer]" "r_message_queue (cs_replica recovery4 1) = []"
    using s(2) by (simp_all add: eq)
  have "bounded (members server_cluster_config) recovery4"
    using bounded_run_bounded [OF recovery3_state(1)] by (simp add: eq bounded_def within_def)
  moreover have "cluster_step no_hash (members server_cluster_config) ?c1 recovery4"
    unfolding recovery4_def using s(2)
    by (intro arrival(3)) (simp_all add: is_stale_def can_process_def check_can_process_recovery_response_def)
  ultimately show "bounded_run no_hash server_cluster_config recovery4"
    using arrival(2) by (blast intro: bounded_run.step)
  have "full_answer \<noteq> empty_answer"
    by (auto dest: arg_cong [of _ _ "\<lambda>m. h_op (msg_header m)"])
  then show "(1, full_answer) \<in># cs_network recovery4"
    using recovery3_state(2) unfolding eq by (simp add: replica_moves_def in_diff_count)
qed

lemma sample_recovery_run:
  "bounded_run no_hash server_cluster_config sample_recovery"
  "cluster_step no_hash (members server_cluster_config) sample_recovery (handled server_cluster_config 1 sample_recovery)"
  "r_state (cs_replica sample_recovery 1) = waiting [prepared_message no_hash empty_answer]"
  "st_status (r_state (cs_replica (handled server_cluster_config 1 sample_recovery) 1)) = NORMAL"
  "st_view (r_state (cs_replica (handled server_cluster_config 1 sample_recovery) 1)) = 0"
proof -
  let ?m = "\<lparr>in_connection = Some 5, in_message = prepared_message no_hash full_answer\<rparr>"
  have member: "1 \<in> members server_cluster_config"
    by (simp add: server_members)
  note arrival = bounded_arrival [OF recovery4_state(1) member recovery4_state(4,2) answers_small(1), folded sample_recovery_def]
  show "bounded_run no_hash server_cluster_config sample_recovery"
    by (rule arrival(2))
  show "cluster_step no_hash (members server_cluster_config) sample_recovery (handled server_cluster_config 1 sample_recovery)"
    by (rule arrival(3)) (simp_all add: recovery4_state(3) is_stale_def can_process_def check_can_process_recovery_response_def)
  show s: "r_state (cs_replica sample_recovery 1) = waiting [prepared_message no_hash empty_answer]"
    by (simp add: sample_recovery_def recovery4_state(3))
  let ?r = "(cs_replica sample_recovery 1)\<lparr>r_message_queue := []\<rparr>"
  let ?ms = "[prepared_message no_hash empty_answer, prepared_message no_hash full_answer]"
  have "dispatch (sample_env 0) ?m ?r = adopt_recovery (sample_env 0) (prepared_message no_hash full_answer)
      (set_state (\<lambda>s. s\<lparr>st_recovery_responses := ?ms\<rparr>) ?r)"
    using s by (simp add: dispatch_def handle_recovery_response_def answers_read better_response_def Let_def)
  then show "st_status (r_state (cs_replica (handled server_cluster_config 1 sample_recovery) 1)) = NORMAL"
    "st_view (r_state (cs_replica (handled server_cluster_config 1 sample_recovery) 1)) = 0"
    using handled_arrival [OF recovery4_state(4), of server_cluster_config no_hash full_answer, folded sample_recovery_def]
    by (simp_all add: adopt_recovery_harmless)
qed

lemma server_three: "length server_cluster_config = 3"
  by (simp add: server_cluster_config_def)

lemma sample_recovery_primary: "r_state (cs_replica sample_recovery 0) = one_op_done 0 {0, 1}"
proof -
  have "r_message_queue (cs_replica recovery1 0) = []" "st_status (r_state (cs_replica recovery1 0)) = NORMAL"
    by (simp_all add: recovery1_replicas sample_quiet sample_replicas one_op_done_def one_op_def)
  from answer_step(2) [OF recovery1_run _ this recovery1_request(1), folded recovery2_def] show ?thesis
    by (simp add: sample_recovery_def recovery4_def recovery3_def recovery1_replicas sample_replicas)
qed

section \<open>What three replicas guarantee\<close>

lemma kept_operation:
  assumes inv: "cluster_inv config a" "cluster_inv config a'" and grows: "grows (members config) a a'"
    and j: "j \<in> members config" and sim: "stands config a j s" "stands config a' j s'"
    and state: "st_status s = RECOVERY" "st_status s' = NORMAL" "st_view s' = st_view s" "st_op s \<le> st_op s'"
    and e: "om_find (st_log s) k = Some e"
  shows "\<exists>e'. om_find (st_log s') k = Some e' \<and> strip_acks e' = strip_acks e"
proof -
  let ?v = "unat (st_view s)"
  have "log_between a ?v (p_log a j)" "log_between a' ?v (p_log a' j)"
    using log_of_member [OF inv(1) j] log_of_member [OF inv(2) j] standsD(7) [OF sim(1)] standsD(7) [OF sim(2)] state by simp_all
  moreover from this(1) have "log_between a' ?v (p_log a j)"
    using grows by (rule log_between_grows)
  ultimately obtain h where h: "prefix (p_log a j) h" "prefix (p_log a' j) h"
    by (auto simp: log_between_def)
  have "length (p_log a j) \<le> length (p_log a' j)"
    using log_rep_length [OF standsD(4) [OF sim(1)]] log_rep_length [OF standsD(4) [OF sim(2)]] state(4)
    by (simp add: word_le_nat_alt)
  with h have prefix: "prefix (p_log a j) (p_log a' j)"
    by (rule prefix_length_prefix)
  note k = log_rep_find [OF standsD(4) [OF sim(1)] e]
  have "unat k \<le> length (p_log a' j)"
    using k(2) prefix_length_le [OF prefix] by simp
  then obtain e' where "om_find (st_log s') k = Some e'" "strip_acks e' = p_log a' j ! (unat k - 1)"
    using log_rep_Some [OF standsD(4) [OF sim(2)] k(1)] by blast
  moreover have "p_log a' j ! (unat k - 1) = p_log a j ! (unat k - 1)"
    using prefix k(1,2) by (auto simp: prefix_def nth_append)
  ultimately show ?thesis
    using k(3) by auto
qed

text \<open>
  C7: in a cluster of three, a recovery forgets nothing. When a replica ends its recovery, in any run that keeps
  its numbers within their ranges, it is in a later view than before, or it is in the same view and holds
  every operation it held, although \<open>handle_recovery_response\<close> neither waits for the primary nor
  checks who has answered: the nonce of the request is new, each of the others answers it at most once, and so the
  two answers come from both of them.
\<close>
theorem recovery_keeps_operations:
  assumes run: "bounded_run blake3 config c" and num: "numbered config" and three: "length config = 3"
    and step: "cluster_step blake3 (members config) c c'" and j: "j \<in> members config"
    and recovers: "st_status (r_state (cs_replica c j)) = RECOVERY" "st_status (r_state (cs_replica c' j)) = NORMAL"
  shows "st_view (r_state (cs_replica c j)) < st_view (r_state (cs_replica c' j)) \<or>
    st_view (r_state (cs_replica c' j)) = st_view (r_state (cs_replica c j)) \<and>
    (\<forall>k e. om_find (st_log (r_state (cs_replica c j))) k = Some e \<longrightarrow>
      (\<exists>e'. om_find (st_log (r_state (cs_replica c' j))) k = Some e' \<and> strip_acks e' = strip_acks e))"
proof -
  have inv: "recovery_inv config c" and mindful: "mindful_run blake3 config c"
    using three_run [OF run num three] by simp_all
  obtain a where agrees: "agrees config a c"
    using mindful_run_agrees [OF mindful num] by blast
  note rem = remembers_step [OF step inv agrees num three]
  obtain a' where agrees': "agrees config a' c'" and grows: "grows (members config) a a'"
    using agrees_step [OF step agrees num mindful_run_within [OF mindful] rem] by blast
  have "st_view (r_state (cs_replica c j)) \<le> st_view (r_state (cs_replica c' j))"
    using growsD(5) [OF grows j] standsD(2) [OF agreesD(3) [OF agrees j]] standsD(2) [OF agreesD(3) [OF agrees' j]]
    by (simp add: word_le_nat_alt)
  moreover have "\<exists>e'. om_find (st_log (r_state (cs_replica c' j))) k = Some e' \<and> strip_acks e' = strip_acks e"
    if "st_view (r_state (cs_replica c' j)) = st_view (r_state (cs_replica c j))"
      "om_find (st_log (r_state (cs_replica c j))) k = Some e" for k e
    by (rule kept_operation [OF agreesD(1) [OF agrees] agreesD(1) [OF agrees'] grows j
          agreesD(3) [OF agrees j] agreesD(3) [OF agrees' j] recovers that(1) _ that(2)])
      (use rem j recovers that(1) in \<open>simp add: remembers_def\<close>)
  ultimately show ?thesis by auto
qed

theorem recovery_keeps_operations_witness:
  "st_status (r_state (cs_replica sample_recovery 1)) = RECOVERY \<and>
   om_find (st_log (r_state (cs_replica sample_recovery 1))) 1 = Some (sample_op {}) \<and>
   (\<exists>e'. om_find (st_log (r_state (cs_replica (handled server_cluster_config 1 sample_recovery) 1))) 1 = Some e' \<and>
      strip_acks e' = strip_acks (sample_op {}))"
proof -
  have s: "st_status (r_state (cs_replica sample_recovery 1)) = RECOVERY" "st_view (r_state (cs_replica sample_recovery 1)) = 0"
    "om_find (st_log (r_state (cs_replica sample_recovery 1))) 1 = Some (sample_op {})" "1 \<in> members server_cluster_config"
    by (simp_all add: sample_recovery_run(3) om_find_def server_members)
  show ?thesis
    using recovery_keeps_operations [OF sample_recovery_run(1) numbered_server server_three sample_recovery_run(2) s(4,1)
        sample_recovery_run(4)] s sample_recovery_run(5) by simp
qed

text \<open>
  C1: three replicas, the number \<open>server_main.cpp\<close> configures, never disagree about a committed operation, with no
  condition on recoveries. In every run that keeps its numbers within their ranges, whatever is lost or reordered,
  whichever replicas time out or recover and whatever clients send, two replicas that both count op
  number \<open>k\<close> as committed and both hold it hold the same request.
\<close>
theorem three_replicas_agree:
  assumes run: "bounded_run blake3 config c" and num: "numbered config" and three: "length config = 3"
    and i: "i \<in> members config" "k \<le> st_commit (r_state (cs_replica c i))"
      "om_find (st_log (r_state (cs_replica c i))) k = Some e"
    and j: "j \<in> members config" "k \<le> st_commit (r_state (cs_replica c j))"
      "om_find (st_log (r_state (cs_replica c j))) k = Some e'"
  shows "strip_acks e = strip_acks e'"
  using mindful_run_agrees [OF conjunct2 [OF three_run [OF run num three]] num] agrees_committed [OF _ num i j] by blast

theorem three_replicas_agree_witness:
  "st_status (r_state (cs_replica sample_recovery 1)) = RECOVERY \<and>
   om_find (st_log (r_state (cs_replica sample_recovery 0))) 1 = Some (sample_op {0, 1}) \<and>
   om_find (st_log (r_state (cs_replica sample_recovery 1))) 1 = Some (sample_op {}) \<and>
   strip_acks (sample_op {0, 1}) = strip_acks (sample_op {})"
proof -
  have s: "om_find (st_log (r_state (cs_replica sample_recovery 0))) 1 = Some (sample_op {0, 1})"
    "om_find (st_log (r_state (cs_replica sample_recovery 1))) 1 = Some (sample_op {})"
    by (simp_all add: sample_recovery_primary sample_recovery_run(3) om_find_def one_op_done_def one_op_def)
  have "strip_acks (sample_op {0, 1}) = strip_acks (sample_op {})"
    by (rule three_replicas_agree [OF sample_recovery_run(1) numbered_server server_three _ _ s(1) _ _ s(2)])
      (simp_all add: server_members sample_recovery_primary sample_recovery_run(3) waiting_def one_op_done_def one_op_def)
  with s show ?thesis
    by (simp add: sample_recovery_run(3))
qed

end
