(* ===== verification/Spec2Isabelle.thy ===== *)
theory Spec2Isabelle
  imports Cluster_Stale Replica_Divergence Client_Session Server_Process Client_Process Cluster_Execution Cluster_Three
begin

text \<open>
  A verification library for \<^bold>\<open>vsr-kv\<close>, a replicated key-value store in C++: a cluster of replicas
  keeps a log of client operations by Viewstamped Replication over TCP and applies it to a map
  of strings; an interactive client sends \<open>set\<close> and \<open>get\<close>.

  \<^bold>\<open>The program and its model.\<close> Paths are under \<open>src/src\<close> of the repository. Machine integers are words of
  their width (\<open>u32\<close>, \<open>u64\<close>, \<open>byte\<close>) and wrap as in C++; C++ \<open>int\<close>s whose overflow plays no role are
  \<open>int\<close>. A \<open>std::map\<close> is a list of pairs with strictly ascending keys (\<open>omap\<close>), so that iteration
  order is the program's. An error return is a boolean with the partly filled object, an exception
  or undefined behaviour is \<open>None\<close>. The byte order is that of the little-endian hosts the program
  is built for. Calls on the surroundings (messages sent, timers and I/O requests submitted) are
  appended, in order, to a list kept in the state (\<open>r_outbox\<close>, \<open>sv_calls\<close>, \<open>tcl_calls\<close>); clocks,
  descriptors and the contents of uninitialised memory are arguments.

  \<^item> \<open>Vsr_Prelude\<close>: words and byte images, ordered maps, \<open>operator>>\<close> on strings, selection of a best
    candidate. Locales \<open>pod_codec\<close> and \<open>pod_image\<close> (fixed-size images), \<open>std_map\<close> (what the program uses
    of \<open>std::map\<close>) and \<open>selector\<close> (keep the best so far), interpreted on the model's definitions here and below.
  \<^item> \<open>Utilities\<close> (\<open>common/utilities\<close>, \<open>common/checksum\<close>): 128-bit numbers, nonces, checksums. BLAKE3 is third-party
    code and a parameter \<open>blake3\<close> of every definition that uses it; no property needs a hypothesis on it.
  \<^item> \<open>Vsr_Message\<close> (\<open>common/vsr_message\<close>): header, message, sealing, \<open>serialize\<close> and \<open>deserialize\<close>.
  \<^item> \<open>Log_Serialization\<close> (\<open>server/serialization\<close>, \<open>view_change_messages\<close>, \<open>recovery_messages\<close>, \<open>replica_types\<close>):
    log entries, client sessions, the byte format of logs and of the view change and recovery payloads.
  \<^item> \<open>Replica_State\<close> (\<open>server/replica_state.hpp\<close>): the replicated state, primary and quorum arithmetic; locale
    \<open>quorum_system\<close>, interpreted on the configured cluster.
  \<^item> \<open>Replica_Exec\<close> (\<open>server/replica.hpp\<close>, and \<open>execute_commited_ops\<close>, \<open>advance_primary_commit_number\<close> of
    \<open>replica.cpp\<close>): execution as a refinement of a fold over the committed log (locale \<open>log_executor\<close>), the commit rule.
  \<^item> \<open>Replica_Normal\<close>, \<open>Replica_View_Change\<close>, \<open>Replica_Recovery\<close> (\<open>replica.cpp\<close>): one definition per handler and per guard.
  \<^item> \<open>Replica_Queue\<close> (\<open>replica.cpp\<close>): admission, dispatch, the processing loop, timers, start-up.
  \<^item> \<open>Replica_Step\<close>: the turns of the queue loop and the events of a replica as step relations, reachability,
    invariants by rule induction (locale \<open>queue_invariant\<close>). \<open>Replica_Liveness\<close>: what a run of the queue leaves
    behind and which messages block it. \<open>Replica_Divergence\<close>: the loops of queue processing as partial functions, and when
    they return.
  \<^item> \<open>Tcp_Connection\<close>, \<open>Protocol_Handler\<close>, \<open>Replica_Manager\<close>, \<open>Tcp_Server\<close> (\<open>common/tcp_connection\<close>, \<open>server/protocol_handler\<close>,
    \<open>server/replica_manager\<close>, \<open>server/tcp_server\<close>): framing of the byte stream (locale \<open>stream_parser\<close>), peers and
    their handshake, connections, sending; the server as a step relation with its invariant.
  \<^item> \<open>Tcp_Client\<close>, \<open>Client\<close> (\<open>common/tcp_client\<close>, \<open>client/client_main.cpp\<close>): the connection state machine, the
    command line, failover, the console with its texts. \<open>Client_Session\<close>: what a primary makes of the sessions of a client.
  \<^item> \<open>Io_Uring_Loop\<close> (\<open>common/io_uring_loop\<close>): requests, submission, posted work with its eventfd, and the turns of
    \<open>run\<close> as a step relation with the kernel's steps between them; locale \<open>loop_program\<close> states what a program on
    the loop may do and what the loop then guarantees.
  \<^item> \<open>Server_Main\<close> (\<open>server/server_main.cpp\<close>, \<open>Replica::setup_networking\<close>, \<open>Replica::run\<close>): start-up, and the replica, its
    server and the loop as one process, on which \<open>loop_program\<close> is interpreted.
  \<^item> \<open>Server_Process\<close>: the states of the running server process, its chains of I/O requests (one outstanding accept,
    at most one read per connection), the posted work, and what happens when the submission ring is full.
  \<^item> \<open>Client_Process\<close> (\<open>client/client_main.cpp\<close>, \<open>common/tcp_client\<close>, \<open>common/io_uring_loop\<close>): the client on the loop, with
    the commands of the input thread arriving between the turns; \<open>loop_program\<close> is interpreted on it too.
  \<^item> \<open>Vsr_Protocol\<close>: the protocol as an abstract specification (views, logs as lists, acknowledgements, promises, a
    step relation, its invariant, agreement on what is committed), inside \<open>quorum_system\<close>. \<open>Cluster\<close>: replicas of
    the code with a network that loses and reorders. \<open>Cluster_Simulation\<close>, \<open>Cluster_Votes\<close>: every handler is simulated
    by steps of the protocol; each member votes and promises once per view. \<open>Cluster_Example\<close>: runs for the
    witnesses. \<open>Cluster_Safety\<close>, \<open>Cluster_Execution\<close>: the theorems about all runs of a cluster.
    \<open>Cluster_Ledger\<close>, \<open>Cluster_Recovery\<close>: the letters of a recovery, with the invariant that each request is answered
    at most once by each replica and that one of the answers is not behind; \<open>Cluster_Three\<close>: the theorems about three
    replicas, and a run with a recovery. \<open>Cluster_Snapshot\<close>: rules to build long runs. \<open>Cluster_Failures\<close>: a run of five replicas in which recovery
    breaks agreement, and a run of three in which a view change stops the new primary. \<open>Cluster_Restart\<close>: a replica of three that is
    started again, and the operation this loses. \<open>Cluster_Stale\<close>: a recovery that leaves old contents behind.

  \<^bold>\<open>What is shown.\<close> Messages, logs and payloads survive their encodings, malformed ones are refused
  (\<open>Vsr_Message\<close>, \<open>Log_Serialization\<close>), and the framing layer rebuilds the message stream from any cutting
  (\<open>Protocol_Handler\<close>, and end to end below). Execution implements its specification, is deterministic across
  replicas, independent of batching and at most once; the primary commits exactly the acknowledged
  run of its log; requests, Prepares, StartViews and recovery responses have their stated effect on
  every branch; a view change adopts a best log and keeps operations acknowledged by a quorum, under the
  stated conditions on the senders; reachable replicas and servers are well formed and views do not go down.
  A whole cluster implements the abstract protocol over any number of view changes and recoveries as long as no
  recovery ends in the view it began in with fewer operations: replicas never disagree about committed operations
  and committed operations are never lost (\<open>Cluster_Safety\<close>). With three replicas, the configuration of \<open>server_main.cpp\<close>,
  no recovery does, so that agreement holds in every run (\<open>Cluster_Three\<close>); with five some do, and agreement fails
  (\<open>Cluster_Failures\<close>). As long as no replica recovers, the contents of
  every replica are those of a sequential store (\<open>Cluster_Execution\<close>); a recovery may leave contents behind that do not
  belong to what the replica counts as executed (\<open>Cluster_Stale\<close>).
  Several theorems state weaknesses of the program precisely: clusters of even size, acknowledgements lost in a
  view change, the messages that block a replica for good, a view change that stops the new primary, a view change
  message left unprocessed, recovery in larger clusters, replicas that are started again, messages
  over 64 KB, stranded peers, restarted clients, a client that does not connect again, requests dropped at a full submission
  ring. The running server process stays in the states of
  the step relations, keeps one request of each kind under way while the ring has room, and is woken for posted work as
  long as the eventfd is not read while completions are handled (\<open>Server_Process\<close>).

  \<^bold>\<open>Fuel.\<close> \<open>advance_loop\<close> gets one round more than the log has entries and \<open>retroactive_loop\<close> two more than the op
  number; \<open>advance_loop_stops\<close> and \<open>retroactive_loop_exits\<close> show that the loops then leave by their own exits (the second
  unless the op number is the largest 64-bit value, where the C++ loop does not end: \<open>handle_start_view\<close> then returns in the model
  and not in the program). \<open>Replica_Divergence\<close> has the same code without that bound and shows that the two differ in this case
  only. All other loops are total functions.

  \<^bold>\<open>Not modelled.\<close> The inside of liburing and of the kernel, socket options, the lines logged by the
  server, the moment at which the last reference to a connection goes and its destructor closes the socket. A replica that crashes and starts again is not a
  step of the cluster (\<open>Cluster_Restart\<close> shows why the safety theorems could not allow it), and the cluster theorems are about runs in which view numbers, op numbers and nonce counters
  stay below the last values of their types.
\<close>

section \<open>A request from the client to the reply\<close>

lemma advance_loop_one:
  assumes "can_commit_next s" and "om_find (st_log s) (st_commit s + 1 + 1) = None" and "0 < n"
  shows "advance_loop (Suc n) s = s\<lparr>st_commit := st_commit s + 1\<rparr>"
proof -
  obtain m where "n = Suc m" using assms(3) by (cases n) simp_all
  moreover have "\<not> can_commit_next (s\<lparr>st_commit := st_commit s + 1\<rparr>)"
    using assms(2) by (simp add: can_commit_next_def)
  ultimately show ?thesis using assms(1) by simp
qed

lemma om_assign_nonempty: "0 < length (om_assign k v m)"
  by (cases m) (auto split: prod.splits if_splits)

lemma execute_fresh_entry:
  assumes "om_find (st_client_table (r_state r)) (le_client_id e) = Some ce" and "\<not> ct_executed ce"
    and "is_primary (r_state r)" and "om_find (r_client_connections r) (le_client_id e) = Some (Some c)"
    and "apply_operation (le_op_type e) (le_payload e) (st_state_machine (r_state r)) = (kv, result)"
  shows "st_state_machine (r_state (execute_next e r)) = kv"
    and "r_outbox (execute_next e r) = r_outbox r @
      [Send_message (Some c) (reply_message (r_state r) e (bytes_of_string result))]"
  using assms
  by (simp_all add: execute_next_def execute_entry_def om_index_def Let_def send_reply_def is_primary_def
      get_primary_id_def reply_message_def)

lemma handle_request_fresh:
  fixes p :: replica and inbound :: inbound_message
  defines "s \<equiv> r_state p" and "h \<equiv> in_header inbound" and "p1 \<equiv> handle_request inbound p"
  assumes "ct_request_number (om_index new_client_table_entry (st_client_table s) (h_client h)) < h_request h"
  shows "st_log (r_state p1) = om_assign (st_op s + 1)
        \<lparr>le_view = st_view s, le_op_type = h_operation h, le_client_id = h_client h,
         le_request_num = h_request h, le_payload = in_payload inbound, le_prepare_ok_acks = {st_id s}\<rparr> (st_log s)"
    and "r_outbox p1 = r_outbox p @ [Broadcast_to_peers (prepare_message inbound (r_state p1))]"
    and "st_commit (r_state p1) = st_commit s" "st_last_executed_op (r_state p1) = st_last_executed_op s"
      "st_state_machine (r_state p1) = st_state_machine s" "st_id (r_state p1) = st_id s"
      "is_primary (r_state p1) = is_primary s" "quorum (r_state p1) = quorum s"
    and "om_find (st_client_table (r_state p1)) (h_client h) =
        Some \<lparr>ct_request_number = h_request h, ct_executed = False, ct_result = []\<rparr>"
    and "om_find (r_client_connections p1) (h_client h) = Some (in_connection inbound)"
  using less_imp_neq [OF assms(4)] less_imp_not_less [OF assms(4)]
  by (simp_all add: p1_def s_def h_def handle_request_def Let_def)

text \<open>
  C14: the normal case from request to reply, in a cluster with quorum 2. A NORMAL primary that has
  committed and executed everything in its log takes a new request from a client connection;
  when one PrepareOk of another replica for that operation arrives, the operation is committed
  and executed, the key-value contents are those \<open>apply_operation\<close> computes, and the client is
  sent exactly one Reply, with the result, on the connection the request came from, after the
  one Prepare that was broadcast.
\<close>
theorem request_commits_and_replies:
  fixes p :: replica and inbound ok :: inbound_message and c :: connection
  defines "s \<equiv> r_state p" and "h \<equiv> in_header inbound"
  defines "p1 \<equiv> handle_request inbound p"
  defines "p2 \<equiv> handle_prepare_ok ok p1"
  assumes primary: "is_primary s" and two: "quorum s = 2"
    and settled: "st_commit s = st_op s" "st_last_executed_op s = st_op s"
      "om_find (st_log s) (st_op s + 1 + 1) = None" "st_op s \<noteq> - 1"
    and new: "ct_request_number (om_index new_client_table_entry (st_client_table s) (h_client h)) < h_request h"
    and conn: "in_connection inbound = Some c"
    and ack: "h_op (in_header ok) = st_op s + 1" "uint (h_replica (in_header ok)) \<noteq> st_id s"
    and result: "apply_operation (h_operation h) (in_payload inbound) (st_state_machine s) = (kv, result)"
  shows "st_commit (r_state p2) = st_op s + 1 \<and> st_last_executed_op (r_state p2) = st_op s + 1 \<and>
     st_state_machine (r_state p2) = kv \<and>
     (\<exists>reply. r_outbox p2 = r_outbox p @ [Broadcast_to_peers (prepare_message inbound (r_state p1)),
          Send_message (Some c) reply] \<and>
        h_command (msg_header reply) = command_reply \<and> h_client (msg_header reply) = h_client h \<and>
        h_request (msg_header reply) = h_request h \<and> msg_payload reply = bytes_of_string result)"
proof -
  define e where "e = \<lparr>le_view = st_view s, le_op_type = h_operation h, le_client_id = h_client h,
      le_request_num = h_request h, le_payload = in_payload inbound,
      le_prepare_ok_acks = {uint (h_replica (in_header ok)), st_id s}\<rparr>"
  define e0 where "e0 = e\<lparr>le_prepare_ok_acks := {st_id s}\<rparr>"
  have log1: "st_log (r_state p1) = om_assign (st_op s + 1) e0 (st_log s)"
    and out1: "r_outbox p1 = r_outbox p @ [Broadcast_to_peers (prepare_message inbound (r_state p1))]"
    and keep1: "st_commit (r_state p1) = st_op s" "st_last_executed_op (r_state p1) = st_op s"
      "st_state_machine (r_state p1) = st_state_machine s" "st_id (r_state p1) = st_id s"
      "is_primary (r_state p1)" "quorum (r_state p1) = 2"
      "om_find (st_client_table (r_state p1)) (h_client h) =
        Some \<lparr>ct_request_number = h_request h, ct_executed = False, ct_result = []\<rparr>"
      "om_find (r_client_connections p1) (h_client h) = Some (Some c)"
    using handle_request_fresh [OF new [unfolded s_def h_def]] settled(1,2) primary two conn
    by (simp_all add: p1_def h_def s_def e0_def e_def)
  define q where "q = (r_state p1)\<lparr>st_log := om_assign (st_op s + 1) e (st_log (r_state p1))\<rparr>"
  have p2: "p2 = advance_primary_commit_number (p1\<lparr>r_state := q\<rparr>)"
    by (simp add: p2_def handle_prepare_ok_def ack(1) log1 Let_def q_def e0_def e_def)
  have "can_commit_next q"
    using ack(2) by (simp add: can_commit_next_def q_def keep1 e_def)
  moreover have "om_find (st_log q) (st_commit q + 1 + 1) = None"
    using settled(3) by (simp add: q_def keep1 log1 add.assoc)
  moreover have "0 < length (st_log q)" "st_commit q = st_op s"
    by (simp_all add: q_def keep1 om_assign_nonempty del: length_greater_0_conv)
  ultimately have loop: "advance_loop (Suc (length (st_log q))) q = q\<lparr>st_commit := st_op s + 1\<rparr>"
    using advance_loop_one [of q "length (st_log q)"] by (simp del: advance_loop.simps)
  define t where "t = p1\<lparr>r_state := q\<lparr>st_commit := st_op s + 1\<rparr>\<rparr>"
  have "p2 = execute_commited_ops t"
    using loop by (simp add: p2 advance_primary_commit_number_def t_def q_def keep1 del: advance_loop.simps)
  also have "\<dots> = execute_next e t"
    using settled(4) by (intro execute_single [where n = "st_op s"]) (simp_all add: t_def q_def keep1)
  finally have exec: "p2 = execute_next e t" .
  have t: "om_find (st_client_table (r_state t)) (le_client_id e) =
      Some \<lparr>ct_request_number = h_request h, ct_executed = False, ct_result = []\<rparr>"
    "is_primary (r_state t)" "om_find (r_client_connections t) (le_client_id e) = Some (Some c)"
    "apply_operation (le_op_type e) (le_payload e) (st_state_machine (r_state t)) = (kv, result)"
    "r_outbox t = r_outbox p1" "st_last_executed_op (r_state t) = st_op s" "st_commit (r_state t) = st_op s + 1"
    using result by (simp_all add: t_def q_def keep1 e_def)
  note fresh = execute_fresh_entry [OF t(1) _ t(2-4), folded exec]
  show ?thesis
    using fresh t(5-7) out1 by (simp add: exec e_def reply_message_def)
qed

definition sample_set_request :: inbound_message where
  "sample_set_request = \<lparr>in_connection = Some 7, in_message = message_with (zero_header\<lparr>h_command := command_request,
     h_operation := operation_set, h_client := UInt128 3 4, h_request := 1\<rparr>) (bytes_of_string ''k v'')\<rparr>"

definition sample_ack :: inbound_message where
  "sample_ack = \<lparr>in_connection = Some 2, in_message = message_with (zero_header\<lparr>h_command := command_prepare_ok,
     h_op := 1, h_replica := 1\<rparr>) []\<rparr>"

theorem request_commits_and_replies_witness:
  "st_state_machine (r_state (handle_prepare_ok sample_ack (handle_request sample_set_request
     (new_replica 0 server_cluster_config)))) = [''k'' \<mapsto> ''v'']"
proof -
  have ap: "apply_operation (h_operation (in_header sample_set_request)) (in_payload sample_set_request)
      (st_state_machine (r_state (new_replica 0 server_cluster_config))) = ([''k'' \<mapsto> ''v''], ''SET k=v'')"
  proof -
    have "extract_word ''k v'' = (''k'', '' v'')" "extract_word '' v'' = (''v'', [])"
      by (simp_all add: extract_word_def is_space_def)
    then show ?thesis
      by (simp add: apply_operation_def sample_set_request_def new_replica_def new_ReplicaState_def)
  qed
  have two: "quorum (r_state (new_replica 0 server_cluster_config)) = 2"
    by (simp add: new_replica_def new_ReplicaState_def quorum_def fault_tolerance_def server_cluster_config_def)
  show ?thesis
    by (rule request_commits_and_replies [OF _ two _ _ _ _ _ _ _ _ ap, where c = 7, THEN conjunct2, THEN conjunct2, THEN conjunct1])
      (simp_all add: new_replica_def new_ReplicaState_def is_primary_def get_primary_id_def om_index_def
        new_client_table_entry_def sample_set_request_def sample_ack_def)
qed

section \<open>A message between two replicas\<close>

text \<open>The messages that reading a stream of chunks from one connection hands to the replica.\<close>

fun read_chunks ::
    "(byte list \<Rightarrow> byte list) \<Rightarrow> connection \<Rightarrow> byte list list \<Rightarrow> server \<Rightarrow> server option" where
  "read_chunks blake3 c [] sv = Some sv"
| "read_chunks blake3 c (chunk # chunks) sv =
     (case read_done blake3 c (Some chunk) sv of
        Some sv' \<Rightarrow> read_chunks blake3 c chunks sv'
      | None \<Rightarrow> None)"

lemma handle_raw_data_socket:
  assumes "tc_socket t = tc_socket u"
  shows "hr_buffers (handle_raw_data blake3 t data bufs) = hr_buffers (handle_raw_data blake3 u data bufs)"
    and "hr_received (handle_raw_data blake3 t data bufs) = hr_received (handle_raw_data blake3 u data bufs)"
    and "tc_socket (hr_connection (handle_raw_data blake3 t data bufs)) =
      tc_socket (hr_connection (handle_raw_data blake3 u data bufs))"
    and "tc_state (hr_connection (handle_raw_data blake3 t data bufs)) = tc_state t"
  using assms by (simp_all add: handle_raw_data_def Let_def split: prod.splits option.splits)

lemma read_chunks_receive:
  assumes "tc_state (sv_store sv c) \<noteq> UNIDENTIFIED" and "tc_socket u = tc_socket (sv_store sv c)"
    and "receive blake3 u (sv_buffers sv) chunks = (ms, t, bufs)"
  shows "\<exists>sv'. read_chunks blake3 c chunks sv = Some sv' \<and> sv_buffers sv' = bufs \<and>
     tc_socket (sv_store sv' c) = tc_socket t \<and> tc_state (sv_store sv' c) = tc_state (sv_store sv c) \<and>
     (\<exists>calls. sv_calls sv' = sv_calls sv @ calls \<and> [m. Received _ m \<leftarrow> calls] = ms)"
  using assms
proof (induction chunks arbitrary: sv u ms)
  case (Cons chunk chunks)
  let ?sv = "set_connection c (fill_buffer chunk (sv_store sv c)) sv"
  let ?h = "handle_raw_data blake3 u chunk (sv_buffers sv)"
  define sv1 where "sv1 = start_reading c (on_message blake3 c chunk ?sv)"
  have same: "tc_socket (fill_buffer chunk (sv_store sv c)) = tc_socket u"
    using Cons.prems(2) by simp
  have sv1: "tc_socket (hr_connection ?h) = tc_socket (sv_store sv1 c)" "sv_buffers sv1 = hr_buffers ?h"
    "tc_state (sv_store sv1 c) = tc_state (sv_store sv c)"
    by (simp_all add: sv1_def start_reading_def on_message_def Let_def handle_raw_data_socket [OF same]
        split: option.splits)
  have calls1: "\<exists>calls. sv_calls sv1 = sv_calls sv @ calls \<and> [m. Received _ m \<leftarrow> calls] = hr_received ?h"
    by (auto simp: sv1_def start_reading_def on_message_def Let_def comp_def handle_raw_data_socket [OF same]
        split: option.splits)
  obtain ms' where ms: "ms = hr_received ?h @ ms'"
    "receive blake3 (hr_connection ?h) (sv_buffers sv1) chunks = (ms', t, bufs)"
    using Cons.prems(3) by (auto simp: sv1 Let_def split: prod.splits)
  from Cons.prems(1) Cons.IH [OF _ sv1(1) ms(2)] obtain sv' calls' where
    "read_chunks blake3 c chunks sv1 = Some sv'" "sv_buffers sv' = bufs" "tc_socket (sv_store sv' c) = tc_socket t"
    "tc_state (sv_store sv' c) = tc_state (sv_store sv c)"
    "sv_calls sv' = sv_calls sv1 @ calls'" "[m. Received _ m \<leftarrow> calls'] = ms'"
    by (auto simp: sv1(3))
  moreover have "read_done blake3 c (Some chunk) sv = Some sv1"
    using Cons.prems(1) by (simp add: read_done_def sv1_def Let_def)
  ultimately show ?case
    using calls1 ms(1) by auto
qed simp

text \<open>
  C17: what one replica sends to a connected peer is what the peer's replica receives. The message
  is written to the peer's connection as one byte string; if these bytes arrive at the other
  server on an identified connection with nothing pending, in whatever chunks, exactly that
  message, sealed with its checksums and size, is handed on there, and the connection stays
  open. (The message must fit the receiver's limit of 64 KB.)
\<close>
theorem message_crosses_network:
  assumes "wf_message m" and "128 + length (msg_payload m) \<le> 65536"
    and "om_find (sv_peers_by_id sv) i = Some peer" and "peer_state peer = CONNECTED"
    and "peer_connection peer = Some c"
    and "tc_state (sv_store tv d) \<noteq> UNIDENTIFIED" and "tc_socket (sv_store tv d) \<noteq> - 1"
    and "om_index [] (sv_buffers tv) (tc_socket (sv_store tv d)) = []"
  shows "\<exists>data sv'. send_to_peer blake3 i m sv = Some sv' \<and> sv_calls sv' = sv_calls sv @ [Submit_write c data] \<and>
     (\<forall>chunks. chunks \<noteq> [] \<and> concat chunks = data \<longrightarrow>
       (\<exists>tv' calls. read_chunks blake3 d chunks tv = Some tv' \<and> sv_calls tv' = sv_calls tv @ calls \<and>
          [x. Received _ x \<leftarrow> calls] = [prepared_message blake3 m] \<and>
          tc_socket (sv_store tv' d) = tc_socket (sv_store tv d) \<and> tc_state (sv_store tv' d) = tc_state (sv_store tv d)))"
proof -
  obtain data where data: "serialize blake3 m = Some data"
    using serialize_ok [of m blake3] assms(2) by auto
  have send: "send_to_peer blake3 i m sv = Some (call (Submit_write c data) sv)"
    using assms(3-5) by (simp add: send_to_peer_def data mgr_send_to_peer_def server_send_def)
  have "\<exists>tv' calls. read_chunks blake3 d chunks tv = Some tv' \<and> sv_calls tv' = sv_calls tv @ calls \<and>
      [x. Received _ x \<leftarrow> calls] = [prepared_message blake3 m] \<and>
          tc_socket (sv_store tv' d) = tc_socket (sv_store tv d) \<and> tc_state (sv_store tv' d) = tc_state (sv_store tv d)"
    if "chunks \<noteq> []" "concat chunks = data" for chunks
  proof -
    have "frame_loop blake3 data = ([prepared_message blake3 m], Some [])"
      using frame_messages [of "[m]" blake3] assms(1,2) data by simp
    then have "feed (frame_loop blake3) (Some (om_index [] (sv_buffers tv) (tc_socket (sv_store tv d)))) chunks =
        ([prepared_message blake3 m], Some [])"
      using framing.feed_once [OF that(1)] that(2) assms(8) by simp
    from receive_feed [OF assms(7) that(1) this] obtain bufs where
      "receive blake3 (sv_store tv d) (sv_buffers tv) chunks = ([prepared_message blake3 m], sv_store tv d, bufs)"
      by auto
    from read_chunks_receive [OF assms(6) refl this] show ?thesis by blast
  qed
  with send show ?thesis
    by (intro exI [of _ data] exI [of _ "call (Submit_write c data) sv"]) simp
qed

theorem message_crosses_network_witness:
  "\<exists>data sv'. send_to_peer (\<lambda>_. replicate 32 7) 2 new_message sample_connected = Some sv' \<and>
     sv_calls sv' = [Submit_read 0, Submit_write 0 data]"
proof -
  let ?tv = "set_conn_state 0 PEER sample_connected"
  have "wf_message new_message" "128 + length (msg_payload new_message) \<le> 65536"
    "om_find (sv_peers_by_id sample_connected) 2 =
      Some ((new_Peer 2 ''localhost'' 8082)\<lparr>peer_state := CONNECTED, peer_connection := Some 0\<rparr>)"
    "tc_state (sv_store ?tv 0) \<noteq> UNIDENTIFIED" "tc_socket (sv_store ?tv 0) \<noteq> - 1"
    "om_index [] (sv_buffers ?tv) (tc_socket (sv_store ?tv 0)) = []"
    by (simp_all add: new_message_def zero_header_def wf_message_def wf_header_def set_conn_state_def
        sample_connected_peers new_TcpConnection_def om_index_def om_find_def)
  from message_crosses_network [OF this(1-3) _ _ this(4-6), of 0 "\<lambda>_. replicate 32 7"]
  show ?thesis
    by (auto simp: sample_connected_peers)
qed

end
